theory Spec2Isabelle
  imports Main "HOL-Library.Word"
begin

unbundle bit_operations_syntax

section \<open>Memory model\<close>

text \<open>
  Both allocators manage one caller-supplied segment of raw bytes and keep all their
  metadata in-band.  Pointers and \<open>size_t\<close> values are 64-bit words; \<open>NULL\<close> is the
  word \<open>0\<close>; pointer comparison is unsigned comparison of the words.  Memory is a
  function from addresses to bytes; an 8-byte word is stored little-endian.

  The allocator owns the bytes of \<open>[segment_start, segment_end)\<close> only.  Every access of
  the source goes through \<open>load64\<close>, \<open>store64\<close> or \<open>memcpy\<close>, and an access that does not
  lie inside the segment is the fault \<open>OutOfSegment\<close> (in C: undefined behaviour, for the
  null pointer a crash).  A loop of the source that never returns is the value \<open>None\<close>.
  The diagnostic calls \<open>printf\<close> and \<open>breakpoint\<close> do not touch the heap and are left out.
\<close>

type_synonym addr = "64 word"
type_synonym size_t = "64 word"
type_synonym byte = "8 word"
type_synonym memory = "addr \<Rightarrow> byte"

datatype fault = OutOfSegment addr

type_synonym 'a result = "(fault + 'a) option"

definition ret :: "'a \<Rightarrow> 'a result" where
  "ret x = Some (Inr x)"

definition raise :: "fault \<Rightarrow> 'a result" where
  "raise e = Some (Inl e)"

definition rbind :: "'a result \<Rightarrow> ('a \<Rightarrow> 'b result) \<Rightarrow> 'b result" where
  "rbind m f = (case m of None \<Rightarrow> None | Some (Inl e) \<Rightarrow> Some (Inl e) | Some (Inr x) \<Rightarrow> f x)"

lemma rbind_mono [partial_function_mono]:
  fixes B :: "('x \<Rightarrow> 'y option) \<Rightarrow> 'a result"
  assumes "mono_option B" and "\<And>y. mono_option (\<lambda>f. C y f)"
  shows "mono_option (\<lambda>f. rbind (B f) (\<lambda>y. C y f))"
proof (rule monotoneI)
  fix f g :: "'x \<Rightarrow> 'y option"
  assume fg: "fun_ord option_ord f g"
  have b: "option_ord (B f) (B g)"
    using assms(1) fg by (auto dest: monotoneD)
  have c: "option_ord (C y f) (C y g)" for y
    using assms(2) [of y] fg by (auto dest: monotoneD)
  show "option_ord (rbind (B f) (\<lambda>y. C y f)) (rbind (B g) (\<lambda>y. C y g))"
  proof (cases "B f")
    case None
    then show ?thesis by (simp add: rbind_def flat_ord_def)
  next
    case (Some r)
    with b have "B g = Some r" by (auto simp: flat_ord_def)
    with Some c show ?thesis by (cases r) (auto simp: rbind_def flat_ord_def)
  qed
qed

record segment =
  mem :: memory
  segment_start :: addr
  segment_end :: addr

text \<open>Little-endian byte strings and 64-bit words.\<close>

fun le_word :: "byte list \<Rightarrow> 64 word" where
  "le_word [] = 0"
| "le_word (b # bs) = ucast b OR push_bit 8 (le_word bs)"

fun word_bytes :: "nat \<Rightarrow> 64 word \<Rightarrow> byte list" where
  "word_bytes 0 v = []"
| "word_bytes (Suc n) v = ucast v # word_bytes n (drop_bit 8 v)"

definition rd64 :: "memory \<Rightarrow> addr \<Rightarrow> 64 word" where
  "rd64 m a =
     le_word [m a, m (a + 1), m (a + 2), m (a + 3), m (a + 4), m (a + 5), m (a + 6), m (a + 7)]"

definition wr64 :: "memory \<Rightarrow> addr \<Rightarrow> 64 word \<Rightarrow> memory" where
  "wr64 m a v = (\<lambda>x. if x - a < 8 then word_bytes 8 v ! unat (x - a) else m x)"

definition in_segment :: "'a segment_scheme \<Rightarrow> addr \<Rightarrow> nat \<Rightarrow> bool" where
  "in_segment s a n \<longleftrightarrow> segment_start s \<le> a \<and> unat a + n \<le> unat (segment_end s)"

definition load64 :: "'a segment_scheme \<Rightarrow> addr \<Rightarrow> 64 word result" where
  "load64 s a = (if in_segment s a 8 then ret (rd64 (mem s) a) else raise (OutOfSegment a))"

definition store64 :: "'a segment_scheme \<Rightarrow> addr \<Rightarrow> 64 word \<Rightarrow> 'a segment_scheme result" where
  "store64 s a v =
     (if in_segment s a 8 then ret (s\<lparr>mem := wr64 (mem s) a v\<rparr>) else raise (OutOfSegment a))"

text \<open>\<open>memcpy(dst, src, n)\<close>: \<open>n\<close> bytes, read from the memory before the call.\<close>

definition memcpy :: "'a segment_scheme \<Rightarrow> addr \<Rightarrow> addr \<Rightarrow> size_t \<Rightarrow> 'a segment_scheme result" where
  "memcpy s dst src n =
     (if n = 0 then ret s
      else if \<not> in_segment s src (unat n) then raise (OutOfSegment src)
      else if \<not> in_segment s dst (unat n) then raise (OutOfSegment dst)
      else ret (s\<lparr>mem := (\<lambda>x. if x - dst < n then mem s (src + (x - dst)) else mem s x)\<rparr>))"

section \<open>Constants shared by both allocators\<close>

text \<open>
  Modelled from the spec: \<open>allocator.h\<close> is not among the sources; it defines the macro
  \<open>ALIGNMENT\<close>, which the spec fixes as the 8-byte word alignment.
\<close>

definition ALIGNMENT :: size_t where
  "ALIGNMENT = 8"

definition MIN_BLOCK_SIZE :: size_t where
  "MIN_BLOCK_SIZE = 16"

definition HEADER_LENGTH :: size_t where
  "HEADER_LENGTH = 8"

definition FREE :: size_t where
  "FREE = 7"

definition USED :: size_t where
  "USED = 0"

definition NON_EXISTENT :: size_t where
  "NON_EXISTENT = 1"

definition NULL :: addr where
  "NULL = 0"

section \<open>The explicit free-list allocator (explicit.c)\<close>

record heap = segment +
  list_head :: addr
  list_end :: addr
  free_blocks_num :: size_t

definition get_curr_prev :: "addr \<Rightarrow> addr" where
  "get_curr_prev cur = cur + HEADER_LENGTH"

definition get_curr_next :: "addr \<Rightarrow> addr" where
  "get_curr_next cur = cur + HEADER_LENGTH + 8"

definition get_prev_free_block :: "'a segment_scheme \<Rightarrow> addr \<Rightarrow> addr result" where
  "get_prev_free_block s cur = load64 s (get_curr_prev cur)"

definition get_next_free_block :: "'a segment_scheme \<Rightarrow> addr \<Rightarrow> addr result" where
  "get_next_free_block s cur = load64 s (get_curr_next cur)"

definition roundup :: "size_t \<Rightarrow> size_t \<Rightarrow> size_t" where
  "roundup sz mult =
     (if sz \<le> MIN_BLOCK_SIZE then MIN_BLOCK_SIZE else (sz + mult - 1) AND NOT (mult - 1))"

text \<open>The scan of \<open>insert_block_into_freelist\<close> for the first list node not below \<open>cur\<close>.\<close>

partial_function (option) insert_block_loop :: "heap \<Rightarrow> addr \<Rightarrow> addr \<Rightarrow> addr result" where
  "insert_block_loop s cur list_next =
     (if list_next < cur
      then rbind (get_next_free_block s list_next) (\<lambda>nxt. insert_block_loop s cur nxt)
      else ret list_next)"

definition insert_block_into_freelist :: "heap \<Rightarrow> addr \<Rightarrow> heap result" where
  "insert_block_into_freelist s0 cur =
     (let s = s0\<lparr>free_blocks_num := free_blocks_num s0 + 1\<rparr>;
          prev = get_curr_prev cur;
          next = get_curr_next cur
      in if list_head s = NULL then
           rbind (store64 s prev NULL) (\<lambda>s.
           rbind (store64 s next NULL) (\<lambda>s.
           ret (s\<lparr>list_head := cur, list_end := cur\<rparr>)))
         else if cur < list_head s then
           rbind (store64 s prev NULL) (\<lambda>s.
           rbind (store64 s next (list_head s)) (\<lambda>s.
           rbind (store64 s (get_curr_prev (list_head s)) cur) (\<lambda>s.
           ret (s\<lparr>list_head := cur\<rparr>))))
         else if list_end s < cur then
           rbind (store64 s prev (list_end s)) (\<lambda>s.
           rbind (store64 s next NULL) (\<lambda>s.
           rbind (store64 s (get_curr_next (list_end s)) cur) (\<lambda>s.
           ret (s\<lparr>list_end := cur\<rparr>))))
         else
           rbind (insert_block_loop s cur (list_head s)) (\<lambda>list_next.
           rbind (get_prev_free_block s list_next) (\<lambda>list_prev.
           rbind (store64 s (get_curr_next list_prev) cur) (\<lambda>s.
           rbind (store64 s (get_curr_prev list_next) cur) (\<lambda>s.
           rbind (store64 s prev list_prev) (\<lambda>s.
           store64 s next list_next))))))"

definition remove_block_from_freelist :: "heap \<Rightarrow> addr \<Rightarrow> heap result" where
  "remove_block_from_freelist s0 cur =
     (let s = s0\<lparr>free_blocks_num := free_blocks_num s0 - 1\<rparr> in
      rbind (get_prev_free_block s cur) (\<lambda>prev.
      rbind (get_next_free_block s cur) (\<lambda>next.
      rbind (if prev \<noteq> NULL then store64 s (get_curr_next prev) next else ret s) (\<lambda>s.
      rbind (if next \<noteq> NULL then store64 s (get_curr_prev next) prev else ret s) (\<lambda>s.
      let s = (if cur = list_head s then s\<lparr>list_head := next\<rparr> else s);
          s = (if cur = list_end s then s\<lparr>list_end := prev\<rparr> else s)
      in ret s)))))"

text \<open>
  \<open>myinit\<close> overwrites every global; the memory is what the caller hands over.  On
  refusal the state is returned as it was.
\<close>

definition myinit :: "heap \<Rightarrow> addr \<Rightarrow> size_t \<Rightarrow> (bool \<times> heap) result" where
  "myinit s0 heap_start heap_size =
     (if heap_start = NULL \<or> heap_size < HEADER_LENGTH + MIN_BLOCK_SIZE then ret (False, s0)
      else
        let s = s0\<lparr>segment_start := heap_start, segment_end := heap_start + heap_size,
                   list_head := heap_start, list_end := heap_start\<rparr>
        in rbind (store64 s (list_head s) ((heap_size - HEADER_LENGTH) OR FREE)) (\<lambda>s.
           rbind (store64 s (get_curr_prev (list_head s)) NULL) (\<lambda>s.
           rbind (store64 s (get_curr_next (list_head s)) NULL) (\<lambda>s.
           ret (True, s\<lparr>free_blocks_num := 1\<rparr>)))))"

partial_function (option) mymalloc_loop :: "size_t \<Rightarrow> heap \<Rightarrow> addr \<Rightarrow> (addr \<times> heap) result" where
  "mymalloc_loop needed s cur =
     (if cur \<le> list_end s then
        rbind (load64 s cur) (\<lambda>w.
        let curr_size = w AND NOT FREE in
        if curr_size \<ge> needed then
          rbind
            (if curr_size - needed < HEADER_LENGTH + MIN_BLOCK_SIZE then
               rbind (store64 s cur (curr_size AND NOT FREE)) (\<lambda>s.
               remove_block_from_freelist s cur)
             else
               rbind (store64 s cur (needed AND NOT FREE)) (\<lambda>s.
               let new_header = cur + needed + HEADER_LENGTH in
               rbind (store64 s new_header ((curr_size - needed - HEADER_LENGTH) OR FREE)) (\<lambda>s.
               rbind (get_prev_free_block s cur) (\<lambda>prev.
               rbind (get_next_free_block s cur) (\<lambda>next.
               rbind (if prev \<noteq> NULL then store64 s (get_curr_next prev) new_header else ret s) (\<lambda>s.
               rbind (if next \<noteq> NULL then store64 s (get_curr_prev next) new_header else ret s) (\<lambda>s.
               rbind (store64 s (get_curr_prev new_header) prev) (\<lambda>s.
               rbind (store64 s (get_curr_next new_header) next) (\<lambda>s.
               let s = (if cur = list_head s then s\<lparr>list_head := new_header\<rparr> else s);
                   s = (if cur = list_end s then s\<lparr>list_end := new_header\<rparr> else s)
               in ret s)))))))))
            (\<lambda>s. ret (cur + HEADER_LENGTH, s))
        else
          rbind (get_next_free_block s cur) (\<lambda>nxt. mymalloc_loop needed s nxt))
      else ret (NULL, s))"

definition mymalloc :: "heap \<Rightarrow> size_t \<Rightarrow> (addr \<times> heap) result" where
  "mymalloc s requested_size =
     (let needed = roundup requested_size ALIGNMENT in mymalloc_loop needed s (list_head s))"

text \<open>
  The expression
  \<open>(right == segment_end) ? NON_EXISTENT : *(size_t *)right & FREE\<close>,
  which \<open>myfree\<close> and \<open>myrealloc\<close> evaluate for the block to the right.
\<close>

definition right_status_of :: "'a segment_scheme \<Rightarrow> addr \<Rightarrow> size_t result" where
  "right_status_of s right =
     (if right = segment_end s then ret NON_EXISTENT
      else rbind (load64 s right) (\<lambda>w. ret (w AND FREE)))"

definition myfree :: "heap \<Rightarrow> addr \<Rightarrow> heap result" where
  "myfree s ptr =
     (if ptr = NULL then ret s
      else
        let cur = ptr - HEADER_LENGTH in
        rbind (load64 s cur) (\<lambda>w.
        let curr_size = w AND NOT FREE;
            right = cur + HEADER_LENGTH + curr_size
        in
        rbind (right_status_of s right) (\<lambda>right_status.
        if right_status = FREE then
          rbind (load64 s right) (\<lambda>right_size.
          rbind (store64 s right (right_size AND NOT FREE)) (\<lambda>s.
          rbind (store64 s cur ((curr_size + HEADER_LENGTH + right_size) OR FREE)) (\<lambda>s.
          rbind (get_prev_free_block s right) (\<lambda>right_prev.
          rbind (get_next_free_block s right) (\<lambda>right_next.
          rbind (if right_prev \<noteq> NULL then store64 s (get_curr_next right_prev) cur else ret s) (\<lambda>s.
          rbind (if right_next \<noteq> NULL then store64 s (get_curr_prev right_next) cur else ret s) (\<lambda>s.
          rbind (store64 s (get_curr_prev cur) right_prev) (\<lambda>s.
          rbind (store64 s (get_curr_next cur) right_next) (\<lambda>s.
          let s = (if right = list_head s then s\<lparr>list_head := cur\<rparr> else s);
              s = (if right = list_end s then s\<lparr>list_end := cur\<rparr> else s)
          in ret s)))))))))
        else
          rbind (store64 s cur (curr_size OR FREE)) (\<lambda>s.
          insert_block_into_freelist s cur))))"

text \<open>The right-absorption loop of \<open>myrealloc\<close>; it returns the heap and the grown \<open>curr_size\<close>.\<close>

partial_function (option) myrealloc_loop ::
    "heap \<Rightarrow> addr \<Rightarrow> size_t \<Rightarrow> addr \<Rightarrow> size_t \<Rightarrow> (heap \<times> size_t) result" where
  "myrealloc_loop s cur curr_size right right_status =
     (if right_status = FREE then
        rbind (load64 s right) (\<lambda>w.
        let right_size = w AND NOT FREE in
        rbind (store64 s right (right_size AND NOT FREE)) (\<lambda>s.
        rbind (remove_block_from_freelist s right) (\<lambda>s.
        let curr_size = curr_size + (HEADER_LENGTH + right_size);
            right = cur + HEADER_LENGTH + curr_size
        in
        rbind (right_status_of s right) (\<lambda>right_status.
        myrealloc_loop s cur curr_size right right_status))))
      else ret (s, curr_size))"

definition myrealloc :: "heap \<Rightarrow> addr \<Rightarrow> size_t \<Rightarrow> (addr \<times> heap) result" where
  "myrealloc s old_ptr new_size =
     (if old_ptr = NULL then mymalloc s new_size
      else
        let needed = roundup new_size ALIGNMENT;
            cur = old_ptr - HEADER_LENGTH
        in
        rbind (load64 s cur) (\<lambda>w.
        let old_size = w AND NOT FREE;
            curr_size = old_size;
            right = cur + HEADER_LENGTH + curr_size
        in
        rbind (right_status_of s right) (\<lambda>right_status.
        rbind (myrealloc_loop s cur curr_size right right_status) (\<lambda>(s, curr_size).
        if curr_size \<ge> needed then
          rbind
            (if curr_size - needed < HEADER_LENGTH + MIN_BLOCK_SIZE then
               store64 s cur (curr_size AND NOT FREE)
             else
               rbind (store64 s cur (needed AND NOT FREE)) (\<lambda>s.
               let new_pointer = cur + HEADER_LENGTH + needed in
               rbind (store64 s new_pointer ((curr_size - needed - HEADER_LENGTH) OR FREE)) (\<lambda>s.
               insert_block_into_freelist s new_pointer)))
            (\<lambda>s. ret (old_ptr, s))
        else
          rbind (mymalloc s new_size) (\<lambda>(new_ptr, s).
          rbind (memcpy s new_ptr old_ptr old_size) (\<lambda>s.
          rbind (store64 s cur (curr_size OR FREE)) (\<lambda>s.
          rbind (myfree s old_ptr) (\<lambda>s.
          ret (new_ptr, s)))))))))"

partial_function (option) traverse_heap_loop :: "heap \<Rightarrow> addr \<Rightarrow> size_t \<Rightarrow> bool result" where
  "traverse_heap_loop s ptr count =
     (if ptr < segment_end s then
        rbind (load64 s ptr) (\<lambda>w.
        let curr_size = w AND NOT FREE;
            curr_status = w AND FREE
        in
        if curr_size < MIN_BLOCK_SIZE then ret False
        else if curr_status \<noteq> FREE \<and> curr_status \<noteq> USED then ret False
        else
          traverse_heap_loop s (ptr + HEADER_LENGTH + curr_size)
            (if curr_status = FREE then count + 1 else count))
      else if ptr \<noteq> segment_end s then ret False
      else if count \<noteq> free_blocks_num s then ret False
      else ret True)"

definition traverse_heap :: "heap \<Rightarrow> bool result" where
  "traverse_heap s = traverse_heap_loop s (segment_start s) 0"

definition within_heap_range :: "'a segment_scheme \<Rightarrow> addr \<Rightarrow> bool" where
  "within_heap_range s ptr =
     (if ptr = NULL then False else segment_start s \<le> ptr \<and> ptr \<le> segment_end s)"

partial_function (option) traverse_freelist_loop ::
    "heap \<Rightarrow> bool \<Rightarrow> addr \<Rightarrow> size_t \<Rightarrow> bool result" where
  "traverse_freelist_loop s reverse ptr count =
     (if count \<le> free_blocks_num s then
        rbind (load64 s ptr) (\<lambda>w.
        let curr_status = w AND FREE in
        if curr_status \<noteq> FREE then ret False
        else
          rbind (get_prev_free_block s ptr) (\<lambda>prev.
          rbind (get_next_free_block s ptr) (\<lambda>next.
          let test_prev =
                (if \<not> reverse
                 then (if count = 1 then prev = NULL else within_heap_range s prev)
                 else (if count = free_blocks_num s then prev = NULL else within_heap_range s prev));
              test_next =
                (if \<not> reverse
                 then (if count = free_blocks_num s then next = NULL else within_heap_range s next)
                 else (if count = 1 then next = NULL else within_heap_range s next))
          in
          if \<not> test_prev \<or> \<not> test_next then ret False
          else if (prev \<noteq> NULL \<and> prev \<ge> ptr) \<or> (next \<noteq> NULL \<and> ptr \<ge> next) then ret False
          else traverse_freelist_loop s reverse (if reverse then prev else next) (count + 1))))
      else ret True)"

definition traverse_freelist :: "heap \<Rightarrow> bool \<Rightarrow> bool result" where
  "traverse_freelist s reverse =
     (if free_blocks_num s = 0 then ret (list_head s = NULL \<and> list_end s = NULL)
      else traverse_freelist_loop s reverse (if reverse then list_end s else list_head s) 1)"

definition validate_heap :: "heap \<Rightarrow> bool result" where
  "validate_heap s =
     rbind (traverse_heap s) (\<lambda>b1.
     if \<not> b1 then ret False
     else rbind (traverse_freelist s True) (\<lambda>b2.
       if \<not> b2 then ret False
       else rbind (traverse_freelist s False) (\<lambda>b3.
         if \<not> b3 then ret False else ret True)))"

section \<open>The implicit allocator (the second source file)\<close>

text \<open>
  The implicit allocator keeps only the segment bounds.  Its functions carry the prefix
  \<open>implicit_\<close>; the constants \<open>FREE\<close>, \<open>USED\<close> and \<open>HEADER_LENGTH\<close> have the same values in
  both files.
\<close>

definition implicit_roundup :: "size_t \<Rightarrow> size_t \<Rightarrow> size_t" where
  "implicit_roundup sz mult =
     (if sz \<le> ALIGNMENT then ALIGNMENT else (sz + mult - 1) AND NOT (mult - 1))"

definition implicit_myinit :: "segment \<Rightarrow> addr \<Rightarrow> size_t \<Rightarrow> (bool \<times> segment) result" where
  "implicit_myinit s0 heap_start heap_size =
     (if heap_start = NULL \<or> heap_size \<le> HEADER_LENGTH then ret (False, s0)
      else
        let s = s0\<lparr>segment_start := heap_start\<rparr> in
        let s = s\<lparr>segment_end := heap_start + heap_size\<rparr> in
        rbind (store64 s (segment_start s) ((heap_size - HEADER_LENGTH) OR FREE)) (\<lambda>s.
        ret (True, s)))"

partial_function (option) implicit_mymalloc_loop ::
    "size_t \<Rightarrow> segment \<Rightarrow> addr \<Rightarrow> (addr \<times> segment) result" where
  "implicit_mymalloc_loop needed s ptr =
     (if ptr < segment_end s then
        rbind (load64 s ptr) (\<lambda>w.
        let curr_size = w AND NOT FREE;
            curr_status = w AND FREE
        in
        if curr_size \<ge> needed \<and> curr_status = FREE then
          rbind
            (if curr_size - needed \<le> HEADER_LENGTH then
               store64 s ptr (curr_size AND NOT FREE)
             else
               rbind (store64 s ptr (needed AND NOT FREE)) (\<lambda>s.
               let next_header = ptr + HEADER_LENGTH + needed in
               store64 s next_header ((curr_size - needed - HEADER_LENGTH) OR FREE)))
            (\<lambda>s. ret (ptr + HEADER_LENGTH, s))
        else implicit_mymalloc_loop needed s (ptr + curr_size + HEADER_LENGTH))
      else ret (NULL, s))"

definition implicit_mymalloc :: "segment \<Rightarrow> size_t \<Rightarrow> (addr \<times> segment) result" where
  "implicit_mymalloc s requested_size =
     (let needed = implicit_roundup requested_size ALIGNMENT
      in implicit_mymalloc_loop needed s (segment_start s))"

definition implicit_myfree :: "segment \<Rightarrow> addr \<Rightarrow> segment result" where
  "implicit_myfree s ptr =
     (if ptr \<noteq> NULL then
        let header = ptr - HEADER_LENGTH in
        rbind (load64 s header) (\<lambda>w. store64 s header (w OR FREE))
      else ret s)"

definition implicit_myrealloc :: "segment \<Rightarrow> addr \<Rightarrow> size_t \<Rightarrow> (addr \<times> segment) result" where
  "implicit_myrealloc s old_ptr new_size =
     (if old_ptr = NULL then implicit_mymalloc s new_size
      else
        rbind (load64 s (old_ptr - HEADER_LENGTH)) (\<lambda>old_size.
        let needed = implicit_roundup new_size ALIGNMENT in
        if old_size \<ge> needed then
          rbind
            (if old_size - needed > HEADER_LENGTH then
               let new_header = old_ptr + needed in
               store64 s new_header ((old_size - needed - HEADER_LENGTH) OR FREE)
             else ret s)
            (\<lambda>s. ret (old_ptr, s))
        else
          rbind (implicit_mymalloc s new_size) (\<lambda>(new_ptr, s).
          if new_ptr = NULL then ret (NULL, s)
          else
            rbind (memcpy s new_ptr old_ptr old_size) (\<lambda>s.
            rbind (implicit_myfree s old_ptr) (\<lambda>s.
            ret (new_ptr, s))))))"

partial_function (option) implicit_validate_heap_loop :: "segment \<Rightarrow> addr \<Rightarrow> bool result" where
  "implicit_validate_heap_loop s ptr =
     (if ptr < segment_end s then
        rbind (load64 s ptr) (\<lambda>w.
        let curr_size = w AND NOT FREE;
            curr_status = w AND FREE
        in
        if curr_status \<noteq> FREE \<and> curr_status \<noteq> USED then ret False
        else implicit_validate_heap_loop s (ptr + HEADER_LENGTH + curr_size))
      else if ptr \<noteq> segment_end s then ret False
      else ret True)"

definition implicit_validate_heap :: "segment \<Rightarrow> bool result" where
  "implicit_validate_heap s = implicit_validate_heap_loop s (segment_start s)"

section \<open>Initial states\<close>

text \<open>
  The state before the first \<open>myinit\<close>: the static globals are zero; the memory of the
  concrete scenarios below is zero-filled.
\<close>

definition heap0 :: heap where
  "heap0 = \<lparr>mem = (\<lambda>_. 0), segment_start = 0, segment_end = 0,
            list_head = 0, list_end = 0, free_blocks_num = 0\<rparr>"

definition seg0 :: segment where
  "seg0 = \<lparr>mem = (\<lambda>_. 0), segment_start = 0, segment_end = 0\<rparr>"

text \<open>A word is 8-byte aligned when its three status bits are clear.\<close>

definition aligned8 :: "64 word \<Rightarrow> bool" where
  "aligned8 x = (x AND FREE = 0)"

section \<open>The heap as a list of blocks\<close>

text \<open>
  The abstraction used by the proofs.  A block is its header address, its payload size and
  whether it is free.  \<open>layout a bs e\<close>: the blocks \<open>bs\<close> tile \<open>[a, e)\<close>, every payload is
  a multiple of 8 of at least 16 bytes.  \<open>hdrs m bs\<close>: every header word in \<open>m\<close> is
  \<open>size | status\<close>.  \<open>frees bs\<close>: the addresses of the free blocks, in address order.
  \<open>dlseg m p fl n\<close>: the link words of the nodes \<open>fl\<close> form a doubly linked list segment
  entered from \<open>p\<close> and left to \<open>n\<close>.  \<open>heap_ok s bs\<close>: the state \<open>s\<close> of the explicit
  allocator is the well-formed heap \<open>bs\<close> (invariants I1 to I5 of the specification).
\<close>

type_synonym block = "addr \<times> size_t \<times> bool"

definition hdr :: "size_t \<Rightarrow> bool \<Rightarrow> 64 word" where
  "hdr sz fr = (if fr then sz OR FREE else sz)"

fun layout :: "addr \<Rightarrow> block list \<Rightarrow> addr \<Rightarrow> bool" where
  "layout a [] e = (a = e)"
| "layout a ((b, sz, fr) # bs) e =
     (b = a \<and> aligned8 sz \<and> 16 \<le> unat sz \<and> unat a + 8 + unat sz \<le> unat e
      \<and> layout (a + 8 + sz) bs e)"

definition hdrs :: "memory \<Rightarrow> block list \<Rightarrow> bool" where
  "hdrs m bs = list_all (\<lambda>(b, sz, fr). rd64 m b = hdr sz fr) bs"

definition frees :: "block list \<Rightarrow> addr list" where
  "frees bs = map fst (filter (\<lambda>(b, sz, fr). fr) bs)"

fun hdd :: "addr list \<Rightarrow> addr \<Rightarrow> addr" where
  "hdd [] n = n"
| "hdd (y # ys) n = y"

fun lastd :: "addr list \<Rightarrow> addr \<Rightarrow> addr" where
  "lastd [] p = p"
| "lastd (y # ys) p = lastd ys y"

fun dlseg :: "memory \<Rightarrow> addr \<Rightarrow> addr list \<Rightarrow> addr \<Rightarrow> bool" where
  "dlseg m p [] n = True"
| "dlseg m p (x # xs) n =
     (rd64 m (get_curr_prev x) = p \<and> rd64 m (get_curr_next x) = hdd xs n \<and> dlseg m x xs n)"

definition within :: "nat \<Rightarrow> nat \<Rightarrow> block list \<Rightarrow> bool" where
  "within lo hi bs = list_all (\<lambda>(b, sz, fr). lo \<le> unat b \<and> unat b + 8 + unat sz \<le> hi \<and> 16 \<le> unat sz \<and> aligned8 sz) bs"

fun blocks_end :: "addr \<Rightarrow> block list \<Rightarrow> addr" where
  "blocks_end a [] = a"
| "blocks_end a ((b, sz, fr) # bs) = blocks_end (b + 8 + sz) bs"

definition before :: "block \<Rightarrow> block \<Rightarrow> bool" where
  "before x y = (unat (fst x) + 8 + unat (fst (snd x)) \<le> unat (fst y))"

definition gap :: "addr \<Rightarrow> addr \<Rightarrow> bool" where
  "gap x y = (unat x + 24 \<le> unat y)"

definition fl_pos :: "nat \<Rightarrow> nat \<Rightarrow> addr list \<Rightarrow> bool" where
  "fl_pos lo hi fl = (sorted_wrt gap fl \<and> list_all (\<lambda>x. lo \<le> unat x \<and> unat x + 24 \<le> hi) fl)"

definition fl_inv :: "heap \<Rightarrow> addr list \<Rightarrow> bool" where
  "fl_inv s fl =
     (dlseg (mem s) NULL fl NULL
      \<and> list_head s = hdd fl NULL
      \<and> list_end s = lastd fl NULL
      \<and> free_blocks_num s = of_nat (length fl))"

definition heap_ok :: "heap \<Rightarrow> block list \<Rightarrow> bool" where
  "heap_ok s bs =
     (segment_start s \<noteq> NULL
      \<and> layout (segment_start s) bs (segment_end s)
      \<and> hdrs (mem s) bs
      \<and> fl_inv s (frees bs))"

definition free_extent :: "block list \<Rightarrow> addr \<Rightarrow> bool" where
  "free_extent bs x = list_ex (\<lambda>(b, z, fr). fr \<and> unat b \<le> unat x \<and> unat x < unat b + 8 + unat z) bs"

text \<open>The byte at \<open>x\<close> lies in the header or in the link words of a FREE block.\<close>

definition free_meta :: "block list \<Rightarrow> addr \<Rightarrow> bool" where
  "free_meta bs x = list_ex (\<lambda>(b, z, fr). fr \<and> unat b \<le> unat x \<and> unat x < unat b + 24) bs"

definition fresh_heap :: heap where
  "fresh_heap = \<lparr>mem = wr64 (wr64 (wr64 (\<lambda>_. 0) 4096 1023) 4104 0) 4112 0,
      segment_start = 4096, segment_end = 5120,
      list_head = 4096, list_end = 4096, free_blocks_num = 1\<rparr>"

fun starts_free :: "block list \<Rightarrow> bool" where
  "starts_free [] = False"
| "starts_free ((b, sz, fr) # bs) = fr"

text \<open>The block list after \<open>myfree\<close> of the USED block \<open>(cur, sz)\<close> followed by \<open>post\<close>.\<close>

fun freed :: "addr \<Rightarrow> size_t \<Rightarrow> block list \<Rightarrow> block list" where
  "freed cur sz [] = [(cur, sz, True)]"
| "freed cur sz ((r, rs, fr) # post) =
     (if fr then (cur, sz + HEADER_LENGTH + rs, True) # post
      else (cur, sz, True) # (r, rs, fr) # post)"

text \<open>Two blocks that follow each other in the heap walk are both FREE.\<close>

fun adjacent_free :: "block list \<Rightarrow> bool" where
  "adjacent_free [] = False"
| "adjacent_free [x] = False"
| "adjacent_free ((b, sz, fr) # (b', sz', fr') # bs) =
     ((fr \<and> fr') \<or> adjacent_free ((b', sz', fr') # bs))"

fun ends_free :: "block list \<Rightarrow> bool" where
  "ends_free [] = False"
| "ends_free [(b, sz, fr)] = fr"
| "ends_free (x # y # bs) = ends_free (y # bs)"

text \<open>The blocks that \<open>mymalloc\<close> makes of the chosen free block \<open>(f, sz)\<close> for the rounded
  size \<open>need\<close>.\<close>

definition taken :: "addr \<Rightarrow> size_t \<Rightarrow> size_t \<Rightarrow> block list" where
  "taken f sz need =
     (if sz - need < HEADER_LENGTH + MIN_BLOCK_SIZE then [(f, sz, False)]
      else [(f, need, False), (f + need + HEADER_LENGTH, sz - need - HEADER_LENGTH, True)])"

text \<open>The right-absorption loop of \<open>myrealloc\<close> on block lists: the leading FREE blocks of
  \<open>post\<close> are taken out of the free list and marked USED, and \<open>curr_size\<close> grows by their
  headers and payloads.\<close>

fun absorbed :: "block list \<Rightarrow> block list" where
  "absorbed [] = []"
| "absorbed ((r, rs, fr) # post) = (if fr then (r, rs, False) # absorbed post else (r, rs, fr) # post)"

fun grown :: "size_t \<Rightarrow> block list \<Rightarrow> size_t" where
  "grown cs [] = cs"
| "grown cs ((r, rs, fr) # post) = (if fr then grown (cs + (HEADER_LENGTH + rs)) post else cs)"

fun unabsorbed :: "block list \<Rightarrow> block list" where
  "unabsorbed [] = []"
| "unabsorbed ((r, rs, fr) # post) = (if fr then unabsorbed post else (r, rs, fr) # post)"

definition status_of :: "block list \<Rightarrow> size_t" where
  "status_of post = (if post = [] then NON_EXISTENT else if starts_free post then FREE else USED)"

text \<open>The heap is well formed around the USED block \<open>(cur, cs)\<close>, whose header word and
  payload are left unconstrained.\<close>

definition heap_at :: "heap \<Rightarrow> block list \<Rightarrow> addr \<Rightarrow> size_t \<Rightarrow> block list \<Rightarrow> bool" where
  "heap_at s pre cur cs post =
     (segment_start s \<noteq> NULL
      \<and> layout (segment_start s) (pre @ (cur, cs, False) # post) (segment_end s)
      \<and> hdrs (mem s) pre \<and> hdrs (mem s) post
      \<and> fl_inv s (frees pre @ frees post))"

text \<open>The blocks that \<open>myrealloc\<close> makes of the grown block \<open>(cur, cs)\<close> when it is large
  enough for the rounded size \<open>needed\<close>.\<close>

definition resized :: "addr \<Rightarrow> size_t \<Rightarrow> size_t \<Rightarrow> block list" where
  "resized cur cs needed =
     (if cs - needed < HEADER_LENGTH + MIN_BLOCK_SIZE then [(cur, cs, False)]
      else [(cur, needed, False),
            (cur + HEADER_LENGTH + needed, cs - needed - HEADER_LENGTH, True)])"

fun absorbed_part :: "block list \<Rightarrow> block list" where
  "absorbed_part [] = []"
| "absorbed_part ((r, rs, fr) # post) = (if fr then (r, rs, False) # absorbed_part post else [])"

fun merged :: "size_t \<Rightarrow> block list \<Rightarrow> size_t" where
  "merged cs [] = cs"
| "merged cs ((r, rs, fr) # ab) = merged (cs + (HEADER_LENGTH + rs)) ab"

text \<open>\<open>mymalloc\<close> on block lists: the first FREE block with payload at least \<open>need\<close>, and
  the list after it has been taken.\<close>

fun fit_in :: "size_t \<Rightarrow> block list \<Rightarrow> (addr \<times> size_t) option" where
  "fit_in need [] = None"
| "fit_in need ((b, z, fr) # bs) = (if fr \<and> need \<le> z then Some (b, z) else fit_in need bs)"

fun alloc_in :: "size_t \<Rightarrow> block list \<Rightarrow> block list" where
  "alloc_in need [] = []"
| "alloc_in need ((b, z, fr) # bs) =
     (if fr \<and> need \<le> z then taken b z need @ bs else (b, z, fr) # alloc_in need bs)"

text \<open>The byte at \<open>x\<close> lies in the payload of a USED block.\<close>

definition used_payload :: "block list \<Rightarrow> addr \<Rightarrow> bool" where
  "used_payload bs x =
     list_ex (\<lambda>(b, z, fr). \<not> fr \<and> unat b + 8 \<le> unat x \<and> unat x < unat b + 8 + unat z) bs"

text \<open>The heap after the fallback path of \<open>myrealloc\<close>: the block is merged with what it
  absorbed and freed, and the new block is taken before or after it.\<close>

definition moved :: "size_t \<Rightarrow> block list \<Rightarrow> addr \<Rightarrow> size_t \<Rightarrow> block list \<Rightarrow> block list" where
  "moved needed pre cur cs rest =
     (if fit_in needed pre = None then pre @ (cur, cs, True) # alloc_in needed rest
      else alloc_in needed pre @ (cur, cs, True) # rest)"

text \<open>A free-list node that the validator can read: a non-null address inside the heap
  whose header and link words lie in the segment and whose header says FREE.\<close>

definition fl_node :: "heap \<Rightarrow> addr \<Rightarrow> bool" where
  "fl_node s x =
     (x \<noteq> NULL \<and> within_heap_range s x \<and> in_segment s x 8
      \<and> in_segment s (get_curr_prev x) 8 \<and> in_segment s (get_curr_next x) 8
      \<and> rd64 (mem s) x AND FREE = FREE)"

text \<open>The pointers a client holds, with the sizes it asked for.\<close>

type_synonym live = "addr \<rightharpoonup> size_t"

text \<open>Every live pointer is the payload address of a USED block at least as large as the
  size asked for.\<close>

definition live_ok :: "block list \<Rightarrow> live \<Rightarrow> bool" where
  "live_ok bs L = (\<forall>p r. L p = Some r \<longrightarrow> (\<exists>z. (p - HEADER_LENGTH, z, False) \<in> set bs \<and> r \<le> z))"

text \<open>
  The states of the explicit allocator that a client reaches by valid calls, together with
  the pointers it holds: a successful \<open>myinit\<close> on a segment whose size is a multiple of 8
  and that does not wrap around the address space (from any earlier state, so re-init is
  included), followed by calls of \<open>mymalloc\<close>, \<open>myfree\<close> and \<open>myrealloc\<close> that return,
  with request sizes that \<open>roundup\<close> does not wrap, on pointers the client holds (or
  null), and by writes of the client into the bytes it asked for.
\<close>

inductive reach :: "heap \<Rightarrow> live \<Rightarrow> bool" where
  reach_init:
    "myinit s0 heap_start heap_size = ret (True, s) \<Longrightarrow> aligned8 heap_size \<Longrightarrow>
     unat heap_start + unat heap_size < 18446744073709551616 \<Longrightarrow> reach s Map.empty"
| reach_malloc:
    "reach s L \<Longrightarrow> unat r \<le> 18446744073709551608 \<Longrightarrow> mymalloc s r = ret (p, s') \<Longrightarrow>
     reach s' (L(p \<mapsto> r))"
| reach_free:
    "reach s L \<Longrightarrow> L p = Some r \<Longrightarrow> myfree s p = ret s' \<Longrightarrow> reach s' (L(p := None))"
| reach_free_null:
    "reach s L \<Longrightarrow> myfree s NULL = ret s' \<Longrightarrow> reach s' L"
| reach_realloc:
    "reach s L \<Longrightarrow> L p = Some r0 \<Longrightarrow> unat r \<le> 18446744073709551608 \<Longrightarrow>
     myrealloc s p r = ret (q, s') \<Longrightarrow> reach s' ((L(p := None))(q \<mapsto> r))"
| reach_realloc_null:
    "reach s L \<Longrightarrow> unat r \<le> 18446744073709551608 \<Longrightarrow>
     myrealloc s NULL r = ret (q, s') \<Longrightarrow> reach s' (L(q \<mapsto> r))"
| reach_write:
    "reach s L \<Longrightarrow> L p = Some r \<Longrightarrow> x - p < r \<Longrightarrow> reach (s\<lparr>mem := (mem s)(x := v)\<rparr>) L"

text \<open>The implicit allocator's heap: blocks tile the segment as for the explicit one, with
  payloads of at least 8 bytes and no free list.\<close>

fun ilayout :: "addr \<Rightarrow> block list \<Rightarrow> addr \<Rightarrow> bool" where
  "ilayout a [] e = (a = e)"
| "ilayout a ((b, sz, fr) # bs) e =
     (b = a \<and> aligned8 sz \<and> 8 \<le> unat sz \<and> unat a + 8 + unat sz \<le> unat e
      \<and> ilayout (a + 8 + sz) bs e)"

definition iheap_ok :: "segment \<Rightarrow> block list \<Rightarrow> bool" where
  "iheap_ok s bs = (ilayout (segment_start s) bs (segment_end s) \<and> hdrs (mem s) bs)"

text \<open>The heap of the implicit allocator after \<open>myinit(4096, 1024)\<close> and \<open>mymalloc(200)\<close>.\<close>

definition implicit_heap_200 :: segment where
  "implicit_heap_200 =
     \<lparr>mem = wr64 (wr64 (wr64 (\<lambda>_. 0) 4096 1023) 4096 200) 4304 815,
      segment_start = 4096, segment_end = 5120\<rparr>"

section \<open>Basic facts\<close>

subsection \<open>The result monad\<close>

lemma rbind_ret [simp]: "rbind (ret x) f = f x"
  by (simp add: rbind_def ret_def)

lemma rbind_raise [simp]: "rbind (raise e) f = raise e"
  by (simp add: rbind_def raise_def)

lemma rbind_cong_weak [cong]: "m = m' \<Longrightarrow> rbind m f = rbind m' f"
  by simp

lemma ret_eq [simp]:
  "(ret x = ret y) = (x = y)" "ret x \<noteq> raise e" "raise e \<noteq> ret x"
  "(raise e = raise e') = (e = e')"
  by (auto simp: ret_def raise_def)

lemmas const_defs =
  ALIGNMENT_def MIN_BLOCK_SIZE_def HEADER_LENGTH_def FREE_def USED_def NON_EXISTENT_def NULL_def

subsection \<open>64-bit arithmetic without wrap-around\<close>

lemma word_le_unat: "(a \<le> b) = (unat a \<le> unat b)" for a b :: "64 word"
  by (rule word_le_nat_alt)

lemma word_less_unat: "(a < b) = (unat a < unat b)" for a b :: "64 word"
  by (rule word_less_nat_alt)

lemma unat_lt64: "unat (a :: 64 word) < 18446744073709551616"
  using unsigned_less [of a, where 'a = nat] by simp

lemma unat_add64:
  fixes a b :: "64 word"
  shows "unat a + unat b < 18446744073709551616 \<Longrightarrow> unat (a + b) = unat a + unat b"
  using unat_add_lem [of a b] by simp

lemma unat_sub64:
  fixes a b :: "64 word"
  shows "unat b \<le> unat a \<Longrightarrow> unat (a - b) = unat a - unat b"
  by (simp add: unat_sub_if_size)

lemma unat_sub64_wrap:
  fixes a b :: "64 word"
  shows "unat a < unat b \<Longrightarrow> unat (a - b) = unat a + 18446744073709551616 - unat b"
  by (simp add: unat_sub_if_size word_size)

subsection \<open>Bytes and words in memory\<close>

lemma take_bit_step:
  "take_bit 8 (v :: 64 word) OR push_bit 8 (take_bit k (drop_bit 8 v)) = take_bit (8 + k) v"
  by (rule bit_word_eqI) (auto simp: bit_simps)

lemma ucast_byte: "ucast (ucast (v :: 64 word) :: byte) = take_bit 8 v"
  by (rule bit_word_eqI) (auto simp: bit_simps)

lemma le_word_word_bytes: "le_word (word_bytes n v) = take_bit (8 * n) v"
proof (induction n arbitrary: v)
  case 0
  show ?case by simp
next
  case (Suc n)
  show ?case
    by (simp add: Suc ucast_byte take_bit_step)
qed

lemma length_word_bytes [simp]: "length (word_bytes n v) = n"
  by (induction n arbitrary: v) auto

lemma wr64_at:
  "wr64 m a v a = word_bytes 8 v ! 0"
  "wr64 m a v (a + 1) = word_bytes 8 v ! 1"
  "wr64 m a v (a + 2) = word_bytes 8 v ! 2"
  "wr64 m a v (a + 3) = word_bytes 8 v ! 3"
  "wr64 m a v (a + 4) = word_bytes 8 v ! 4"
  "wr64 m a v (a + 5) = word_bytes 8 v ! 5"
  "wr64 m a v (a + 6) = word_bytes 8 v ! 6"
  "wr64 m a v (a + 7) = word_bytes 8 v ! 7"
  by (simp_all add: wr64_def)

lemma list8_nth:
  "length xs = 8 \<Longrightarrow> [xs ! 0, xs ! 1, xs ! 2, xs ! 3, xs ! 4, xs ! 5, xs ! 6, xs ! 7] = xs"
  by (simp add: list_eq_iff_nth_eq nth_Cons' less_Suc_eq numeral_eq_Suc)

lemma rd64_wr64_same: "rd64 (wr64 m a v) a = v"
  by (simp only: rd64_def wr64_at list8_nth length_word_bytes le_word_word_bytes)
     (simp add: take_bit_word_eq_self)

lemma wr64_outside:
  assumes "unat a + 8 \<le> 18446744073709551616" and "unat x < unat a \<or> unat a + 8 \<le> unat x"
  shows "wr64 m a v x = m x"
proof -
  have "8 \<le> unat (x - a)"
  proof (cases "unat x < unat a")
    case True
    then show ?thesis using assms(1) unat_lt64 [of x] by (simp add: unat_sub64_wrap)
  next
    case False
    then show ?thesis using assms(2) by (simp add: unat_sub64)
  qed
  then show ?thesis by (simp add: wr64_def word_less_nat_alt)
qed

lemma rd64_cong:
  assumes "unat b + 8 \<le> 18446744073709551616"
    and "\<And>x. unat b \<le> unat x \<Longrightarrow> unat x < unat b + 8 \<Longrightarrow> m' x = m x"
  shows "rd64 m' b = rd64 m b"
proof -
  have "m' (b + k) = m (b + k)" if "unat k < 8" for k
  proof -
    have "unat (b + k) = unat b + unat k"
      using that assms(1) by (simp add: unat_add64)
    then show ?thesis using that by (intro assms(2)) simp_all
  qed
  from this [of 0] this [of 1] this [of 2] this [of 3] this [of 4] this [of 5] this [of 6] this [of 7]
  show ?thesis by (simp add: rd64_def)
qed

lemma rd64_wr64_disj:
  assumes "unat a + 8 \<le> 18446744073709551616" "unat b + 8 \<le> 18446744073709551616"
    and "unat a + 8 \<le> unat b \<or> unat b + 8 \<le> unat a"
  shows "rd64 (wr64 m a v) b = rd64 m b"
  using assms by (intro rd64_cong wr64_outside) auto

subsection \<open>Header words\<close>

lemma FREE_mask: "FREE = mask 3"
  by (simp add: FREE_def mask_eq_exp_minus_1)

lemma bit_FREE: "bit FREE n = (n < 3)"
  by (auto simp: FREE_mask bit_simps)

lemma aligned8_iff_dvd: "aligned8 x = (8 dvd unat x)"
  using and_mask_dvd_nat [of 3 x] by (simp add: FREE_mask aligned8_def)

lemma aligned8_bit: "aligned8 x \<Longrightarrow> n < 3 \<Longrightarrow> \<not> bit x n"
  unfolding aligned8_def
  by (metis bit_FREE bit_and_iff bit_0_eq bot_apply bot_bool_def)

lemma hdr_size_free: "aligned8 x \<Longrightarrow> (x OR FREE) AND NOT FREE = x"
  by (rule bit_word_eqI) (auto simp: bit_simps bit_FREE dest: aligned8_bit)

lemma hdr_status_free: "(x OR FREE) AND FREE = FREE"
  by (rule bit_word_eqI) (auto simp: bit_simps bit_FREE)

lemma hdr_size_used: "aligned8 x \<Longrightarrow> x AND NOT FREE = x"
  by (rule bit_word_eqI) (auto simp: bit_simps bit_FREE dest: aligned8_bit)

lemma hdr_status_used: "aligned8 x \<Longrightarrow> x AND FREE = 0"
  by (simp add: aligned8_def)

lemma aligned8_and_not: "aligned8 (x AND NOT FREE)"
  unfolding aligned8_def
  by (rule bit_word_eqI) (auto simp: bit_simps bit_FREE)

lemma and_not_FREE_idem: "(x AND NOT FREE) AND NOT FREE = x AND NOT FREE"
  by (rule bit_word_eqI) (auto simp: bit_simps bit_FREE)

lemma lt8_and_not_FREE:
  fixes x :: "64 word"
  assumes "x < 8"
  shows "x AND NOT FREE = 0"
proof -
  from assms have "x < 2 ^ 3" by simp
  then have "x AND mask 3 = x" by (rule less_mask_eq)
  then have "x AND NOT FREE = (x AND FREE) AND NOT FREE" by (simp add: FREE_mask)
  also have "\<dots> = 0" by (rule bit_word_eqI) (auto simp: bit_simps bit_FREE)
  finally show ?thesis .
qed

lemma roundup_wrap:
  assumes "18446744073709551609 \<le> sz"
  shows "roundup sz ALIGNMENT = 0"
proof -
  have "unat sz \<ge> 18446744073709551609" using assms by (simp add: word_le_unat)
  then have "unat (sz + 7) < 8" using unat_lt64 [of sz]
    by (simp add: unat_plus_if')
  then have "sz + 7 < 8" by (simp add: word_less_unat)
  then have "(sz + 7) AND NOT FREE = 0" by (rule lt8_and_not_FREE)
  moreover have "\<not> sz \<le> MIN_BLOCK_SIZE"
    using assms by (simp add: word_le_unat MIN_BLOCK_SIZE_def)
  moreover have "(sz + ALIGNMENT - 1) AND NOT (ALIGNMENT - 1) = (sz + 7) AND NOT FREE"
    by (simp add: ALIGNMENT_def FREE_def add.commute)
  ultimately show ?thesis
    by (simp only: roundup_def if_False)
qed

subsection \<open>Running the code on concrete states\<close>

lemmas eval_simps =
  const_defs load64_def store64_def in_segment_def Let_def
  get_curr_prev_def get_curr_next_def get_prev_free_block_def get_next_free_block_def
  rd64_wr64_same rd64_wr64_disj right_status_of_def remove_block_from_freelist_def

lemma myinit_4096_1024:
  "myinit heap0 4096 1024 = ret (True,
     \<lparr>mem = wr64 (wr64 (wr64 (\<lambda>_. 0) 4096 1023) 4104 0) 4112 0,
      segment_start = 4096, segment_end = 5120,
      list_head = 4096, list_end = 4096, free_blocks_num = 1\<rparr>)"
  by (simp add: myinit_def heap0_def eval_simps)

lemma implicit_myinit_4096_1024:
  "implicit_myinit seg0 4096 1024 = ret (True,
     \<lparr>mem = wr64 (\<lambda>_. 0) 4096 1023, segment_start = 4096, segment_end = 5120\<rparr>)"
  by (simp add: implicit_myinit_def seg0_def eval_simps)

subsection \<open>Initialisation\<close>

lemma myinit_refused:
  "heap_start = NULL \<or> heap_size < HEADER_LENGTH + MIN_BLOCK_SIZE \<Longrightarrow>
   myinit s heap_start heap_size = ret (False, s)"
  by (simp add: myinit_def)

lemma myinit_accepted:
  assumes "unat heap_start + unat heap_size < 18446744073709551616"
    and "heap_start \<noteq> NULL" and "HEADER_LENGTH + MIN_BLOCK_SIZE \<le> heap_size"
  shows "myinit s heap_start heap_size = ret (True,
      s\<lparr>mem := wr64 (wr64 (wr64 (mem s) heap_start ((heap_size - HEADER_LENGTH) OR FREE))
                   (get_curr_prev heap_start) NULL) (get_curr_next heap_start) NULL,
        segment_start := heap_start, segment_end := heap_start + heap_size,
        list_head := heap_start, list_end := heap_start, free_blocks_num := 1\<rparr>)"
proof -
  have n: "24 \<le> unat heap_size"
    using assms(3) by (simp add: word_le_unat HEADER_LENGTH_def MIN_BLOCK_SIZE_def)
  show ?thesis
    using assms n
    by (simp add: myinit_def load64_def store64_def in_segment_def Let_def
        get_curr_prev_def get_curr_next_def HEADER_LENGTH_def MIN_BLOCK_SIZE_def
        word_le_unat unat_add64 not_less)
qed

lemma implicit_myinit_refused:
  "heap_start = NULL \<or> heap_size \<le> HEADER_LENGTH \<Longrightarrow>
   implicit_myinit t heap_start heap_size = ret (False, t)"
  by (simp add: implicit_myinit_def)

lemma implicit_myinit_accepted:
  assumes "unat heap_start + unat heap_size < 18446744073709551616"
    and "heap_start \<noteq> NULL" and "HEADER_LENGTH < heap_size"
  shows "implicit_myinit t heap_start heap_size = ret (True,
      t\<lparr>mem := wr64 (mem t) heap_start ((heap_size - HEADER_LENGTH) OR FREE),
        segment_start := heap_start, segment_end := heap_start + heap_size\<rparr>)"
proof -
  have n: "8 < unat heap_size"
    using assms(3) by (simp add: word_less_unat HEADER_LENGTH_def)
  show ?thesis
    using assms n
    by (simp add: implicit_myinit_def load64_def store64_def in_segment_def Let_def
        HEADER_LENGTH_def word_le_unat unat_add64 not_less)
qed

lemma fresh_links:
  assumes "unat a + 24 \<le> 18446744073709551616"
  shows "rd64 (wr64 (wr64 (wr64 m a h) (get_curr_prev a) p) (get_curr_next a) n) a = h"
    and "rd64 (wr64 (wr64 (wr64 m a h) (get_curr_prev a) p) (get_curr_next a) n) (get_curr_prev a) = p"
    and "rd64 (wr64 (wr64 (wr64 m a h) (get_curr_prev a) p) (get_curr_next a) n) (get_curr_next a) = n"
  using assms
  by (simp_all add: rd64_wr64_same rd64_wr64_disj get_curr_prev_def get_curr_next_def
      HEADER_LENGTH_def unat_add64)

section \<open>Layouts, headers and the free list\<close>

lemma layout_le: "layout a bs e \<Longrightarrow> unat a \<le> unat e"
proof (induction bs arbitrary: a)
  case Nil
  then show ?case by simp
next
  case (Cons x bs)
  obtain b sz fr where x: "x = (b, sz, fr)" by (cases x)
  from Cons.prems have "unat a + 8 + unat sz \<le> unat e" by (simp add: x)
  then show ?case by simp
qed

lemma unat_blk_end:
  fixes a sz e :: "64 word"
  shows "unat a + 8 + unat sz \<le> unat e \<Longrightarrow> unat (a + 8 + sz) = unat a + 8 + unat sz"
  using unat_lt64 [of e] by (simp add: unat_add64)

lemma layout_within: "layout a bs e \<Longrightarrow> within (unat a) (unat e) bs"
proof (induction bs arbitrary: a)
  case Nil
  then show ?case by (simp add: within_def)
next
  case (Cons x bs)
  obtain b sz fr where x: "x = (b, sz, fr)" by (cases x)
  from Cons.prems have p: "b = a" "aligned8 sz" "16 \<le> unat sz" "unat a + 8 + unat sz \<le> unat e"
    "layout (a + 8 + sz) bs e" by (simp_all add: x)
  from Cons.IH [OF p(5)] have "within (unat a + 8 + unat sz) (unat e) bs"
    by (simp add: unat_blk_end [OF p(4)])
  then have "within (unat a) (unat e) bs"
    by (auto simp: within_def list_all_iff)
  with p show ?case by (simp add: within_def x)
qed

lemma layout_append:
  "layout a (xs @ ys) e = (layout a xs (blocks_end a xs) \<and> layout (blocks_end a xs) ys e)"
proof (induction xs arbitrary: a)
  case Nil
  show ?case by simp
next
  case (Cons x xs)
  obtain b sz fr where x: "x = (b, sz, fr)" by (cases x)
  show ?case
  proof (cases "b = a \<and> unat a + 8 + unat sz \<le> unat e \<and> layout (a + 8 + sz) (xs @ ys) e")
    case True
    then have l: "layout (a + 8 + sz) xs (blocks_end (a + 8 + sz) xs)"
        "layout (blocks_end (a + 8 + sz) xs) ys e"
      by (simp_all add: Cons.IH)
    have "unat (a + 8 + sz) \<le> unat (blocks_end (a + 8 + sz) xs)"
      using l(1) by (rule layout_le)
    moreover have "unat (a + 8 + sz) = unat a + 8 + unat sz"
      using True by (intro unat_blk_end [where e = e]) simp
    ultimately show ?thesis
      using True l by (simp add: x Cons.IH)
  next
    case False
    have "unat a + 8 + unat sz \<le> unat e" 
      if "unat a + 8 + unat sz \<le> unat (blocks_end (a + 8 + sz) xs)" "layout (blocks_end (a + 8 + sz) xs) ys e"
      using that layout_le [OF that(2)] by simp
    with False show ?thesis
      by (auto simp add: x Cons.IH)
  qed
qed

lemma within_mono: "within lo hi bs \<Longrightarrow> lo' \<le> lo \<Longrightarrow> hi \<le> hi' \<Longrightarrow> within lo' hi' bs"
  by (auto simp: within_def list_all_iff)

lemma within_append [simp]: "within lo hi (xs @ ys) = (within lo hi xs \<and> within lo hi ys)"
  by (simp add: within_def)

lemma within_Cons [simp]:
  "within lo hi ((b, sz, fr) # bs) =
    (lo \<le> unat b \<and> unat b + 8 + unat sz \<le> hi \<and> 16 \<le> unat sz \<and> aligned8 sz \<and> within lo hi bs)"
  by (simp add: within_def)

lemma within_Nil [simp]: "within lo hi []"
  by (simp add: within_def)

lemma withinD:
  "within lo hi bs \<Longrightarrow> (b, sz, fr) \<in> set bs \<Longrightarrow>
   lo \<le> unat b \<and> unat b + 8 + unat sz \<le> hi \<and> 16 \<le> unat sz \<and> aligned8 sz"
  by (auto simp: within_def list_all_iff)

lemma layout_Cons_within:
  assumes "layout a ((b, sz, fr) # bs) e"
  shows "within (unat b + 8 + unat sz) (unat e) bs"
proof -
  from assms have p: "b = a" "unat a + 8 + unat sz \<le> unat e" "layout (a + 8 + sz) bs e"
    by simp_all
  from layout_within [OF p(3)] show ?thesis
    by (simp add: unat_blk_end [OF p(2)] p(1))
qed

lemma layout_sorted: "layout a bs e \<Longrightarrow> sorted_wrt before bs"
proof (induction bs arbitrary: a)
  case Nil
  show ?case by simp
next
  case (Cons x bs)
  obtain b sz fr where x: "x = (b, sz, fr)" by (cases x)
  from Cons.prems have l: "layout (a + 8 + sz) bs e" by (simp add: x)
  from Cons.prems have w: "within (unat b + 8 + unat sz) (unat e) bs"
    unfolding x by (rule layout_Cons_within)
  have "before x y" if "y \<in> set bs" for y
  proof -
    obtain b' sz' fr' where y: "y = (b', sz', fr')" by (cases y)
    from withinD [OF w that [unfolded y]] show ?thesis by (simp add: before_def x y)
  qed
  with Cons.IH [OF l] show ?case by simp
qed

lemma frees_append [simp]: "frees (xs @ ys) = frees xs @ frees ys"
  by (simp add: frees_def)

lemma frees_Cons [simp]: "frees ((b, sz, fr) # bs) = (if fr then b # frees bs else frees bs)"
  by (simp add: frees_def)

lemma frees_Nil [simp]: "frees [] = []"
  by (simp add: frees_def)

lemma frees_subset: "x \<in> set (frees bs) \<Longrightarrow> \<exists>sz. (x, sz, True) \<in> set bs"
  by (auto simp: frees_def)

lemma within_fl_pos:
  assumes "within lo hi bs" and "sorted_wrt before bs"
  shows "fl_pos lo hi (frees bs)"
  using assms
proof (induction bs)
  case Nil
  show ?case by (simp add: fl_pos_def)
next
  case (Cons x bs)
  obtain b sz fr where x: "x = (b, sz, fr)" by (cases x)
  from Cons.prems have w: "within lo hi bs" and s: "sorted_wrt before bs"
    and bf: "\<forall>y\<in>set bs. before x y"
    and r: "lo \<le> unat b" "unat b + 8 + unat sz \<le> hi" "16 \<le> unat sz"
    by (simp_all add: x)
  have ih: "fl_pos lo hi (frees bs)" using Cons.IH [OF w s] .
  have "gap b y" if "y \<in> set (frees bs)" for y
  proof -
    from frees_subset [OF that] obtain sz' where "(y, sz', True) \<in> set bs" ..
    with bf have "before x (y, sz', True)" by blast
    then show ?thesis using r by (simp add: before_def gap_def x)
  qed
  with ih r show ?case
    by (auto simp: fl_pos_def x)
qed

lemma layout_fl_pos: "layout a bs e \<Longrightarrow> fl_pos (unat a) (unat e) (frees bs)"
  by (intro within_fl_pos layout_within layout_sorted)

lemma hdrs_append [simp]: "hdrs m (xs @ ys) = (hdrs m xs \<and> hdrs m ys)"
  by (simp add: hdrs_def)

lemma hdrs_Cons [simp]: "hdrs m ((b, sz, fr) # bs) = (rd64 m b = hdr sz fr \<and> hdrs m bs)"
  by (simp add: hdrs_def)

lemma hdrs_Nil [simp]: "hdrs m []"
  by (simp add: hdrs_def)

text \<open>Memory changes away from the headers of a region keep its headers.\<close>

lemma hdrs_frame:
  assumes "hdrs m bs" and "within lo hi bs" and "hi \<le> 18446744073709551616"
    and "\<And>b sz fr x. (b, sz, fr) \<in> set bs \<Longrightarrow> unat b \<le> unat x \<Longrightarrow> unat x < unat b + 8 \<Longrightarrow> m' x = m x"
  shows "hdrs m' bs"
  unfolding hdrs_def list_all_iff
proof (intro ballI)
  fix x assume x: "x \<in> set bs"
  obtain b sz fr where xe: "x = (b, sz, fr)" by (cases x)
  from withinD [OF assms(2) x [unfolded xe]] assms(3)
  have "unat b + 8 \<le> 18446744073709551616" by simp
  then have "rd64 m' b = rd64 m b"
    by (rule rd64_cong) (use assms(4) x xe in blast)
  moreover have "rd64 m b = hdr sz fr"
    using assms(1) x xe by (auto simp: hdrs_def list_all_iff)
  ultimately show "case x of (b, sz, fr) \<Rightarrow> rd64 m' b = hdr sz fr"
    by (simp add: xe)
qed

lemma dlseg_append:
  "dlseg m p (xs @ ys) n = (dlseg m p xs (hdd ys n) \<and> dlseg m (lastd xs p) ys n)"
proof (induction xs arbitrary: p)
  case Nil
  show ?case by simp
next
  case (Cons x xs)
  have "hdd (xs @ ys) n = hdd xs (hdd ys n)" by (cases xs) simp_all
  then show ?case by (auto simp: Cons.IH)
qed

lemma dlseg_frame:
  assumes "dlseg m p fl n" 
    and "list_all (\<lambda>f. unat f + 24 \<le> 18446744073709551616) fl"
    and "\<And>f x. f \<in> set fl \<Longrightarrow> unat f + 8 \<le> unat x \<Longrightarrow> unat x < unat f + 24 \<Longrightarrow> m' x = m x"
  shows "dlseg m' p fl n"
  using assms
proof (induction fl arbitrary: p)
  case Nil
  show ?case by simp
next
  case (Cons f fl)
  from Cons.prems(2) have b: "unat f + 24 \<le> 18446744073709551616" by simp
  have u: "unat (get_curr_prev f) = unat f + 8" "unat (get_curr_next f) = unat f + 16"
    using b by (simp_all add: get_curr_prev_def get_curr_next_def HEADER_LENGTH_def unat_add64)
  have "rd64 m' (get_curr_prev f) = rd64 m (get_curr_prev f)"
    by (rule rd64_cong) (use u b in \<open>auto intro!: Cons.prems(3)\<close>)
  moreover have "rd64 m' (get_curr_next f) = rd64 m (get_curr_next f)"
    by (rule rd64_cong) (use u b in \<open>auto intro!: Cons.prems(3)\<close>)
  moreover have "dlseg m' f fl n"
    using Cons.prems by (intro Cons.IH) auto
  ultimately show ?case using Cons.prems(1) by simp
qed

lemma fl_pos_append:
  "fl_pos lo hi (xs @ ys) =
     (fl_pos lo hi xs \<and> fl_pos lo hi ys \<and> (\<forall>x\<in>set xs. \<forall>y\<in>set ys. gap x y))"
  by (auto simp: fl_pos_def sorted_wrt_append)

lemma fl_pos_Cons:
  "fl_pos lo hi (x # xs) =
     (lo \<le> unat x \<and> unat x + 24 \<le> hi \<and> fl_pos lo hi xs \<and> (\<forall>y\<in>set xs. gap x y))"
  by (auto simp: fl_pos_def)

lemma fl_posD: "fl_pos lo hi fl \<Longrightarrow> x \<in> set fl \<Longrightarrow> lo \<le> unat x \<and> unat x + 24 \<le> hi"
  by (auto simp: fl_pos_def list_all_iff)

lemma fl_pos_remove: "fl_pos lo hi (xs @ f # ys) \<Longrightarrow> fl_pos lo hi (xs @ ys)"
  by (auto simp: fl_pos_append fl_pos_Cons)

lemma unat_links:
  assumes "unat f + 24 \<le> 18446744073709551616"
  shows "unat (get_curr_prev f) = unat f + 8" "unat (get_curr_next f) = unat f + 16"
  using assms
  by (simp_all add: get_curr_prev_def get_curr_next_def HEADER_LENGTH_def unat_add64)

lemma dlseg_wr64_frame:
  assumes "dlseg m p fl n" and "fl_pos lo hi fl" and "hi \<le> 18446744073709551616"
    and "unat a + 8 \<le> 18446744073709551616"
    and "\<And>f. f \<in> set fl \<Longrightarrow> unat a \<le> unat f \<or> unat f + 24 \<le> unat a"
  shows "dlseg (wr64 m a v) p fl n"
proof (rule dlseg_frame [OF assms(1)])
  show "list_all (\<lambda>f. unat f + 24 \<le> 18446744073709551616) fl"
    using assms(2,3) by (auto simp: fl_pos_def list_all_iff)
next
  fix f x :: addr
  assume "f \<in> set fl" "unat f + 8 \<le> unat x" "unat x < unat f + 24"
  with assms(5) [of f] show "wr64 m a v x = m x"
    by (intro wr64_outside assms(4)) auto
qed

lemma lastd_snoc [simp]: "lastd (xs @ [l]) p = l"
  by (induction xs arbitrary: p) simp_all

lemma hdd_append: "hdd (xs @ ys) n = hdd xs (hdd ys n)"
  by (cases xs) simp_all

lemma lastd_append: "lastd (xs @ ys) p = lastd ys (lastd xs p)"
  by (induction xs arbitrary: p) simp_all

lemma dlseg_set_next:
  assumes "dlseg m p (xs @ [l]) n" and "fl_pos lo hi (xs @ [l])" and "hi \<le> 18446744073709551616"
  shows "dlseg (wr64 m (get_curr_next l) n') p (xs @ [l]) n'"
proof -
  from assms(2) have pl: "unat l + 24 \<le> hi" and px: "fl_pos lo hi xs"
    and g: "\<forall>x\<in>set xs. unat x + 24 \<le> unat l"
    by (auto simp: fl_pos_append fl_pos_Cons gap_def)
  have b: "unat l + 24 \<le> 18446744073709551616" using pl assms(3) by simp
  note u = unat_links [OF b]
  from assms(1) have d: "dlseg m p xs l" and r: "rd64 m (get_curr_prev l) = lastd xs p"
    by (simp_all add: dlseg_append)
  have "dlseg (wr64 m (get_curr_next l) n') p xs l"
    using d px assms(3)
    by (rule dlseg_wr64_frame) (use u b g in force)+
  moreover have "rd64 (wr64 m (get_curr_next l) n') (get_curr_prev l) = rd64 m (get_curr_prev l)"
    by (rule rd64_wr64_disj) (use u b in auto)
  ultimately show ?thesis
    using r by (simp add: dlseg_append rd64_wr64_same)
qed

lemma dlseg_set_prev:
  assumes "dlseg m p (h # ys) n" and "fl_pos lo hi (h # ys)" and "hi \<le> 18446744073709551616"
  shows "dlseg (wr64 m (get_curr_prev h) p') p' (h # ys) n"
proof -
  from assms(2) have ph: "unat h + 24 \<le> hi" and py: "fl_pos lo hi ys"
    and g: "\<forall>y\<in>set ys. unat h + 24 \<le> unat y"
    by (auto simp: fl_pos_Cons gap_def)
  have b: "unat h + 24 \<le> 18446744073709551616" using ph assms(3) by simp
  note u = unat_links [OF b]
  from assms(1) have d: "dlseg m h ys n" and r: "rd64 m (get_curr_next h) = hdd ys n"
    by simp_all
  have "dlseg (wr64 m (get_curr_prev h) p') h ys n"
    using d py assms(3)
    by (rule dlseg_wr64_frame) (use u b g in force)+
  moreover have "rd64 (wr64 m (get_curr_prev h) p') (get_curr_next h) = rd64 m (get_curr_next h)"
    by (rule rd64_wr64_disj) (use u b in auto)
  ultimately show ?thesis
    using r by (simp add: rd64_wr64_same)
qed

lemma in_segment_upd [simp]:
  "in_segment (s\<lparr>mem := m\<rparr>) a n = in_segment s a n"
  "in_segment (h\<lparr>list_head := x\<rparr>) a n = in_segment h a n"
  "in_segment (h\<lparr>list_end := x\<rparr>) a n = in_segment h a n"
  "in_segment (h\<lparr>free_blocks_num := k\<rparr>) a n = in_segment h a n"
  by (simp_all add: in_segment_def)

lemma load64_ok: "in_segment s a 8 \<Longrightarrow> load64 s a = ret (rd64 (mem s) a)"
  by (simp add: load64_def)

lemma store64_ok: "in_segment s a 8 \<Longrightarrow> store64 s a v = ret (s\<lparr>mem := wr64 (mem s) a v\<rparr>)"
  by (simp add: store64_def)

lemma hdd_in: "xs \<noteq> [] \<Longrightarrow> hdd xs n \<in> set xs"
  by (cases xs) simp_all

lemma lastd_in: "xs \<noteq> [] \<Longrightarrow> lastd xs p \<in> set xs"
proof (induction xs arbitrary: p)
  case Nil
  then show ?case by simp
next
  case (Cons a xs)
  then show ?case by (cases "xs = []") auto
qed

lemma hdd_ne: "xs \<noteq> [] \<Longrightarrow> hdd xs n = hdd xs n'"
  by (cases xs) simp_all

lemma lastd_ne: "xs \<noteq> [] \<Longrightarrow> lastd xs p = lastd xs p'"
  by (cases xs) simp_all

lemma hdd_append_if: "hdd (xs @ ys) n = (if xs = [] then hdd ys n else hdd xs n)"
  by (cases xs) simp_all

lemma lastd_append_if: "lastd (xs @ ys) p = (if ys = [] then lastd xs p else lastd ys p)"
  by (cases ys) (simp_all add: lastd_append)

lemma links_in_segment:
  assumes "lo \<le> unat f" "unat f + 24 \<le> hi"
    and "unat (segment_start s) \<le> lo" "hi \<le> unat (segment_end s)"
  shows "in_segment s f 8" "in_segment s (get_curr_prev f) 8" "in_segment s (get_curr_next f) 8"
proof -
  have b: "unat f + 24 \<le> 18446744073709551616"
    using assms unat_lt64 [of "segment_end s"] by simp
  show "in_segment s f 8" "in_segment s (get_curr_prev f) 8" "in_segment s (get_curr_next f) 8"
    using assms by (simp_all add: in_segment_def word_le_unat unat_links [OF b])
qed

lemma remove_block_ok:
  assumes inv: "fl_inv s (xs @ f # ys)" and pos: "fl_pos lo hi (xs @ f # ys)"
    and seg: "0 < lo" "unat (segment_start s) \<le> lo" "hi \<le> unat (segment_end s)"
  shows "\<exists>s'. remove_block_from_freelist s f = ret s' \<and> fl_inv s' (xs @ ys)
          \<and> segment_start s' = segment_start s \<and> segment_end s' = segment_end s
          \<and> (\<forall>x. (\<forall>y\<in>set (xs @ ys). unat x < unat y + 8 \<or> unat y + 24 \<le> unat x)
                 \<longrightarrow> mem s' x = mem s x)"
proof -
  have hi: "hi \<le> 18446744073709551616"
    using seg(3) unat_lt64 [of "segment_end s"] by simp
  have posx: "fl_pos lo hi xs" and posy: "fl_pos lo hi ys"
    and gx: "\<forall>x\<in>set xs. unat x + 24 \<le> unat f" and gy: "\<forall>y\<in>set ys. unat f + 24 \<le> unat y"
    and gxy: "\<forall>x\<in>set xs. \<forall>y\<in>set ys. unat x + 24 \<le> unat y"
    and pf: "lo \<le> unat f" "unat f + 24 \<le> hi"
    using pos by (auto simp: fl_pos_append fl_pos_Cons gap_def)
  have mem_seg: "in_segment s y 8 \<and> in_segment s (get_curr_prev y) 8 \<and> in_segment s (get_curr_next y) 8
      \<and> y \<noteq> NULL \<and> unat y + 24 \<le> 18446744073709551616"
    if "y \<in> set (xs @ f # ys)" for y
  proof -
    from fl_posD [OF pos that] have "lo \<le> unat y" "unat y + 24 \<le> hi" by simp_all
    with links_in_segment [OF this seg(2,3)] seg(1) hi show ?thesis
      by (auto simp: NULL_def)
  qed
  from inv have d: "dlseg (mem s) NULL xs f" "dlseg (mem s) f ys NULL"
    and rp: "rd64 (mem s) (get_curr_prev f) = lastd xs NULL"
    and rn: "rd64 (mem s) (get_curr_next f) = hdd ys NULL"
    and hd: "list_head s = (if xs = [] then f else hdd xs NULL)"
    and tl: "list_end s = (if ys = [] then f else lastd ys NULL)"
    and cnt: "free_blocks_num s = of_nat (length xs + length ys) + 1"
    using lastd_ne [of ys f NULL]
    by (auto simp: fl_inv_def dlseg_append hdd_append_if lastd_append_if)
  have hdf: "f \<noteq> hdd xs NULL" if "xs \<noteq> []"
    using hdd_in [OF that, of NULL] gx by auto
  have tlf: "f \<noteq> lastd ys NULL" if "ys \<noteq> []"
    using lastd_in [OF that, of NULL] gy by auto
  have pn: "(lastd xs NULL \<noteq> NULL) = (xs \<noteq> [])"
    using lastd_in [of xs NULL] mem_seg by (cases "xs = []") auto
  have nn: "(hdd ys NULL \<noteq> NULL) = (ys \<noteq> [])"
    using hdd_in [of ys NULL] mem_seg by (cases "ys = []") auto
  define m1 where "m1 = (if xs = [] then mem s else wr64 (mem s) (get_curr_next (lastd xs NULL)) (hdd ys NULL))"
  define m2 where "m2 = (if ys = [] then m1 else wr64 m1 (get_curr_prev (hdd ys NULL)) (lastd xs NULL))"
  have sp: "in_segment s (get_curr_next (lastd xs NULL)) 8" if "xs \<noteq> []"
    using lastd_in [OF that, of NULL] mem_seg by auto
  have sn: "in_segment s (get_curr_prev (hdd ys NULL)) 8" if "ys \<noteq> []"
    using hdd_in [OF that, of NULL] mem_seg by auto
  have run: "\<exists>s'. remove_block_from_freelist s f = ret s' \<and> mem s' = m2
      \<and> list_head s' = hdd (xs @ ys) NULL \<and> list_end s' = lastd (xs @ ys) NULL
      \<and> free_blocks_num s' = free_blocks_num s - 1
      \<and> segment_start s' = segment_start s \<and> segment_end s' = segment_end s"
    using mem_seg [of f] sp sn hdf tlf
    by (cases "xs = []"; cases "ys = []")
       (simp_all add: remove_block_from_freelist_def Let_def get_prev_free_block_def
        get_next_free_block_def load64_ok rp rn pn nn store64_ok hd tl m1_def m2_def
        hdd_append_if lastd_append_if)
  have d1: "dlseg m1 NULL xs (hdd ys NULL)"
  proof (cases xs rule: rev_cases)
    case Nil
    then show ?thesis by simp
  next
    case (snoc xs' l)
    from d(1) posx have "dlseg (wr64 (mem s) (get_curr_next l) (hdd ys NULL)) NULL (xs' @ [l]) (hdd ys NULL)"
      unfolding snoc by (rule dlseg_set_next) (rule hi)
    then show ?thesis by (simp add: m1_def snoc)
  qed
  have d1y: "dlseg m1 f ys NULL"
  proof (cases "xs = []")
    case True
    with d(2) show ?thesis by (simp add: m1_def)
  next
    case False
    have l: "lastd xs NULL \<in> set xs" using False by (rule lastd_in)
    then have b: "unat (lastd xs NULL) + 24 \<le> 18446744073709551616"
      using mem_seg by simp
    from l gxy have g: "\<forall>y\<in>set ys. unat (lastd xs NULL) + 24 \<le> unat y" by blast
    have "dlseg (wr64 (mem s) (get_curr_next (lastd xs NULL)) (hdd ys NULL)) f ys NULL"
      using d(2) posy hi
      by (rule dlseg_wr64_frame) (use b g in \<open>force simp: unat_links [OF b]\<close>)+
    with False show ?thesis by (simp add: m1_def)
  qed
  have d2: "dlseg m2 (lastd xs NULL) ys NULL"
  proof (cases ys)
    case Nil
    then show ?thesis by simp
  next
    case (Cons h ys')
    from d1y posy have "dlseg (wr64 m1 (get_curr_prev h) (lastd xs NULL)) (lastd xs NULL) (h # ys') NULL"
      unfolding Cons by (rule dlseg_set_prev) (rule hi)
    then show ?thesis by (simp add: m2_def Cons)
  qed
  have d2x: "dlseg m2 NULL xs (hdd ys NULL)"
  proof (cases "ys = []")
    case True
    with d1 show ?thesis by (simp add: m2_def)
  next
    case False
    have l: "hdd ys NULL \<in> set ys" using False by (rule hdd_in)
    then have b: "unat (hdd ys NULL) + 24 \<le> 18446744073709551616"
      using mem_seg by simp
    from l gxy have g: "\<forall>x\<in>set xs. unat x + 24 \<le> unat (hdd ys NULL)" by blast
    have "dlseg (wr64 m1 (get_curr_prev (hdd ys NULL)) (lastd xs NULL)) NULL xs (hdd ys NULL)"
      using d1 posx hi
      by (rule dlseg_wr64_frame) (use b g in \<open>force simp: unat_links [OF b]\<close>)+
    with False show ?thesis by (simp add: m2_def)
  qed
  have fr: "m2 x = mem s x"
    if "\<forall>y\<in>set (xs @ ys). unat x < unat y + 8 \<or> unat y + 24 \<le> unat x" for x
  proof -
    have 1: "m1 x = mem s x"
    proof (cases "xs = []")
      case True
      then show ?thesis by (simp add: m1_def)
    next
      case False
      have l: "lastd xs NULL \<in> set xs" using False by (rule lastd_in)
      then have b: "unat (lastd xs NULL) + 24 \<le> 18446744073709551616"
        using mem_seg by simp
      from that l have "unat x < unat (lastd xs NULL) + 8 \<or> unat (lastd xs NULL) + 24 \<le> unat x"
        by simp
      then show ?thesis using False b
        by (auto simp: m1_def unat_links [OF b] intro!: wr64_outside)
    qed
    have 2: "m2 x = m1 x"
    proof (cases "ys = []")
      case True
      then show ?thesis by (simp add: m2_def)
    next
      case False
      have l: "hdd ys NULL \<in> set ys" using False by (rule hdd_in)
      then have b: "unat (hdd ys NULL) + 24 \<le> 18446744073709551616"
        using mem_seg by simp
      from that l have "unat x < unat (hdd ys NULL) + 8 \<or> unat (hdd ys NULL) + 24 \<le> unat x"
        by simp
      then show ?thesis using False b
        by (auto simp: m2_def unat_links [OF b] intro!: wr64_outside)
    qed
    from 1 2 show ?thesis by simp
  qed
  from run obtain s' where s': "remove_block_from_freelist s f = ret s'" "mem s' = m2"
      "list_head s' = hdd (xs @ ys) NULL" "list_end s' = lastd (xs @ ys) NULL"
      "free_blocks_num s' = free_blocks_num s - 1"
      "segment_start s' = segment_start s" "segment_end s' = segment_end s"
    by blast
  have "fl_inv s' (xs @ ys)"
    using d2 d2x s' cnt by (simp add: fl_inv_def dlseg_append)
  with s' fr show ?thesis by auto
qed

lemma dlseg_splice:
  assumes dx: "dlseg m NULL xs n0" and dy: "dlseg m p0 ys NULL"
    and px: "fl_pos lo1 hi1 xs" and py: "fl_pos lo2 hi2 ys"
    and b: "hi1 \<le> unat f'" "unat f' + 24 \<le> lo2" "hi2 \<le> 18446744073709551616"
    and bf: "unat f' + 24 \<le> 18446744073709551616"
    and m1: "m1 = (if xs = [] then m else wr64 m (get_curr_next (lastd xs NULL)) f')"
    and m2: "m2 = (if ys = [] then m1 else wr64 m1 (get_curr_prev (hdd ys NULL)) f')"
    and m3: "m3 = wr64 (wr64 m2 (get_curr_prev f') (lastd xs NULL)) (get_curr_next f') (hdd ys NULL)"
  shows "dlseg m3 NULL (xs @ f' # ys) NULL"
proof -
  have hi1: "hi1 \<le> 18446744073709551616"
    using b unat_lt64 [of f'] by simp
  note uf = unat_links [OF bf]
  have by': "unat y + 24 \<le> 18446744073709551616 \<and> unat f' + 24 \<le> unat y" if "y \<in> set ys" for y
    using fl_posD [OF py that] b by simp
  have bx: "unat x + 24 \<le> 18446744073709551616 \<and> unat x + 24 \<le> unat f'" if "x \<in> set xs" for x
    using fl_posD [OF px that] b hi1 by simp
  text \<open>the part before\<close>
  have x1: "dlseg m1 NULL xs f'"
  proof (cases xs rule: rev_cases)
    case Nil
    then show ?thesis by simp
  next
    case (snoc xs' l)
    from dx px have "dlseg (wr64 m (get_curr_next l) f') NULL (xs' @ [l]) f'"
      unfolding snoc by (rule dlseg_set_next) (rule hi1)
    then show ?thesis by (simp add: m1 snoc)
  qed
  have x2: "dlseg m2 NULL xs f'"
  proof (cases "ys = []")
    case True
    with x1 show ?thesis by (simp add: m2)
  next
    case False
    then have h: "hdd ys NULL \<in> set ys" by (rule hdd_in)
    have g: "\<forall>x\<in>set xs. unat x + 24 \<le> unat (hdd ys NULL)"
      using bx by' [OF h] by force
    have "dlseg (wr64 m1 (get_curr_prev (hdd ys NULL)) f') NULL xs f'"
      using x1 px hi1
      by (rule dlseg_wr64_frame) (use by' [OF h] g in \<open>force simp: unat_links\<close>)+
    with False show ?thesis by (simp add: m2)
  qed
  have x3: "dlseg m3 NULL xs f'"
    unfolding m3
    by (intro dlseg_wr64_frame [OF _ px hi1] x2) (use bx bf in \<open>force simp: uf\<close>)+
  text \<open>the part after\<close>
  have y1: "dlseg m1 p0 ys NULL"
  proof (cases "xs = []")
    case True
    with dy show ?thesis by (simp add: m1)
  next
    case False
    then have l: "lastd xs NULL \<in> set xs" by (rule lastd_in)
    have g: "\<forall>y\<in>set ys. unat (lastd xs NULL) + 24 \<le> unat y"
      using by' bx [OF l] by force
    have "dlseg (wr64 m (get_curr_next (lastd xs NULL)) f') p0 ys NULL"
      using dy py b(3)
      by (rule dlseg_wr64_frame) (use bx [OF l] g in \<open>force simp: unat_links\<close>)+
    with False show ?thesis by (simp add: m1)
  qed
  have y2: "dlseg m2 f' ys NULL"
  proof (cases ys)
    case Nil
    then show ?thesis by simp
  next
    case (Cons h ys')
    from y1 py have "dlseg (wr64 m1 (get_curr_prev h) f') f' (h # ys') NULL"
      unfolding Cons by (rule dlseg_set_prev) (rule b(3))
    then show ?thesis by (simp add: m2 Cons)
  qed
  have y3: "dlseg m3 f' ys NULL"
    unfolding m3
    by (intro dlseg_wr64_frame [OF _ py b(3)] y2) (use by' bf in \<open>force simp: uf\<close>)+
  text \<open>the new node\<close>
  have "rd64 m3 (get_curr_prev f') = lastd xs NULL"
    unfolding m3 using bf by (simp add: rd64_wr64_disj rd64_wr64_same uf)
  moreover have "rd64 m3 (get_curr_next f') = hdd ys NULL"
    unfolding m3 by (simp add: rd64_wr64_same)
  ultimately show ?thesis
    using x3 y3 by (simp add: dlseg_append)
qed

lemma dlseg_replace:
  assumes d: "dlseg m NULL (xs @ f # ys) NULL"
    and px: "fl_pos lo1 hi1 xs" and py: "fl_pos lo2 hi2 ys"
    and b: "hi1 \<le> unat f'" "unat f' + 24 \<le> lo2" "hi2 \<le> 18446744073709551616"
    and bf: "unat f' + 24 \<le> 18446744073709551616"
    and m1: "m1 = (if xs = [] then m else wr64 m (get_curr_next (lastd xs NULL)) f')"
    and m2: "m2 = (if ys = [] then m1 else wr64 m1 (get_curr_prev (hdd ys NULL)) f')"
    and m3: "m3 = wr64 (wr64 m2 (get_curr_prev f') (lastd xs NULL)) (get_curr_next f') (hdd ys NULL)"
  shows "dlseg m3 NULL (xs @ f' # ys) NULL"
proof -
  from d have dx: "dlseg m NULL xs f" and dy: "dlseg m f ys NULL"
    by (simp_all add: dlseg_append)
  from dx dy px py b bf m1 m2 m3 show ?thesis by (rule dlseg_splice)
qed

lemma sorted_wrt_total:
  "sorted_wrt P xs \<Longrightarrow> x \<in> set xs \<Longrightarrow> y \<in> set xs \<Longrightarrow> x = y \<or> P x y \<or> P y x"
  by (induction xs) auto

lemma layout_no_overlap:
  assumes "layout a bs e" and "(l, zl, frl) \<in> set bs" and "(b, z, fr) \<in> set bs"
    and "unat l + 8 \<le> unat x" and "unat x + 8 \<le> unat l + 8 + unat zl"
  shows "unat x + 8 \<le> unat b \<or> unat b + 8 \<le> unat x"
proof -
  from sorted_wrt_total [OF layout_sorted [OF assms(1)] assms(2,3)]
  show ?thesis using assms(4,5) withinD [OF layout_within [OF assms(1)] assms(3)]
    by (auto simp: before_def)
qed

lemma hdrs_wr64:
  assumes "hdrs m bs" and "within lo hi bs" and "hi \<le> 18446744073709551616"
    and "unat a + 8 \<le> 18446744073709551616"
    and "\<And>b z fr. (b, z, fr) \<in> set bs \<Longrightarrow> unat a + 8 \<le> unat b \<or> unat b + 8 \<le> unat a"
  shows "hdrs (wr64 m a v) bs"
proof (rule hdrs_frame [OF assms(1,2,3)])
  fix b z fr and x :: addr
  assume "(b, z, fr) \<in> set bs" "unat b \<le> unat x" "unat x < unat b + 8"
  with assms(5) [of b z fr] show "wr64 m a v x = m x"
    by (intro wr64_outside assms(4)) auto
qed

lemma hdrs_wr64_outside:
  assumes "hdrs m bs" and "within lo hi bs" and "hi \<le> 18446744073709551616"
    and "unat a + 8 \<le> 18446744073709551616" and "unat a + 8 \<le> lo \<or> hi \<le> unat a"
  shows "hdrs (wr64 m a v) bs"
  using assms(1,2,3,4)
proof (rule hdrs_wr64)
  fix b z fr assume "(b, z, fr) \<in> set bs"
  from withinD [OF assms(2) this] assms(5)
  show "unat a + 8 \<le> unat b \<or> unat b + 8 \<le> unat a" by auto
qed

lemma hdrs_wr64_payload:
  assumes "layout a bs e" and "hdrs m bs" and "(l, zl, frl) \<in> set bs"
    and "unat l + 8 \<le> unat x" and "unat x + 8 \<le> unat l + 8 + unat zl"
  shows "hdrs (wr64 m x v) bs"
proof (rule hdrs_wr64 [OF assms(2) layout_within [OF assms(1)]])
  show "unat e \<le> 18446744073709551616" using unat_lt64 [of e] by simp
  show "unat x + 8 \<le> 18446744073709551616"
    using withinD [OF layout_within [OF assms(1)] assms(3)] assms(5) unat_lt64 [of e] by simp
  show "unat x + 8 \<le> unat b \<or> unat b + 8 \<le> unat x" if "(b, z, fr) \<in> set bs" for b z fr
    using layout_no_overlap [OF assms(1,3) that assms(4,5)] .
qed

text \<open>Changes confined to the link words of free blocks keep every header.\<close>

lemma hdrs_links_frame:
  assumes "layout a bs e" and "hdrs m bs"
    and "\<And>x. (\<forall>y\<in>set (frees bs). unat x < unat y + 8 \<or> unat y + 24 \<le> unat x) \<Longrightarrow> m' x = m x"
  shows "hdrs m' bs"
proof (rule hdrs_frame [OF assms(2) layout_within [OF assms(1)]])
  show "unat e \<le> 18446744073709551616" using unat_lt64 [of e] by simp
  fix b z fr and x :: addr
  assume bm: "(b, z, fr) \<in> set bs" and x: "unat b \<le> unat x" "unat x < unat b + 8"
  show "m' x = m x"
  proof (rule assms(3), rule ballI)
    fix y assume "y \<in> set (frees bs)"
    then obtain zy where ym: "(y, zy, True) \<in> set bs" by (auto dest: frees_subset)
    from sorted_wrt_total [OF layout_sorted [OF assms(1)] ym bm]
      withinD [OF layout_within [OF assms(1)] ym] x
    show "unat x < unat y + 8 \<or> unat y + 24 \<le> unat x"
      by (auto simp: before_def)
  qed
qed

lemma split_FREE: "unat (y AND NOT FREE) + unat (y AND FREE) = unat y"
proof -
  have "(y AND NOT FREE) AND (y AND FREE) = 0"
    by (rule bit_word_eqI) (auto simp: bit_simps)
  then have "(y AND NOT FREE) + (y AND FREE) = (y AND NOT FREE) OR (y AND FREE)"
    by (rule disjunctive_add_eq_or)
  also have "\<dots> = y"
    by (rule bit_word_eqI) (auto simp: bit_simps)
  finally have e: "(y AND NOT FREE) + (y AND FREE) = y" .
  have "y AND NOT FREE \<le> y" by (rule word_and_le2)
  then have "y AND NOT FREE \<le> (y AND NOT FREE) + (y AND FREE)" by (simp only: e)
  then have "unat ((y AND NOT FREE) + (y AND FREE)) = unat (y AND NOT FREE) + unat (y AND FREE)"
    by (simp only: unat_plus_simple)
  then show ?thesis by (simp only: e)
qed

lemma and_FREE_le: "unat (y AND FREE) \<le> 7"
proof -
  have "y AND FREE \<le> FREE" by (rule word_and_le1)
  then show ?thesis by (simp add: word_le_unat FREE_def)
qed

lemma roundup_ok:
  assumes "unat r \<le> 18446744073709551608"
  shows "aligned8 (roundup r ALIGNMENT)" "16 \<le> unat (roundup r ALIGNMENT)" "r \<le> roundup r ALIGNMENT"
proof -
  have a16: "aligned8 (16 :: 64 word)" by (simp add: aligned8_iff_dvd)
  have eq: "(r + ALIGNMENT - 1) AND NOT (ALIGNMENT - 1) = (r + 7) AND NOT FREE"
    by (simp add: ALIGNMENT_def FREE_def add.commute)
  have u7: "unat (r + 7) = unat r + 7" using assms by (simp add: unat_add64)
  show "aligned8 (roundup r ALIGNMENT)"
    by (simp add: roundup_def eq aligned8_and_not MIN_BLOCK_SIZE_def a16)
  show "16 \<le> unat (roundup r ALIGNMENT)" "r \<le> roundup r ALIGNMENT"
    using split_FREE [of "r + 7"] and_FREE_le [of "r + 7"] u7
    by (auto simp add: roundup_def eq MIN_BLOCK_SIZE_def word_le_unat not_le)
qed

lemma layout_end: "layout a bs e \<Longrightarrow> blocks_end a bs = e"
  by (induction a bs e rule: layout.induct) auto

lemma layout_appendI:
  "layout a xs mid \<Longrightarrow> layout mid ys e \<Longrightarrow> layout a (xs @ ys) e"
  by (simp add: layout_append layout_end)

lemma layout_appendD:
  assumes "layout a (xs @ ys) e"
  shows "layout a xs (blocks_end a xs)" "layout (blocks_end a xs) ys e"
  using assms by (simp_all add: layout_append)

lemma heap_ok_split:
  assumes "heap_ok s (pre @ (f, sz, fr) # post)"
  shows "0 < unat (segment_start s)" "unat (segment_start s) \<le> unat f"
    "unat f + 8 + unat sz \<le> unat (segment_end s)" "aligned8 sz" "16 \<le> unat sz"
    "layout (segment_start s) pre f" "layout (f + 8 + sz) post (segment_end s)"
    "within (unat (segment_start s)) (unat f) pre"
    "within (unat f + 8 + unat sz) (unat (segment_end s)) post"
    "fl_pos (unat (segment_start s)) (unat f) (frees pre)"
    "fl_pos (unat f + 8 + unat sz) (unat (segment_end s)) (frees post)"
    "hdrs (mem s) pre" "rd64 (mem s) f = hdr sz fr" "hdrs (mem s) post"
    "fl_inv s (frees pre @ (if fr then [f] else []) @ frees post)"
proof -
  let ?a = "segment_start s" and ?e = "segment_end s"
  from assms have l: "layout ?a (pre @ (f, sz, fr) # post) ?e" and nz: "?a \<noteq> NULL"
    and h: "hdrs (mem s) (pre @ (f, sz, fr) # post)"
    and fi: "fl_inv s (frees (pre @ (f, sz, fr) # post))"
    by (simp_all add: heap_ok_def)
  from layout_appendD [OF l] have l1: "layout ?a pre (blocks_end ?a pre)"
    and l2: "layout (blocks_end ?a pre) ((f, sz, fr) # post) ?e" by simp_all
  from l2 have f: "blocks_end ?a pre = f" by simp
  from l2 f show b: "unat f + 8 + unat sz \<le> unat ?e" "aligned8 sz" "16 \<le> unat sz"
    and l3: "layout (f + 8 + sz) post ?e" by simp_all
  from l1 f show l1': "layout ?a pre f" by simp
  from nz show "0 < unat ?a" by (simp add: NULL_def unat_gt_0)
  from layout_le [OF l1'] show "unat ?a \<le> unat f" .
  from layout_within [OF l1'] show w1: "within (unat ?a) (unat f) pre" .
  from layout_within [OF l3] show w2: "within (unat f + 8 + unat sz) (unat ?e) post"
    by (simp add: unat_blk_end [OF b(1)])
  from layout_fl_pos [OF l1'] show "fl_pos (unat ?a) (unat f) (frees pre)" .
  from layout_fl_pos [OF l3] show "fl_pos (unat f + 8 + unat sz) (unat ?e) (frees post)"
    by (simp add: unat_blk_end [OF b(1)])
  from h show "hdrs (mem s) pre" "rd64 (mem s) f = hdr sz fr" "hdrs (mem s) post" by simp_all
  from fi show "fl_inv s (frees pre @ (if fr then [f] else []) @ frees post)"
    by (cases fr) simp_all
qed

lemma load64_null: "segment_start s \<noteq> NULL \<Longrightarrow> load64 s NULL = raise (OutOfSegment NULL)"
  by (simp add: load64_def in_segment_def NULL_def)

lemma mymalloc_loop_null:
  "segment_start s \<noteq> NULL \<Longrightarrow> mymalloc_loop need s NULL = raise (OutOfSegment NULL)"
  by (subst mymalloc_loop.simps) (simp add: load64_null, simp add: NULL_def)

lemma mymalloc_loop_skip:
  assumes "hdrs (mem s) pre" and "within lo hi pre"
    and "unat (segment_start s) \<le> lo" "hi \<le> unat (segment_end s)"
    and "dlseg (mem s) p (frees pre) n"
    and "\<forall>x\<in>set (frees pre). x \<le> list_end s"
    and "\<forall>(b, z, fr)\<in>set pre. fr \<longrightarrow> z < need"
  shows "mymalloc_loop need s (hdd (frees pre) n) = mymalloc_loop need s n"
  using assms(1,2,5,6,7)
proof (induction pre arbitrary: p)
  case Nil
  show ?case by simp
next
  case (Cons x pre)
  obtain b z fr where x: "x = (b, z, fr)" by (cases x)
  show ?case
  proof (cases fr)
    case False
    with Cons show ?thesis by (simp add: x)
  next
    case True
    from Cons.prems(2) have r: "lo \<le> unat b" "unat b + 8 + unat z \<le> hi" "16 \<le> unat z" "aligned8 z"
      and w: "within lo hi pre" by (simp_all add: x)
    from r have r': "lo \<le> unat b" "unat b + 24 \<le> hi" by simp_all
    note sg = links_in_segment [OF r' assms(3,4)]
    from Cons.prems(1) have h: "rd64 (mem s) b = z OR FREE" and hp: "hdrs (mem s) pre"
      by (simp_all add: x True hdr_def)
    from Cons.prems(3) have nx: "rd64 (mem s) (get_curr_next b) = hdd (frees pre) n"
      and d: "dlseg (mem s) b (frees pre) n"
      by (simp_all add: x True)
    from Cons.prems(4) have le: "b \<le> list_end s" and le': "\<forall>x\<in>set (frees pre). x \<le> list_end s"
      by (simp_all add: x True)
    from Cons.prems(5) have nf: "\<not> need \<le> z" and nf': "\<forall>(b, z, fr)\<in>set pre. fr \<longrightarrow> z < need"
      by (simp_all add: x True not_le)
    have "mymalloc_loop need s b = mymalloc_loop need s (hdd (frees pre) n)"
      by (subst mymalloc_loop.simps)
         (simp add: le load64_ok sg h hdr_size_free r nf get_next_free_block_def nx)
    also have "\<dots> = mymalloc_loop need s n"
      using hp w d le' nf' by (rule Cons.IH)
    finally show ?thesis by (simp add: x True)
  qed
qed

lemma free_extentI:
  "(b, z, True) \<in> set bs \<Longrightarrow> unat b \<le> unat x \<Longrightarrow> unat x < unat b + 8 + unat z \<Longrightarrow> free_extent bs x"
  by (auto simp: free_extent_def list_ex_iff)

lemma not_free_extent_links:
  assumes "\<not> free_extent bs x" and "within lo hi bs" and "y \<in> set (frees bs)"
  shows "unat x < unat y + 8 \<or> unat y + 24 \<le> unat x"
proof -
  from assms(3) obtain z where m: "(y, z, True) \<in> set bs" by (auto dest: frees_subset)
  have "\<not> (unat y \<le> unat x \<and> unat x < unat y + 8 + unat z)"
    using free_extentI [OF m, of x] assms(1) by blast
  with withinD [OF assms(2) m] show ?thesis by linarith
qed

lemma layout_flag:
  "layout a (pre @ (f, sz, fr) # post) e = layout a (pre @ (f, sz, fr') # post) e"
  by (simp add: layout_append)

lemma within_flag:
  "within lo hi (pre @ (f, sz, fr) # post) = within lo hi (pre @ (f, sz, fr') # post)"
  by simp

lemma lastd_ge:
  assumes "\<forall>y\<in>set ys. unat f \<le> unat y"
  shows "f \<le> lastd ys f"
proof (cases "ys = []")
  case True
  then show ?thesis by simp
next
  case False
  from lastd_in [OF this, of f] assms show ?thesis by (simp add: word_le_unat)
qed

lemma mymalloc_hit_absorb:
  assumes ok: "heap_ok s (pre @ (f, sz, True) # post)"
    and fit: "need \<le> sz" and small: "sz - need < HEADER_LENGTH + MIN_BLOCK_SIZE"
  shows "\<exists>s'. mymalloc_loop need s f = ret (f + HEADER_LENGTH, s')
           \<and> heap_ok s' (pre @ (f, sz, False) # post)
           \<and> segment_start s' = segment_start s \<and> segment_end s' = segment_end s
           \<and> (\<forall>x. \<not> free_extent (pre @ (f, sz, True) # post) x \<longrightarrow> mem s' x = mem s x)
           \<and> (\<forall>x. unat f + 8 \<le> unat x \<and> unat x < unat f + 8 + unat need \<longrightarrow> mem s' x = mem s x)"
proof -
  let ?a = "segment_start s" and ?e = "segment_end s"
  let ?bs = "pre @ (f, sz, True) # post" and ?bs' = "pre @ (f, sz, False) # post"
  let ?xs = "frees pre" and ?ys = "frees post"
  note sp = heap_ok_split [OF ok]
  have e64: "unat ?e \<le> 18446744073709551616" using unat_lt64 [of ?e] by simp
  have f8: "unat f + 8 \<le> 18446744073709551616" using sp(3) e64 by simp
  from ok have lay: "layout ?a ?bs ?e" and nz: "?a \<noteq> NULL" by (simp_all add: heap_ok_def)
  have pos: "fl_pos (unat ?a) (unat ?e) (?xs @ f # ?ys)"
    using layout_fl_pos [OF lay] by simp
  have gx: "\<forall>x\<in>set ?xs. unat x + 24 \<le> unat f" and gy: "\<forall>y\<in>set ?ys. unat f + 24 \<le> unat y"
    using pos by (auto simp: fl_pos_append fl_pos_Cons gap_def)
  have gy2: "\<forall>y\<in>set ?ys. unat f + 8 + unat sz \<le> unat y"
    using sp(11) by (auto simp: fl_pos_def list_all_iff)
  have un: "unat need \<le> unat sz" using fit by (simp add: word_le_unat)
  from sp(15) have fi: "fl_inv s (?xs @ f # ?ys)" by simp
  have sf: "in_segment s f 8"
    using sp(2,3,5) by (simp add: in_segment_def word_le_unat)
  text \<open>the header is rewritten as USED\<close>
  define s1 where "s1 = s\<lparr>mem := wr64 (mem s) f sz\<rparr>"
  have c: "unat f \<le> unat g \<or> unat g + 24 \<le> unat f" if "g \<in> set (?xs @ f # ?ys)" for g
    using that gx gy by force
  from fi have d0: "dlseg (mem s) NULL (?xs @ f # ?ys) NULL" by (simp add: fl_inv_def)
  have d1: "dlseg (mem s1) NULL (?xs @ f # ?ys) NULL"
    unfolding s1_def using dlseg_wr64_frame [OF d0 pos e64 f8 c] by simp
  have fi1: "fl_inv s1 (?xs @ f # ?ys)"
    using fi d1 by (simp add: fl_inv_def s1_def)
  from remove_block_ok [OF fi1 pos sp(1)] obtain s'
    where s': "remove_block_from_freelist s1 f = ret s'" "fl_inv s' (?xs @ ?ys)"
      "segment_start s' = ?a" "segment_end s' = ?e"
      and fr': "\<And>x. (\<forall>y\<in>set (?xs @ ?ys). unat x < unat y + 8 \<or> unat y + 24 \<le> unat x)
                 \<Longrightarrow> mem s' x = mem s1 x"
    by (auto simp: s1_def)
  have gy': "\<forall>y\<in>set ?ys. unat f \<le> unat y" using gy by force
  have le: "f \<le> list_end s"
    using fi lastd_ge [OF gy'] by (simp add: fl_inv_def lastd_append)
  have run: "mymalloc_loop need s f = ret (f + HEADER_LENGTH, s')"
    by (subst mymalloc_loop.simps)
       (simp add: le load64_ok sf sp(13) hdr_def hdr_size_free sp(4) fit small
          hdr_size_used store64_ok s1_def [symmetric] s'(1))
  text \<open>the headers\<close>
  have lay': "layout ?a ?bs' ?e" using lay by (rule layout_flag [THEN iffD1])
  have h1: "hdrs (mem s1) ?bs'"
    unfolding s1_def using sp(12,14) sp(8,9) e64 f8 sp(2,3)
    by (auto simp: hdr_def rd64_wr64_same intro!: hdrs_wr64_outside)
  have h': "hdrs (mem s') ?bs'"
    using lay' h1 by (rule hdrs_links_frame) (rule fr', simp)
  have "heap_ok s' ?bs'"
    using nz lay' h' s' by (simp add: heap_ok_def)
  moreover have "mem s' x = mem s x" if "\<not> free_extent ?bs x" for x
  proof -
    have "\<forall>y\<in>set (frees ?bs). unat x < unat y + 8 \<or> unat y + 24 \<le> unat x"
      using not_free_extent_links [OF that layout_within [OF lay]] by blast
    then have "mem s' x = mem s1 x" by (intro fr') simp
    moreover have "\<not> (unat f \<le> unat x \<and> unat x < unat f + 8 + unat sz)"
      using that by (auto dest!: free_extentI [rotated])
    then have "wr64 (mem s) f sz x = mem s x"
      using sp(5) by (intro wr64_outside f8) auto
    then have "mem s1 x = mem s x" by (simp add: s1_def)
    ultimately show ?thesis by simp
  qed
  moreover have "mem s' x = mem s x"
    if x: "unat f + 8 \<le> unat x" "unat x < unat f + 8 + unat need" for x
  proof -
    have "\<forall>y\<in>set (?xs @ ?ys). unat x < unat y + 8 \<or> unat y + 24 \<le> unat x"
      using gx gy2 x un by force
    then have "mem s' x = mem s1 x" by (rule fr')
    moreover have "wr64 (mem s) f sz x = mem s x"
      by (rule wr64_outside [OF f8]) (use x in linarith)
    then have "mem s1 x = mem s x" by (simp add: s1_def)
    ultimately show ?thesis by simp
  qed
  ultimately show ?thesis using run s'(3,4) by blast
qed

lemma aligned8_diff:
  assumes "aligned8 a" "aligned8 b" "unat b + 8 \<le> unat a"
  shows "aligned8 (a - b - 8)"
proof -
  have "unat (a - b - 8) = unat a - unat b - 8"
    using assms(3) by (simp add: unat_sub64 word_le_unat)
  moreover have "8 dvd unat a - unat b - 8"
    using assms by (simp add: aligned8_iff_dvd)
  ultimately show ?thesis by (simp add: aligned8_iff_dvd)
qed

lemma mymalloc_hit_split:
  assumes ok: "heap_ok s (pre @ (f, sz, True) # post)"
    and fit: "need \<le> sz" and big: "\<not> sz - need < HEADER_LENGTH + MIN_BLOCK_SIZE"
    and nd: "aligned8 need" "16 \<le> unat need"
  shows "\<exists>s'. mymalloc_loop need s f = ret (f + HEADER_LENGTH, s')
           \<and> heap_ok s' (pre @ (f, need, False)
                # (f + need + HEADER_LENGTH, sz - need - HEADER_LENGTH, True) # post)
           \<and> segment_start s' = segment_start s \<and> segment_end s' = segment_end s
           \<and> (\<forall>x. \<not> free_extent (pre @ (f, sz, True) # post) x \<longrightarrow> mem s' x = mem s x)
           \<and> (\<forall>x. unat f + 8 \<le> unat x \<and> unat x < unat f + 8 + unat need \<longrightarrow> mem s' x = mem s x)"
proof -
  let ?a = "segment_start s" and ?e = "segment_end s"
  let ?bs = "pre @ (f, sz, True) # post"
  let ?xs = "frees pre" and ?ys = "frees post"
  define f' where "f' = f + need + HEADER_LENGTH"
  define rem where "rem = sz - need - HEADER_LENGTH"
  let ?bs' = "pre @ (f, need, False) # (f', rem, True) # post"
  define P where "P = lastd ?xs NULL"
  define N where "N = hdd ?ys NULL"
  note sp = heap_ok_split [OF ok]
  have e64: "unat ?e \<le> 18446744073709551616" using unat_lt64 [of ?e] by simp
  from ok have lay: "layout ?a ?bs ?e" and nz: "?a \<noteq> NULL" by (simp_all add: heap_ok_def)
  text \<open>arithmetic\<close>
  have un: "unat need \<le> unat sz" using fit by (simp add: word_le_unat)
  have usn: "unat (sz - need) = unat sz - unat need" using un by (simp add: unat_sub64)
  have b24: "unat need + 24 \<le> unat sz"
    using big usn un by (simp add: word_less_unat HEADER_LENGTH_def MIN_BLOCK_SIZE_def)
  have urem: "unat rem = unat sz - unat need - 8"
    using b24 usn by (simp add: rem_def HEADER_LENGTH_def unat_sub64)
  have arem: "aligned8 rem"
    unfolding rem_def HEADER_LENGTH_def using sp(4) nd(1) b24 by (intro aligned8_diff) simp_all
  have uf': "unat f' = unat f + 8 + unat need"
    using sp(3) b24 e64 by (simp add: f'_def HEADER_LENGTH_def unat_add64)
  have f8: "unat f + 8 \<le> 18446744073709551616" using sp(3) e64 by simp
  have f'24: "unat f' + 24 \<le> 18446744073709551616" using uf' sp(3) b24 e64 by simp
  note ul = unat_links [OF f'24]
  have ulf: "unat (get_curr_prev f) = unat f + 8" "unat (get_curr_next f) = unat f + 16"
    using sp(3,5) e64 by (simp_all add: unat_links)
  have end_eq: "f' + 8 + rem = f + 8 + sz"
    by (simp add: f'_def rem_def HEADER_LENGTH_def)
  have f'_eq: "f + 8 + need = f'"
    by (simp add: f'_def HEADER_LENGTH_def)
  text \<open>the free list around the block\<close>
  have pos: "fl_pos (unat ?a) (unat ?e) (?xs @ f # ?ys)"
    using layout_fl_pos [OF lay] by simp
  have gx: "\<forall>x\<in>set ?xs. unat x + 24 \<le> unat f"
    using sp(10) by (auto simp: fl_pos_def list_all_iff)
  have gy: "\<forall>y\<in>set ?ys. unat f + 8 + unat sz \<le> unat y"
    using sp(11) by (auto simp: fl_pos_def list_all_iff)
  from sp(15) have fi: "fl_inv s (?xs @ f # ?ys)" by simp
  then have d0: "dlseg (mem s) NULL (?xs @ f # ?ys) NULL"
    and rp: "rd64 (mem s) (get_curr_prev f) = P" and rn: "rd64 (mem s) (get_curr_next f) = N"
    and hd: "list_head s = (if ?xs = [] then f else hdd ?xs NULL)"
    and tl: "list_end s = (if ?ys = [] then f else lastd ?ys NULL)"
    and cnt: "free_blocks_num s = of_nat (length ?xs + length ?ys) + 1"
    using lastd_ne [of ?ys f NULL]
    by (auto simp: fl_inv_def dlseg_append hdd_append_if lastd_append_if P_def N_def)
  have mem_seg: "in_segment s y 8 \<and> in_segment s (get_curr_prev y) 8 \<and> in_segment s (get_curr_next y) 8
      \<and> y \<noteq> NULL \<and> unat y + 24 \<le> 18446744073709551616"
    if "y \<in> set (?xs @ f # ?ys)" for y
  proof -
    from fl_posD [OF pos that] have "unat ?a \<le> unat y" "unat y + 24 \<le> unat ?e" by simp_all
    with links_in_segment [OF this] sp(1) e64 show ?thesis
      by (auto simp: NULL_def)
  qed
  have Pin: "P \<in> set ?xs" if "?xs \<noteq> []" using that by (simp add: P_def lastd_in)
  have Nin: "N \<in> set ?ys" if "?ys \<noteq> []" using that by (simp add: N_def hdd_in)
  have pn: "(P \<noteq> NULL) = (?xs \<noteq> [])"
    using Pin mem_seg by (cases "?xs = []") (auto simp: P_def)
  have nn: "(N \<noteq> NULL) = (?ys \<noteq> [])"
    using Nin mem_seg by (cases "?ys = []") (auto simp: N_def)
  have hdf: "f \<noteq> hdd ?xs NULL" if "?xs \<noteq> []"
    using hdd_in [OF that, of NULL] gx by auto
  have tlf: "f \<noteq> lastd ?ys NULL" if "?ys \<noteq> []"
    using lastd_in [OF that, of NULL] gy by auto
  have gy': "\<forall>y\<in>set ?ys. unat f \<le> unat y" using gy by force
  have le: "f \<le> list_end s"
    using fi lastd_ge [OF gy'] by (simp add: fl_inv_def lastd_append)
  have le2: "f \<le> lastd ?ys NULL" if "?ys \<noteq> []"
    using le tl that by simp
  text \<open>the memory after the call\<close>
  define mA where "mA = wr64 (wr64 (mem s) f need) f' (rem OR FREE)"
  define m1 where "m1 = (if ?xs = [] then mA else wr64 mA (get_curr_next P) f')"
  define m2 where "m2 = (if ?ys = [] then m1 else wr64 m1 (get_curr_prev N) f')"
  define m3 where "m3 = wr64 (wr64 m2 (get_curr_prev f') P) (get_curr_next f') N"
  have sf: "in_segment s f 8" using mem_seg [of f] by simp
  have sf': "in_segment s f' 8" "in_segment s (get_curr_prev f') 8" "in_segment s (get_curr_next f') 8"
    by (rule links_in_segment [of "unat f'" f' "unat f' + 24"]; use uf' sp(2,3) b24 in simp)+
  have rpA: "rd64 mA (get_curr_prev f) = P" and rnA: "rd64 mA (get_curr_next f) = N"
    unfolding mA_def using rp rn f8 f'24 uf' nd(2)
    by (simp_all add: rd64_wr64_disj ulf)
  have run: "\<exists>s'. mymalloc_loop need s f = ret (f + HEADER_LENGTH, s') \<and> mem s' = m3
      \<and> list_head s' = hdd (?xs @ f' # ?ys) NULL \<and> list_end s' = lastd (?xs @ f' # ?ys) NULL
      \<and> free_blocks_num s' = free_blocks_num s
      \<and> segment_start s' = ?a \<and> segment_end s' = ?e"
    using mem_seg [of f] Pin Nin mem_seg hdf tlf sf' le2
      lastd_ne [of ?ys f' NULL] hdd_ne [of ?xs f' NULL]
    by (subst mymalloc_loop.simps; cases "?xs = []"; cases "?ys = []")
       (simp_all add: le load64_ok sp(13) hdr_def hdr_size_free sp(4) fit big
          hdr_size_used nd store64_ok f'_def [symmetric] rem_def [symmetric]
          get_prev_free_block_def get_next_free_block_def mA_def [symmetric] rpA rnA pn nn
          P_def [symmetric] N_def [symmetric] hd tl m1_def m2_def m3_def
          hdd_append_if lastd_append_if)
  from run obtain s' where s': "mymalloc_loop need s f = ret (f + HEADER_LENGTH, s')" "mem s' = m3"
      "list_head s' = hdd (?xs @ f' # ?ys) NULL" "list_end s' = lastd (?xs @ f' # ?ys) NULL"
      "free_blocks_num s' = free_blocks_num s" "segment_start s' = ?a" "segment_end s' = ?e"
    by blast
  text \<open>the layout\<close>
  have lmid: "layout f ((f, need, False) # (f', rem, True) # post) ?e"
    using sp(3,7) nd arem urem b24 uf'
    by (simp add: f'_eq end_eq)
  have lay': "layout ?a ?bs' ?e"
    using sp(6) lmid by (rule layout_appendI)
  note w' = layout_within [OF lay']
  text \<open>the free list\<close>
  have cf: "unat f \<le> unat g \<or> unat g + 24 \<le> unat f" if "g \<in> set (?xs @ f # ?ys)" for g
    using that gx gy' by force
  have cf': "unat f' \<le> unat g \<or> unat g + 24 \<le> unat f'" if "g \<in> set (?xs @ f # ?ys)" for g
    using that gx gy uf' b24 nd(2) by force
  have dA: "dlseg mA NULL (?xs @ f # ?ys) NULL"
    unfolding mA_def
    by (intro dlseg_wr64_frame [OF _ pos e64] d0 f8 cf cf') (use f'24 in linarith)+
  have d3: "dlseg m3 NULL (?xs @ f' # ?ys) NULL"
  proof (rule dlseg_replace [where m = mA and f = f and ?m1.0 = m1 and ?m2.0 = m2, OF dA sp(10,11)])
    show "unat f \<le> unat f'" using uf' by simp
    show "unat f' + 24 \<le> unat f + 8 + unat sz" using uf' b24 by simp
    show "unat ?e \<le> 18446744073709551616" by (rule e64)
    show "unat f' + 24 \<le> 18446744073709551616" by (rule f'24)
    show "m1 = (if ?xs = [] then mA else wr64 mA (get_curr_next (lastd ?xs NULL)) f')"
      by (simp add: m1_def P_def)
    show "m2 = (if ?ys = [] then m1 else wr64 m1 (get_curr_prev (hdd ?ys NULL)) f')"
      by (simp add: m2_def N_def)
    show "m3 = wr64 (wr64 m2 (get_curr_prev f') (lastd ?xs NULL)) (get_curr_next f') (hdd ?ys NULL)"
      by (simp add: m3_def P_def N_def)
  qed
  have fi': "fl_inv s' (frees ?bs')"
    using d3 s' cnt by (simp add: fl_inv_def)
  text \<open>the headers\<close>
  have hA: "hdrs mA ?bs'"
  proof -
    have "hdrs mA pre"
      unfolding mA_def
      by (intro hdrs_wr64_outside [OF _ sp(8)] sp(12)) (use f8 f'24 uf' e64 sp(3) in simp_all)
    moreover have "hdrs mA post"
      unfolding mA_def
      by (intro hdrs_wr64_outside [OF _ sp(9)] sp(14)) (use f8 f'24 uf' e64 b24 in simp_all)
    moreover have "rd64 mA f = need"
      unfolding mA_def using f8 f'24 uf' by (simp add: rd64_wr64_disj rd64_wr64_same)
    moreover have "rd64 mA f' = rem OR FREE"
      unfolding mA_def by (simp add: rd64_wr64_same)
    ultimately show ?thesis by (simp add: hdr_def)
  qed
  have h1: "hdrs m1 ?bs'"
  proof (cases "?xs = []")
    case True
    with hA show ?thesis by (simp add: m1_def)
  next
    case False
    from frees_subset [OF Pin [OF False]] obtain z where z: "(P, z, True) \<in> set pre" ..
    then have zb: "(P, z, True) \<in> set ?bs'" by simp
    from withinD [OF sp(8) z] mem_seg [of P] Pin [OF False]
    have "hdrs (wr64 mA (get_curr_next P) f') ?bs'"
      by (intro hdrs_wr64_payload [OF lay' hA zb]) (simp_all add: unat_links)
    with False show ?thesis by (simp add: m1_def)
  qed
  have h2: "hdrs m2 ?bs'"
  proof (cases "?ys = []")
    case True
    with h1 show ?thesis by (simp add: m2_def)
  next
    case False
    from frees_subset [OF Nin [OF False]] obtain z where z: "(N, z, True) \<in> set post" ..
    then have zb: "(N, z, True) \<in> set ?bs'" by simp
    from withinD [OF sp(9) z] mem_seg [of N] Nin [OF False]
    have "hdrs (wr64 m1 (get_curr_prev N) f') ?bs'"
      by (intro hdrs_wr64_payload [OF lay' h1 zb]) (simp_all add: unat_links)
    with False show ?thesis by (simp add: m2_def)
  qed
  have zf': "(f', rem, True) \<in> set ?bs'" by simp
  have h3: "hdrs m3 ?bs'"
    unfolding m3_def
    by (intro hdrs_wr64_payload [OF lay' _ zf'] h2) (use urem b24 in \<open>simp_all add: ul\<close>)
  have ok': "heap_ok s' ?bs'"
    using nz lay' h3 fi' s' by (simp add: heap_ok_def)
  have fr: "mem s' x = mem s x"
    if o1: "unat x < unat f \<or> unat f + 8 \<le> unat x"
      and o2: "unat x < unat f' \<or> unat f' + 24 \<le> unat x"
      and lk: "\<And>y. y \<in> set (?xs @ ?ys) \<Longrightarrow> unat x < unat y + 8 \<or> unat y + 24 \<le> unat x" for x
  proof -
    have "wr64 (mem s) f need x = mem s x"
      by (rule wr64_outside [OF f8]) (use o1 in linarith)
    moreover have "wr64 (wr64 (mem s) f need) f' (rem OR FREE) x = wr64 (mem s) f need x"
      by (rule wr64_outside) (use o2 f'24 in linarith)+
    ultimately have "mA x = mem s x"
      by (simp add: mA_def)
    moreover have "m1 x = mA x"
    proof (cases "?xs = []")
      case True
      then show ?thesis by (simp add: m1_def)
    next
      case False
      from lk [of P] Pin [OF False] mem_seg [of P]
      have "wr64 mA (get_curr_next P) f' x = mA x"
        by (intro wr64_outside) (auto simp: unat_links)
      then show ?thesis using False by (simp add: m1_def)
    qed
    moreover have "m2 x = m1 x"
    proof (cases "?ys = []")
      case True
      then show ?thesis by (simp add: m2_def)
    next
      case False
      from lk [of N] Nin [OF False] mem_seg [of N]
      have "wr64 m1 (get_curr_prev N) f' x = m1 x"
        by (intro wr64_outside) (auto simp: unat_links)
      then show ?thesis using False by (simp add: m2_def)
    qed
    moreover have "m3 x = m2 x"
    proof -
      have "wr64 m2 (get_curr_prev f') P x = m2 x"
        by (rule wr64_outside) (use o2 f'24 ul in linarith)+
      moreover have "wr64 (wr64 m2 (get_curr_prev f') P) (get_curr_next f') N x
          = wr64 m2 (get_curr_prev f') P x"
        by (rule wr64_outside) (use o2 f'24 ul in linarith)+
      ultimately show ?thesis by (simp add: m3_def)
    qed
    ultimately show ?thesis using s'(2) by simp
  qed
  have "mem s' x = mem s x" if nfe: "\<not> free_extent ?bs x" for x
  proof (rule fr)
    have out: "\<not> (unat f \<le> unat x \<and> unat x < unat f + 8 + unat sz)"
      using nfe by (auto dest!: free_extentI [rotated])
    then show "unat x < unat f \<or> unat f + 8 \<le> unat x" using sp(5) by linarith
    from out show "unat x < unat f' \<or> unat f' + 24 \<le> unat x" using uf' b24 by linarith
    show "unat x < unat y + 8 \<or> unat y + 24 \<le> unat x" if "y \<in> set (?xs @ ?ys)" for y
      using not_free_extent_links [OF nfe layout_within [OF lay], of y] that by simp
  qed
  moreover have "mem s' x = mem s x"
    if x: "unat f + 8 \<le> unat x" "unat x < unat f + 8 + unat need" for x
  proof (rule fr)
    show "unat x < unat f \<or> unat f + 8 \<le> unat x" using x by simp
    show "unat x < unat f' \<or> unat f' + 24 \<le> unat x" using x uf' by simp
    show "unat x < unat y + 8 \<or> unat y + 24 \<le> unat x" if "y \<in> set (?xs @ ?ys)" for y
      using that gx gy x b24 by force
  qed
  ultimately show ?thesis using s' ok' by (auto simp: f'_def rem_def)
qed

lemma lastd_max:
  "sorted_wrt gap fl \<Longrightarrow> x \<in> set fl \<Longrightarrow> unat x \<le> unat (lastd fl p)"
proof (induction fl arbitrary: p)
  case Nil
  then show ?case by simp
next
  case (Cons a fl)
  show ?case
  proof (cases "fl = []")
    case True
    with Cons.prems show ?thesis by simp
  next
    case False
    from lastd_in [OF this, of a] Cons.prems(1) have "unat a \<le> unat (lastd fl a)"
      by (auto simp: gap_def)
    with Cons show ?thesis by auto
  qed
qed

lemma mymalloc_fit:
  assumes ok: "heap_ok s (pre @ (f, sz, True) # post)"
    and small: "\<forall>(b, z, fr)\<in>set pre. fr \<longrightarrow> z < need"
    and fit: "need \<le> sz" and nd: "aligned8 need" "16 \<le> unat need"
  shows "\<exists>s'. mymalloc_loop need s (list_head s) = ret (f + HEADER_LENGTH, s')
           \<and> heap_ok s' (pre @
                (if sz - need < HEADER_LENGTH + MIN_BLOCK_SIZE then [(f, sz, False)]
                 else [(f, need, False), (f + need + HEADER_LENGTH, sz - need - HEADER_LENGTH, True)])
                @ post)
           \<and> segment_start s' = segment_start s \<and> segment_end s' = segment_end s
           \<and> (\<forall>x. \<not> free_extent (pre @ (f, sz, True) # post) x \<longrightarrow> mem s' x = mem s x)
           \<and> (\<forall>x. unat f + 8 \<le> unat x \<and> unat x < unat f + 8 + unat need \<longrightarrow> mem s' x = mem s x)"
proof -
  let ?xs = "frees pre" and ?ys = "frees post"
  note sp = heap_ok_split [OF ok]
  from ok have lay: "layout (segment_start s) (pre @ (f, sz, True) # post) (segment_end s)"
    by (simp add: heap_ok_def)
  have pos: "fl_pos (unat (segment_start s)) (unat (segment_end s)) (?xs @ f # ?ys)"
    using layout_fl_pos [OF lay] by simp
  from sp(15) have fi: "fl_inv s (?xs @ f # ?ys)" by simp
  then have d: "dlseg (mem s) NULL ?xs f" and hd: "list_head s = hdd ?xs f"
    and tl: "list_end s = lastd (?xs @ f # ?ys) NULL"
    by (simp_all add: fl_inv_def dlseg_append hdd_append)
  have le: "\<forall>x\<in>set ?xs. x \<le> list_end s"
    using lastd_max [of "?xs @ f # ?ys" _ NULL] pos by (simp add: tl word_le_unat fl_pos_def)
  have "mymalloc_loop need s (list_head s) = mymalloc_loop need s f"
    unfolding hd using sp(12,8) _ _ d le small
    by (rule mymalloc_loop_skip) (use sp(2,3) in simp_all)
  then show ?thesis
    using mymalloc_hit_absorb [OF ok fit] mymalloc_hit_split [OF ok fit _ nd]
    by (cases "sz - need < HEADER_LENGTH + MIN_BLOCK_SIZE") simp_all
qed

lemma mymalloc_nofit:
  assumes ok: "heap_ok s bs" and small: "\<forall>(b, z, fr)\<in>set bs. fr \<longrightarrow> z < need"
  shows "mymalloc_loop need s (list_head s) = raise (OutOfSegment NULL)"
proof -
  from ok have lay: "layout (segment_start s) bs (segment_end s)" and nz: "segment_start s \<noteq> NULL"
    and h: "hdrs (mem s) bs" and fi: "fl_inv s (frees bs)"
    by (simp_all add: heap_ok_def)
  have le: "\<forall>x\<in>set (frees bs). x \<le> list_end s"
    using lastd_max [of "frees bs" _ NULL] layout_fl_pos [OF lay] fi
    by (simp add: word_le_unat fl_pos_def fl_inv_def)
  have "mymalloc_loop need s (list_head s) = mymalloc_loop need s NULL"
    using fi h layout_within [OF lay] le small
    by (auto simp: fl_inv_def intro!: mymalloc_loop_skip)
  then show ?thesis by (simp add: mymalloc_loop_null nz)
qed

lemma myinit_heap_ok:
  assumes "unat heap_start + unat heap_size < 18446744073709551616"
    and "heap_start \<noteq> NULL" and "HEADER_LENGTH + MIN_BLOCK_SIZE \<le> heap_size"
    and "aligned8 heap_size"
  shows "\<exists>s'. myinit s heap_start heap_size = ret (True, s')
     \<and> heap_ok s' [(heap_start, heap_size - HEADER_LENGTH, True)]
     \<and> segment_start s' = heap_start \<and> segment_end s' = heap_start + heap_size"
proof -
  have n: "24 \<le> unat heap_size"
    using assms(3) by (simp add: word_le_unat HEADER_LENGTH_def MIN_BLOCK_SIZE_def)
  have u: "unat (heap_size - HEADER_LENGTH) = unat heap_size - 8"
    using n by (simp add: HEADER_LENGTH_def unat_sub64)
  have al: "aligned8 (heap_size - HEADER_LENGTH)"
    using assms(4) n u by (simp add: aligned8_iff_dvd)
  have b: "unat heap_start + 24 \<le> 18446744073709551616"
    using assms n by simp
  have e: "heap_start + 8 + (heap_size - HEADER_LENGTH) = heap_start + heap_size"
    by (simp add: HEADER_LENGTH_def)
  have ue: "unat (heap_start + heap_size) = unat heap_start + unat heap_size"
    using assms(1) by (simp add: unat_add64)
  show ?thesis
    using assms(2) al n u
    by (simp add: myinit_accepted [OF assms(1,2,3)] heap_ok_def fl_inv_def hdr_def
        fresh_links [OF b] e ue)
qed

lemma roundup_24: "roundup 24 ALIGNMENT = 24"
  by (simp add: roundup_def const_defs)

lemma mymalloc_scenario:
  assumes "start \<noteq> NULL" and "unat start + 1024 < 18446744073709551616"
  shows "\<exists>s1 s2. myinit s0 start 1024 = ret (True, s1)
           \<and> mymalloc s1 24 = ret (start + 8, s2)
           \<and> rd64 (mem s2) start = 24 OR USED
           \<and> rd64 (mem s2) (start + 32) = 984 OR FREE
           \<and> heap_ok s2 [(start, 24, False), (start + 32, 984, True)]
           \<and> segment_end s2 = start + 1024"
proof -
  have a: "aligned8 (1024 :: size_t)" "aligned8 (24 :: size_t)"
    by (simp_all add: aligned8_iff_dvd)
  from myinit_heap_ok [of start 1024 s0] assms a obtain s1
    where s1: "myinit s0 start 1024 = ret (True, s1)" "heap_ok s1 ([] @ (start, 1016, True) # [])"
      "segment_end s1 = start + 1024"
    by (auto simp: const_defs)
  have sm: "\<not> (1016 :: size_t) - 24 < HEADER_LENGTH + MIN_BLOCK_SIZE"
    by (simp add: const_defs)
  have e: "start + 24 + HEADER_LENGTH = start + 32" "(1016 :: size_t) - 24 - HEADER_LENGTH = 984"
    "start + HEADER_LENGTH = start + 8"
    by (simp_all add: const_defs)
  from mymalloc_fit [OF s1(2), of 24] a obtain s2
    where "mymalloc_loop 24 s1 (list_head s1) = ret (start + HEADER_LENGTH, s2)"
      "heap_ok s2 ([] @ (if (1016 :: size_t) - 24 < HEADER_LENGTH + MIN_BLOCK_SIZE then [(start, 1016, False)]
         else [(start, 24, False), (start + 24 + HEADER_LENGTH, 1016 - 24 - HEADER_LENGTH, True)]) @ [])"
      "segment_end s2 = segment_end s1"
    by (auto simp: aligned8_iff_dvd)
  then have s2: "mymalloc_loop 24 s1 (list_head s1) = ret (start + 8, s2)"
      "heap_ok s2 [(start, 24, False), (start + 32, 984, True)]"
      "segment_end s2 = segment_end s1"
    by (simp_all only: sm e if_False append_Nil append_Nil2)
  from s2(2) have "hdrs (mem s2) [(start, 24, False), (start + 32, 984, True)]"
    unfolding heap_ok_def by blast
  then have "rd64 (mem s2) start = 24 OR USED" "rd64 (mem s2) (start + 32) = 984 OR FREE"
    by (simp_all add: hdr_def USED_def)
  with s1 s2 show ?thesis
    by (simp add: mymalloc_def roundup_24)
qed

lemma myinit_fresh_heap: "myinit heap0 4096 1024 = ret (True, fresh_heap)"
  by (simp add: myinit_4096_1024 fresh_heap_def)

lemma heap_ok_fresh_heap: "heap_ok fresh_heap [(4096, 1016, True)]"
  by (simp add: heap_ok_def fresh_heap_def fl_inv_def hdr_def aligned8_iff_dvd eval_simps)

lemma myinit_8192_2048:
  "myinit heap0 8192 2048 = ret (True,
     \<lparr>mem = wr64 (wr64 (wr64 (\<lambda>_. 0) 8192 2047) 8200 0) 8208 0,
      segment_start = 8192, segment_end = 10240,
      list_head = 8192, list_end = 8192, free_blocks_num = 1\<rparr>)"
  by (simp add: myinit_def heap0_def eval_simps)

lemma wr64_in_range:
  fixes a x :: addr
  assumes "unat a + 8 \<le> 18446744073709551616" and "x - a < 8"
  shows "unat a \<le> unat x \<and> unat x < unat a + 8"
proof (rule ccontr)
  assume "\<not> (unat a \<le> unat x \<and> unat x < unat a + 8)"
  then have o: "unat x < unat a \<or> unat a + 8 \<le> unat x" by linarith
  have "8 \<le> unat (x - a)"
  proof (cases "unat x < unat a")
    case True
    then show ?thesis using assms(1) unat_lt64 [of x] by (simp add: unat_sub64_wrap)
  next
    case False
    then show ?thesis using o by (simp add: unat_sub64)
  qed
  with assms(2) show False by (simp add: word_less_unat)
qed

lemma wr64_commute:
  assumes "unat a + 8 \<le> 18446744073709551616" "unat b + 8 \<le> 18446744073709551616"
    and "unat a + 8 \<le> unat b \<or> unat b + 8 \<le> unat a"
  shows "wr64 (wr64 m a v) b w = wr64 (wr64 m b w) a v"
proof (rule ext)
  fix x :: addr
  have "\<not> (x - a < 8 \<and> x - b < 8)"
    using wr64_in_range [OF assms(1), of x] wr64_in_range [OF assms(2), of x] assms(3)
    by linarith
  then show "wr64 (wr64 m a v) b w x = wr64 (wr64 m b w) a v x"
    by (auto simp: wr64_def)
qed

lemma wr64_overwrite: "wr64 (wr64 m a v) a w = wr64 m a w"
  by (rule ext) (simp add: wr64_def)

lemma wr64_links_outside:
  assumes "unat f + 24 \<le> 18446744073709551616"
    and "unat x < unat f + 8 \<or> unat f + 24 \<le> unat x"
  shows "wr64 m (get_curr_prev f) v x = m x" "wr64 m (get_curr_next f) v x = m x"
proof -
  note u = unat_links [OF assms(1)]
  show "wr64 m (get_curr_prev f) v x = m x"
    by (rule wr64_outside) (use assms u in linarith)+
  show "wr64 m (get_curr_next f) v x = m x"
    by (rule wr64_outside) (use assms u in linarith)+
qed

lemma insert_block_loop_skip:
  assumes "dlseg (mem s) p xs n"
    and "\<forall>x\<in>set xs. x < c \<and> in_segment s (get_curr_next x) 8"
  shows "insert_block_loop s c (hdd xs n) = insert_block_loop s c n"
  using assms
proof (induction xs arbitrary: p)
  case Nil
  show ?case by simp
next
  case (Cons x xs)
  from Cons.prems have "insert_block_loop s c x = insert_block_loop s c (hdd xs n)"
    by (subst insert_block_loop.simps) (simp add: get_next_free_block_def load64_ok)
  also have "\<dots> = insert_block_loop s c n"
    using Cons.prems by (intro Cons.IH [of x]) simp_all
  finally show ?case by simp
qed

lemma insert_block_loop_stop: "\<not> h < c \<Longrightarrow> insert_block_loop s c h = ret h"
  by (subst insert_block_loop.simps) simp

lemma insert_block_ok:
  assumes inv: "fl_inv s (xs @ ys)"
    and px: "fl_pos lo1 hi1 xs" and py: "fl_pos lo2 hi2 ys"
    and b: "hi1 \<le> unat c" "unat c + 24 \<le> lo2"
    and seg: "0 < lo1" "unat (segment_start s) \<le> lo1" "hi2 \<le> unat (segment_end s)"
    and c: "lo1 \<le> unat c" "unat c + 24 \<le> hi2"
  shows "\<exists>s'. insert_block_into_freelist s c = ret s' \<and> fl_inv s' (xs @ c # ys)
          \<and> segment_start s' = segment_start s \<and> segment_end s' = segment_end s
          \<and> (\<forall>x. (\<forall>y\<in>set (xs @ c # ys). unat x < unat y + 8 \<or> unat y + 24 \<le> unat x)
                 \<longrightarrow> mem s' x = mem s x)"
proof -
  let ?e = "segment_end s"
  define P where "P = lastd xs NULL"
  define N where "N = hdd ys NULL"
  let ?m = "mem s"
  have e64: "unat ?e \<le> 18446744073709551616" using unat_lt64 [of ?e] by simp
  have hi2: "hi2 \<le> 18446744073709551616" using seg(3) e64 by simp
  have c24: "unat c + 24 \<le> 18446744073709551616" using c hi2 by simp
  note uc = unat_links [OF c24]
  have bx: "unat x + 24 \<le> unat c \<and> 0 < unat x \<and> unat (segment_start s) \<le> unat x" if "x \<in> set xs" for x
    using fl_posD [OF px that] b seg by simp
  have by': "unat c + 24 \<le> unat y \<and> unat y + 24 \<le> unat ?e" if "y \<in> set ys" for y
    using fl_posD [OF py that] b seg by simp
  have segx: "in_segment s x 8 \<and> in_segment s (get_curr_prev x) 8 \<and> in_segment s (get_curr_next x) 8
      \<and> x \<noteq> NULL \<and> unat x + 24 \<le> 18446744073709551616"
    if "x \<in> set xs" for x
  proof -
    from bx [OF that] c seg have "unat (segment_start s) \<le> unat x" "unat x + 24 \<le> unat ?e" by simp_all
    from links_in_segment [OF this] bx [OF that] c24 show ?thesis
      by (auto simp: NULL_def)
  qed
  have segy: "in_segment s y 8 \<and> in_segment s (get_curr_prev y) 8 \<and> in_segment s (get_curr_next y) 8
      \<and> y \<noteq> NULL \<and> unat y + 24 \<le> 18446744073709551616"
    if "y \<in> set ys" for y
  proof -
    from by' [OF that] c seg have "unat (segment_start s) \<le> unat y" "unat y + 24 \<le> unat ?e" by simp_all
    from links_in_segment [OF this] by' [OF that] e64 show ?thesis
      by (auto simp: NULL_def)
  qed
  have segc: "in_segment s (get_curr_prev c) 8" "in_segment s (get_curr_next c) 8"
    using links_in_segment [of "unat c" c "unat c + 24" s] c seg by simp_all
  have Pin: "P \<in> set xs" if "xs \<noteq> []" using that by (simp add: P_def lastd_in)
  have Nin: "N \<in> set ys" if "ys \<noteq> []" using that by (simp add: N_def hdd_in)
  from inv have dx: "dlseg ?m NULL xs N" and dy: "dlseg ?m P ys NULL"
    and hd: "list_head s = (if xs = [] then N else hdd xs NULL)"
    and tl: "list_end s = (if ys = [] then P else lastd ys NULL)"
    and cnt: "free_blocks_num s = of_nat (length xs + length ys)"
    by (simp_all add: fl_inv_def dlseg_append hdd_append_if lastd_append_if P_def N_def)
  define m1 where "m1 = (if xs = [] then ?m else wr64 ?m (get_curr_next P) c)"
  define m2 where "m2 = (if ys = [] then m1 else wr64 m1 (get_curr_prev N) c)"
  define m3 where "m3 = wr64 (wr64 m2 (get_curr_prev c) P) (get_curr_next c) N"
  text \<open>the four paths of the code\<close>
  have run: "\<exists>s'. insert_block_into_freelist s c = ret s' \<and> mem s' = m3
      \<and> list_head s' = hdd (xs @ c # ys) NULL \<and> list_end s' = lastd (xs @ c # ys) NULL
      \<and> free_blocks_num s' = free_blocks_num s + 1
      \<and> segment_start s' = segment_start s \<and> segment_end s' = ?e"
  proof (cases "xs = []")
    case xe: True
    show ?thesis
    proof (cases "ys = []")
      case True
      with xe segc hd show ?thesis
        by (simp add: insert_block_into_freelist_def Let_def store64_ok m1_def m2_def m3_def
            P_def N_def)
    next
      case False
      note n = Nin [OF False]
      have hn: "hdd ys c = N" using False by (simp add: N_def hdd_ne [of ys c NULL])
      have "N \<noteq> NULL" "c < N" using segy [OF n] by' [OF n] by (simp_all add: word_less_unat)
      moreover have "wr64 (wr64 (wr64 ?m (get_curr_prev c) NULL) (get_curr_next c) N) (get_curr_prev N) c
          = wr64 (wr64 (wr64 ?m (get_curr_prev N) c) (get_curr_prev c) NULL) (get_curr_next c) N"
        using segy [OF n] by' [OF n] c24
        by (simp add: wr64_commute [of _ "get_curr_prev N"] uc unat_links)
      ultimately show ?thesis
        using xe False segc hd tl segy [OF n] lastd_ne [of ys c NULL]
        by (simp add: insert_block_into_freelist_def Let_def store64_ok m1_def m2_def m3_def
            P_def hn lastd_append_if)
    qed
  next
    case xne: False
    note p = Pin [OF xne]
    have hx: "hdd xs NULL \<in> set xs" using xne by (rule hdd_in)
    have h1: "list_head s \<noteq> NULL" "\<not> c < list_head s"
      using hd xne segx [OF hx] bx [OF hx] by (simp_all add: word_less_unat)
    show ?thesis
    proof (cases "ys = []")
      case True
      have "P < c" using bx [OF p] by (simp add: word_less_unat)
      moreover have "wr64 (wr64 (wr64 ?m (get_curr_prev c) P) (get_curr_next c) NULL) (get_curr_next P) c
          = wr64 (wr64 (wr64 ?m (get_curr_next P) c) (get_curr_prev c) P) (get_curr_next c) NULL"
        using segx [OF p] bx [OF p] c24
        by (simp add: wr64_commute [of _ "get_curr_next P"] uc unat_links)
      ultimately show ?thesis
        using xne True segc h1 hd tl segx [OF p] hdd_ne [of xs c NULL]
        by (simp add: insert_block_into_freelist_def Let_def store64_ok m1_def m2_def m3_def
            N_def hdd_append_if)
    next
      case False
      note n = Nin [OF False]
      have ly: "lastd ys NULL \<in> set ys" using False by (rule lastd_in)
      have h2: "\<not> list_end s < c"
        using tl False by' [OF ly] by (simp add: word_less_unat)
      have nc: "\<not> N < c" using by' [OF n] by (simp add: word_less_unat)
      let ?s1 = "s\<lparr>free_blocks_num := free_blocks_num s + 1\<rparr>"
      have "\<forall>x\<in>set xs. x < c \<and> in_segment ?s1 (get_curr_next x) 8"
      proof
        fix x assume "x \<in> set xs"
        from bx [OF this] segx [OF this] show "x < c \<and> in_segment ?s1 (get_curr_next x) 8"
          by (simp add: word_less_unat)
      qed
      moreover from dx have "dlseg (mem ?s1) NULL xs N" by simp
      ultimately have "insert_block_loop ?s1 c (hdd xs N) = insert_block_loop ?s1 c N"
        by (rule insert_block_loop_skip [rotated])
      then have lp: "insert_block_loop ?s1 c (hdd xs NULL) = ret N"
        using xne nc by (simp add: hdd_ne [of xs NULL N] insert_block_loop_stop)
      have rp: "rd64 ?m (get_curr_prev N) = P"
        using dy False by (cases ys) (simp_all add: N_def)
      show ?thesis
        using xne False segc h1 h2 hd tl segx [OF p] segy [OF n] lp rp
          hdd_ne [of xs c NULL] lastd_ne [of ys c NULL]
        by (simp add: insert_block_into_freelist_def Let_def store64_ok load64_ok m1_def m2_def m3_def
            get_prev_free_block_def hdd_append_if lastd_append_if)
    qed
  qed
  then obtain s' where r: "insert_block_into_freelist s c = ret s'" and ms: "mem s' = m3"
    and hs: "list_head s' = hdd (xs @ c # ys) NULL" and ts: "list_end s' = lastd (xs @ c # ys) NULL"
    and cs: "free_blocks_num s' = free_blocks_num s + 1"
    and ss: "segment_start s' = segment_start s" "segment_end s' = ?e"
    by blast
  have "dlseg m3 NULL (xs @ c # ys) NULL"
    using dx dy px py b(1) b(2) hi2 c24 m1_def m2_def m3_def
    unfolding P_def N_def by (rule dlseg_splice)
  then have inv': "fl_inv s' (xs @ c # ys)"
    using ms hs ts cs cnt by (simp add: fl_inv_def)
  have frame: "mem s' x = ?m x"
    if o: "\<forall>y\<in>set (xs @ c # ys). unat x < unat y + 8 \<or> unat y + 24 \<le> unat x" for x
  proof -
    from o have oc: "unat x < unat c + 8 \<or> unat c + 24 \<le> unat x" by simp
    have f1: "m1 x = ?m x"
    proof (cases "xs = []")
      case True
      then show ?thesis by (simp add: m1_def)
    next
      case False
      from o Pin [OF False] have "unat x < unat P + 8 \<or> unat P + 24 \<le> unat x" by simp
      with False segx [OF Pin [OF False]] show ?thesis
        by (simp add: m1_def wr64_links_outside)
    qed
    have f2: "m2 x = m1 x"
    proof (cases "ys = []")
      case True
      then show ?thesis by (simp add: m2_def)
    next
      case False
      from o Nin [OF False] have "unat x < unat N + 8 \<or> unat N + 24 \<le> unat x" by simp
      with False segy [OF Nin [OF False]] show ?thesis
        by (simp add: m2_def wr64_links_outside)
    qed
    have "m3 x = m2 x"
      using oc c24 by (simp add: m3_def wr64_links_outside)
    with f1 f2 ms show ?thesis by simp
  qed
  from r inv' ss frame show ?thesis by blast
qed

lemma layout_split:
  assumes nz: "segment_start s \<noteq> NULL"
    and l: "layout (segment_start s) (pre @ (f, sz, fr) # post) (segment_end s)"
  shows "0 < unat (segment_start s)" "unat (segment_start s) \<le> unat f"
    "unat f + 8 + unat sz \<le> unat (segment_end s)" "aligned8 sz" "16 \<le> unat sz"
    "layout (segment_start s) pre f" "layout (f + 8 + sz) post (segment_end s)"
    "within (unat (segment_start s)) (unat f) pre"
    "within (unat f + 8 + unat sz) (unat (segment_end s)) post"
    "fl_pos (unat (segment_start s)) (unat f) (frees pre)"
    "fl_pos (unat f + 8 + unat sz) (unat (segment_end s)) (frees post)"
proof -
  let ?a = "segment_start s" and ?e = "segment_end s"
  from layout_appendD [OF l] have l1: "layout ?a pre (blocks_end ?a pre)"
    and l2: "layout (blocks_end ?a pre) ((f, sz, fr) # post) ?e" by simp_all
  from l2 have f: "blocks_end ?a pre = f" by simp
  from l2 f show b: "unat f + 8 + unat sz \<le> unat ?e" "aligned8 sz" "16 \<le> unat sz"
    and l3: "layout (f + 8 + sz) post ?e" by simp_all
  from l1 f show l1': "layout ?a pre f" by simp
  from nz show "0 < unat ?a" by (simp add: NULL_def unat_gt_0)
  from layout_le [OF l1'] show "unat ?a \<le> unat f" .
  from layout_within [OF l1'] show w1: "within (unat ?a) (unat f) pre" .
  from layout_within [OF l3] show w2: "within (unat f + 8 + unat sz) (unat ?e) post"
    by (simp add: unat_blk_end [OF b(1)])
  from layout_fl_pos [OF l1'] show "fl_pos (unat ?a) (unat f) (frees pre)" .
  from layout_fl_pos [OF l3] show "fl_pos (unat f + 8 + unat sz) (unat ?e) (frees post)"
    by (simp add: unat_blk_end [OF b(1)])
qed

lemma aligned8_add: "aligned8 a \<Longrightarrow> aligned8 b \<Longrightarrow> aligned8 (a + b)"
  unfolding aligned8_def FREE_mask
  by (metis add.right_neutral mask_eqs(2))

lemma aligned8_8 [simp]: "aligned8 8"
  by (simp add: aligned8_def FREE_def)

lemma or_FREE_add: "aligned8 x \<Longrightarrow> x OR FREE = x + FREE"
  unfolding aligned8_def by (rule disjunctive_add_eq_or [symmetric])

lemma coalesced_header:
  assumes "aligned8 a" "aligned8 b"
  shows "(a + HEADER_LENGTH + (b OR FREE)) OR FREE = (a + HEADER_LENGTH + b) OR FREE"
proof -
  have ab: "aligned8 (a + HEADER_LENGTH + b)"
    using assms by (simp add: aligned8_add HEADER_LENGTH_def)
  have "a + HEADER_LENGTH + (b OR FREE) = (a + HEADER_LENGTH + b) + FREE"
    using assms(2) by (simp add: or_FREE_add)
  also have "\<dots> = (a + HEADER_LENGTH + b) OR FREE"
    using ab by (simp add: or_FREE_add)
  finally show ?thesis by simp
qed

lemma myfree_coalesce:
  assumes nz: "segment_start s \<noteq> NULL"
    and lay: "layout (segment_start s) (pre @ (cur, sz, False) # (r, rs, True) # post) (segment_end s)"
    and hp: "hdrs (mem s) pre" and hr: "rd64 (mem s) r = rs OR FREE" and hq: "hdrs (mem s) post"
    and hc: "rd64 (mem s) cur AND NOT FREE = sz"
    and fi: "fl_inv s (frees pre @ r # frees post)"
  shows "\<exists>s'. myfree s (cur + HEADER_LENGTH) = ret s'
           \<and> heap_ok s' (pre @ (cur, sz + HEADER_LENGTH + rs, True) # post)
           \<and> segment_start s' = segment_start s \<and> segment_end s' = segment_end s
           \<and> (\<forall>x. \<not> free_extent (pre @ (cur, sz, True) # (r, rs, True) # post) x
                  \<longrightarrow> mem s' x = mem s x)"
proof -
  let ?a = "segment_start s" and ?e = "segment_end s"
  let ?bs = "pre @ (cur, sz, False) # (r, rs, True) # post"
  let ?xs = "frees pre" and ?ys = "frees post"
  define tot where "tot = sz + HEADER_LENGTH + rs"
  let ?bs' = "pre @ (cur, tot, True) # post"
  define P where "P = lastd ?xs NULL"
  define N where "N = hdd ?ys NULL"
  note sp = layout_split [OF nz lay]
  have lay2: "layout ?a ((pre @ [(cur, sz, False)]) @ (r, rs, True) # post) ?e"
    using lay by simp
  note sq = layout_split [OF nz lay2]
  have e64: "unat ?e \<le> 18446744073709551616" using unat_lt64 [of ?e] by simp
  text \<open>arithmetic\<close>
  from sp(7) have r_eq: "cur + 8 + sz = r" by simp
  have ur: "unat r = unat cur + 8 + unat sz"
    using unat_blk_end [OF sp(3)] r_eq by simp
  have utot: "unat tot = unat sz + 8 + unat rs"
    using sq(3) ur e64 by (simp add: tot_def HEADER_LENGTH_def unat_add64)
  have atot: "aligned8 tot"
    using sp(4) sq(4) by (simp add: tot_def HEADER_LENGTH_def aligned8_add)
  have end_eq: "cur + 8 + tot = r + 8 + rs"
    by (simp add: tot_def HEADER_LENGTH_def r_eq [symmetric])
  have c8: "unat cur + 8 \<le> 18446744073709551616" using sp(3) e64 by simp
  have c24: "unat cur + 24 \<le> 18446744073709551616" using sp(3,5) e64 by simp
  have r24: "unat r + 24 \<le> 18446744073709551616" using sq(3,5) e64 by simp
  note uc = unat_links [OF c24] and url = unat_links [OF r24]
  have ptr: "cur + HEADER_LENGTH \<noteq> NULL"
  proof -
    have "unat (cur + HEADER_LENGTH) = unat cur + 8"
      using c24 by (simp add: HEADER_LENGTH_def unat_add64)
    then have "unat (cur + HEADER_LENGTH) \<noteq> unat NULL" by (simp add: NULL_def)
    then show ?thesis by auto
  qed
  have re: "r \<noteq> ?e" using sq(3) by auto
  text \<open>the free list around the right neighbour\<close>
  have pos: "fl_pos (unat ?a) (unat ?e) (?xs @ r # ?ys)"
    using layout_fl_pos [OF lay] by simp
  have gx: "\<forall>x\<in>set ?xs. unat x + 24 \<le> unat cur"
    using sp(10) by (auto simp: fl_pos_def list_all_iff)
  have gy: "\<forall>y\<in>set ?ys. unat r + 8 + unat rs \<le> unat y"
    using sq(11) by (auto simp: fl_pos_def list_all_iff)
  from fi have d0: "dlseg (mem s) NULL (?xs @ r # ?ys) NULL"
    and rp: "rd64 (mem s) (get_curr_prev r) = P" and rn: "rd64 (mem s) (get_curr_next r) = N"
    and hd: "list_head s = (if ?xs = [] then r else hdd ?xs NULL)"
    and tl: "list_end s = (if ?ys = [] then r else lastd ?ys NULL)"
    and cnt: "free_blocks_num s = of_nat (length ?xs + length ?ys) + 1"
    using lastd_ne [of ?ys r NULL]
    by (auto simp: fl_inv_def dlseg_append hdd_append_if lastd_append_if P_def N_def)
  have mem_seg: "in_segment s y 8 \<and> in_segment s (get_curr_prev y) 8 \<and> in_segment s (get_curr_next y) 8
      \<and> y \<noteq> NULL \<and> unat y + 24 \<le> 18446744073709551616"
    if "y \<in> set (?xs @ r # ?ys)" for y
  proof -
    from fl_posD [OF pos that] have "unat ?a \<le> unat y" "unat y + 24 \<le> unat ?e" by simp_all
    with links_in_segment [OF this] sp(1) e64 show ?thesis
      by (auto simp: NULL_def)
  qed
  have sc: "in_segment s cur 8" "in_segment s (get_curr_prev cur) 8" "in_segment s (get_curr_next cur) 8"
    by (rule links_in_segment [of "unat cur" cur "unat cur + 24"]; use sp(2,3,5) in simp)+
  have Pin: "P \<in> set ?xs" if "?xs \<noteq> []" using that by (simp add: P_def lastd_in)
  have Nin: "N \<in> set ?ys" if "?ys \<noteq> []" using that by (simp add: N_def hdd_in)
  have pn: "(P \<noteq> NULL) = (?xs \<noteq> [])"
    using Pin mem_seg by (cases "?xs = []") (auto simp: P_def)
  have nn: "(N \<noteq> NULL) = (?ys \<noteq> [])"
    using Nin mem_seg by (cases "?ys = []") (auto simp: N_def)
  have hdf: "r \<noteq> hdd ?xs NULL" if "?xs \<noteq> []"
    using hdd_in [OF that, of NULL] gx ur by auto
  have tlf: "r \<noteq> lastd ?ys NULL" if "?ys \<noteq> []"
    using lastd_in [OF that, of NULL] gy by auto
  text \<open>the memory after the call\<close>
  define mA where "mA = wr64 (wr64 (mem s) r rs) cur (tot OR FREE)"
  define m1 where "m1 = (if ?xs = [] then mA else wr64 mA (get_curr_next P) cur)"
  define m2 where "m2 = (if ?ys = [] then m1 else wr64 m1 (get_curr_prev N) cur)"
  define m3 where "m3 = wr64 (wr64 m2 (get_curr_prev cur) P) (get_curr_next cur) N"
  have rpA: "rd64 mA (get_curr_prev r) = P" and rnA: "rd64 mA (get_curr_next r) = N"
    unfolding mA_def using rp rn c8 r24 ur sp(5)
    by (simp_all add: rd64_wr64_disj url)
  have hdr': "(sz + HEADER_LENGTH + (rs OR FREE)) OR FREE = tot OR FREE"
    unfolding tot_def using sp(4) sq(4) by (rule coalesced_header)
  have run: "\<exists>s'. myfree s (cur + HEADER_LENGTH) = ret s' \<and> mem s' = m3
      \<and> list_head s' = hdd (?xs @ cur # ?ys) NULL \<and> list_end s' = lastd (?xs @ cur # ?ys) NULL
      \<and> free_blocks_num s' = free_blocks_num s
      \<and> segment_start s' = ?a \<and> segment_end s' = ?e"
    using mem_seg [of r] Pin Nin mem_seg hdf tlf sc ptr
      lastd_ne [of ?ys cur NULL] hdd_ne [of ?xs cur NULL]
    by (cases "?xs = []"; cases "?ys = []")
       (simp_all add: myfree_def Let_def load64_ok hc r_eq [unfolded HEADER_LENGTH_def [symmetric]]
          right_status_of_def re hr hdr_status_free hdr_size_free sq(4) hdr' store64_ok
          get_prev_free_block_def get_next_free_block_def mA_def [symmetric] rpA rnA pn nn
          P_def [symmetric] N_def [symmetric] hd tl m1_def m2_def m3_def
          hdd_append_if lastd_append_if)
  from run obtain s' where s': "myfree s (cur + HEADER_LENGTH) = ret s'" "mem s' = m3"
      "list_head s' = hdd (?xs @ cur # ?ys) NULL" "list_end s' = lastd (?xs @ cur # ?ys) NULL"
      "free_blocks_num s' = free_blocks_num s" "segment_start s' = ?a" "segment_end s' = ?e"
    by blast
  text \<open>the layout\<close>
  have lmid: "layout cur ((cur, tot, True) # post) ?e"
    using sq(3,7) sp(5) atot utot ur by (simp add: end_eq)
  have lay': "layout ?a ?bs' ?e"
    using sp(6) lmid by (rule layout_appendI)
  note w' = layout_within [OF lay']
  text \<open>the free list\<close>
  have cr: "unat r \<le> unat g \<or> unat g + 24 \<le> unat r" if "g \<in> set (?xs @ r # ?ys)" for g
    using that gx gy ur by force
  have cc: "unat cur \<le> unat g \<or> unat g + 24 \<le> unat cur" if "g \<in> set (?xs @ r # ?ys)" for g
    using that gx gy ur by force
  have dA: "dlseg mA NULL (?xs @ r # ?ys) NULL"
    unfolding mA_def
    by (intro dlseg_wr64_frame [OF _ pos e64] d0 c8 cr cc) (use r24 in linarith)+
  have d3: "dlseg m3 NULL (?xs @ cur # ?ys) NULL"
  proof (rule dlseg_replace [where m = mA and f = r and ?m1.0 = m1 and ?m2.0 = m2, OF dA sp(10) sq(11)])
    show "unat cur \<le> unat cur" by simp
    show "unat cur + 24 \<le> unat r + 8 + unat rs" using ur sp(5) by simp
    show "unat ?e \<le> 18446744073709551616" by (rule e64)
    show "unat cur + 24 \<le> 18446744073709551616" by (rule c24)
    show "m1 = (if ?xs = [] then mA else wr64 mA (get_curr_next (lastd ?xs NULL)) cur)"
      by (simp add: m1_def P_def)
    show "m2 = (if ?ys = [] then m1 else wr64 m1 (get_curr_prev (hdd ?ys NULL)) cur)"
      by (simp add: m2_def N_def)
    show "m3 = wr64 (wr64 m2 (get_curr_prev cur) (lastd ?xs NULL)) (get_curr_next cur) (hdd ?ys NULL)"
      by (simp add: m3_def P_def N_def)
  qed
  have fi': "fl_inv s' (frees ?bs')"
    using d3 s' cnt by (simp add: fl_inv_def)
  text \<open>the headers\<close>
  have hA: "hdrs mA ?bs'"
  proof -
    have "hdrs mA pre"
      unfolding mA_def
      by (intro hdrs_wr64_outside [OF _ sp(8)] hp) (use c8 r24 ur e64 sp(3) in simp_all)
    moreover have "hdrs mA post"
      unfolding mA_def
      by (intro hdrs_wr64_outside [OF _ sq(9)] hq) (use c8 r24 ur e64 sq(5) in simp_all)
    moreover have "rd64 mA cur = tot OR FREE"
      unfolding mA_def by (simp add: rd64_wr64_same)
    ultimately show ?thesis by (simp add: hdr_def)
  qed
  have h1: "hdrs m1 ?bs'"
  proof (cases "?xs = []")
    case True
    with hA show ?thesis by (simp add: m1_def)
  next
    case False
    from frees_subset [OF Pin [OF False]] obtain z where z: "(P, z, True) \<in> set pre" ..
    then have zb: "(P, z, True) \<in> set ?bs'" by simp
    from withinD [OF sp(8) z] mem_seg [of P] Pin [OF False]
    have "hdrs (wr64 mA (get_curr_next P) cur) ?bs'"
      by (intro hdrs_wr64_payload [OF lay' hA zb]) (simp_all add: unat_links)
    with False show ?thesis by (simp add: m1_def)
  qed
  have h2: "hdrs m2 ?bs'"
  proof (cases "?ys = []")
    case True
    with h1 show ?thesis by (simp add: m2_def)
  next
    case False
    from frees_subset [OF Nin [OF False]] obtain z where z: "(N, z, True) \<in> set post" ..
    then have zb: "(N, z, True) \<in> set ?bs'" by simp
    from withinD [OF sq(9) z] mem_seg [of N] Nin [OF False]
    have "hdrs (wr64 m1 (get_curr_prev N) cur) ?bs'"
      by (intro hdrs_wr64_payload [OF lay' h1 zb]) (simp_all add: unat_links)
    with False show ?thesis by (simp add: m2_def)
  qed
  have zc: "(cur, tot, True) \<in> set ?bs'" by simp
  have h3: "hdrs m3 ?bs'"
    unfolding m3_def
    by (intro hdrs_wr64_payload [OF lay' _ zc] h2) (use utot sp(5) in \<open>simp_all add: uc\<close>)
  have ok': "heap_ok s' ?bs'"
    using nz lay' h3 fi' s' by (simp add: heap_ok_def)
  let ?fs = "pre @ (cur, sz, True) # (r, rs, True) # post"
  have wfs: "within (unat ?a) (unat ?e) ?fs"
    using layout_within [OF lay] by (simp add: within_def)
  have "mem s' x = mem s x" if nfe: "\<not> free_extent ?fs x" for x
  proof -
    have oc: "unat x < unat cur \<or> unat cur + 8 + unat sz \<le> unat x"
      using nfe free_extentI [of cur sz ?fs x] by force
    have orr: "unat x < unat r \<or> unat r + 8 + unat rs \<le> unat x"
      using nfe free_extentI [of r rs ?fs x] by force
    have lk: "unat x < unat y + 8 \<or> unat y + 24 \<le> unat x" if "y \<in> set (frees ?fs)" for y
      using not_free_extent_links [OF nfe wfs that] .
    have "wr64 (mem s) r rs x = mem s x"
      by (rule wr64_outside) (use orr r24 in linarith)+
    moreover have "wr64 (wr64 (mem s) r rs) cur (tot OR FREE) x = wr64 (mem s) r rs x"
      by (rule wr64_outside [OF c8]) (use oc sp(5) in linarith)
    ultimately have "mA x = mem s x"
      by (simp add: mA_def)
    moreover have "m1 x = mA x"
    proof (cases "?xs = []")
      case True
      then show ?thesis by (simp add: m1_def)
    next
      case False
      from lk [of P] Pin [OF False] have "unat x < unat P + 8 \<or> unat P + 24 \<le> unat x" by simp
      with False mem_seg [of P] Pin [OF False] show ?thesis
        by (simp add: m1_def wr64_links_outside)
    qed
    moreover have "m2 x = m1 x"
    proof (cases "?ys = []")
      case True
      then show ?thesis by (simp add: m2_def)
    next
      case False
      from lk [of N] Nin [OF False] have "unat x < unat N + 8 \<or> unat N + 24 \<le> unat x" by simp
      with False mem_seg [of N] Nin [OF False] show ?thesis
        by (simp add: m2_def wr64_links_outside)
    qed
    moreover have "m3 x = m2 x"
      using lk [of cur] c24 by (simp add: m3_def wr64_links_outside)
    ultimately show ?thesis using s' by simp
  qed
  with s' ok' show ?thesis unfolding tot_def by blast
qed

lemma myfree_insert:
  assumes nz: "segment_start s \<noteq> NULL"
    and lay: "layout (segment_start s) (pre @ (cur, sz, False) # post) (segment_end s)"
    and hp: "hdrs (mem s) pre" and hq: "hdrs (mem s) post"
    and hc: "rd64 (mem s) cur AND NOT FREE = sz"
    and fi: "fl_inv s (frees pre @ frees post)"
    and nf: "\<not> starts_free post"
  shows "\<exists>s'. myfree s (cur + HEADER_LENGTH) = ret s'
           \<and> heap_ok s' (pre @ (cur, sz, True) # post)
           \<and> segment_start s' = segment_start s \<and> segment_end s' = segment_end s
           \<and> (\<forall>x. \<not> free_extent (pre @ (cur, sz, True) # post) x \<longrightarrow> mem s' x = mem s x)"
proof -
  let ?a = "segment_start s" and ?e = "segment_end s"
  let ?xs = "frees pre" and ?ys = "frees post"
  let ?bs' = "pre @ (cur, sz, True) # post"
  note sp = layout_split [OF nz lay]
  have e64: "unat ?e \<le> 18446744073709551616" using unat_lt64 [of ?e] by simp
  have c8: "unat cur + 8 \<le> 18446744073709551616" using sp(3) e64 by simp
  have c24: "unat cur + 24 \<le> 18446744073709551616" using sp(3,5) e64 by simp
  have ptr: "cur + HEADER_LENGTH \<noteq> NULL"
  proof -
    have "unat (cur + HEADER_LENGTH) = unat cur + 8"
      using c24 by (simp add: HEADER_LENGTH_def unat_add64)
    then have "unat (cur + HEADER_LENGTH) \<noteq> unat NULL" by (simp add: NULL_def)
    then show ?thesis by auto
  qed
  have sc: "in_segment s cur 8"
    by (rule links_in_segment [of "unat cur" cur "unat cur + 24"]; use sp(2,3,5) in simp)
  define s1 where "s1 = s\<lparr>mem := wr64 (mem s) cur (sz OR FREE)\<rparr>"
  text \<open>the right neighbour is absent or in use\<close>
  have rs: "\<exists>st. right_status_of s (cur + HEADER_LENGTH + sz) = ret st \<and> st \<noteq> FREE"
  proof (cases post)
    case Nil
    with sp(7) show ?thesis
      by (simp add: right_status_of_def HEADER_LENGTH_def NON_EXISTENT_def FREE_def)
  next
    case (Cons blk post')
    obtain r rs fr where blk: "blk = (r, rs, fr)" by (cases blk)
    from nf Cons blk have fr: "\<not> fr" by simp
    have lay2: "layout ?a ((pre @ [(cur, sz, False)]) @ (r, rs, False) # post') ?e"
      using lay Cons blk fr by simp
    note sq = layout_split [OF nz lay2]
    from sp(7) Cons blk have r_eq: "cur + 8 + sz = r" by simp
    have re: "r \<noteq> ?e" using sq(3) by auto
    have sr: "in_segment s r 8"
      by (rule links_in_segment [of "unat r" r "unat r + 24"]; use sq(2,3,5) in simp)
    from hq Cons blk fr have "rd64 (mem s) r = rs" by (simp add: hdr_def)
    moreover from sq(4) have "rs AND FREE = 0" by (simp add: aligned8_def)
    ultimately show ?thesis
      using re sr
      by (simp add: right_status_of_def HEADER_LENGTH_def r_eq load64_ok FREE_def)
  qed
  have run: "myfree s (cur + HEADER_LENGTH) = insert_block_into_freelist s1 cur"
    using rs ptr sc
    by (auto simp: myfree_def Let_def load64_ok hc store64_ok s1_def)
  text \<open>the state before the insertion\<close>
  have s1: "segment_start s1 = ?a" "segment_end s1 = ?e" "list_head s1 = list_head s"
    "list_end s1 = list_end s" "free_blocks_num s1 = free_blocks_num s"
    "mem s1 = wr64 (mem s) cur (sz OR FREE)"
    by (simp_all add: s1_def)
  have pos: "fl_pos (unat ?a) (unat ?e) (?xs @ ?ys)"
    using layout_fl_pos [OF lay] by simp
  have gx: "\<forall>x\<in>set ?xs. unat x + 24 \<le> unat cur"
    using sp(10) by (auto simp: fl_pos_def list_all_iff)
  have gy: "\<forall>y\<in>set ?ys. unat cur + 8 + unat sz \<le> unat y"
    using sp(11) by (auto simp: fl_pos_def list_all_iff)
  have cc: "unat cur \<le> unat g \<or> unat g + 24 \<le> unat cur" if "g \<in> set (?xs @ ?ys)" for g
    using that gx gy by force
  from fi have d0: "dlseg (mem s) NULL (?xs @ ?ys) NULL" by (simp add: fl_inv_def)
  have d1: "dlseg (mem s1) NULL (?xs @ ?ys) NULL"
    unfolding s1 by (intro dlseg_wr64_frame [OF _ pos e64] d0 c8 cc)
  with fi have fi1: "fl_inv s1 (?xs @ ?ys)"
    by (simp add: fl_inv_def s1)
  have "\<exists>s'. insert_block_into_freelist s1 cur = ret s' \<and> fl_inv s' (?xs @ cur # ?ys)
          \<and> segment_start s' = segment_start s1 \<and> segment_end s' = segment_end s1
          \<and> (\<forall>x. (\<forall>y\<in>set (?xs @ cur # ?ys). unat x < unat y + 8 \<or> unat y + 24 \<le> unat x)
                 \<longrightarrow> mem s' x = mem s1 x)"
    using fi1 sp(10,11)
    by (rule insert_block_ok) (use sp(1,2,3,5) s1 in simp_all)
  then obtain s' where s': "insert_block_into_freelist s1 cur = ret s'"
    and fi': "fl_inv s' (?xs @ cur # ?ys)"
    and seg': "segment_start s' = ?a" "segment_end s' = ?e"
    and fr': "\<And>x. (\<forall>y\<in>set (?xs @ cur # ?ys). unat x < unat y + 8 \<or> unat y + 24 \<le> unat x)
                 \<Longrightarrow> mem s' x = mem s1 x"
    unfolding s1 by blast
  text \<open>the layout and the headers\<close>
  have lmid: "layout cur ((cur, sz, True) # post) ?e"
    using sp(3,4,5,7) by simp
  have lay': "layout ?a ?bs' ?e"
    using sp(6) lmid by (rule layout_appendI)
  have h1: "hdrs (mem s1) ?bs'"
  proof -
    have "hdrs (mem s1) pre"
      unfolding s1
      by (intro hdrs_wr64_outside [OF _ sp(8)] hp) (use c8 e64 sp(3) in simp_all)
    moreover have "hdrs (mem s1) post"
      unfolding s1
      by (intro hdrs_wr64_outside [OF _ sp(9)] hq) (use c8 e64 in simp_all)
    moreover have "rd64 (mem s1) cur = sz OR FREE"
      unfolding s1 by (simp add: rd64_wr64_same)
    ultimately show ?thesis by (simp add: hdr_def)
  qed
  have h': "hdrs (mem s') ?bs'"
    using lay' h1 by (rule hdrs_links_frame) (use fr' in simp)
  have ok': "heap_ok s' ?bs'"
    using nz lay' h' fi' seg' by (simp add: heap_ok_def)
  have "mem s' x = mem s x" if nfe: "\<not> free_extent ?bs' x" for x
  proof -
    have oc: "unat x < unat cur \<or> unat cur + 8 + unat sz \<le> unat x"
      using nfe free_extentI [of cur sz ?bs' x] by force
    have lk: "unat x < unat y + 8 \<or> unat y + 24 \<le> unat x" if "y \<in> set (frees ?bs')" for y
      using not_free_extent_links [OF nfe layout_within [OF lay'] that] .
    have "mem s' x = mem s1 x"
      by (rule fr') (use lk in simp)
    also have "\<dots> = mem s x"
      unfolding s1 by (rule wr64_outside [OF c8]) (use oc sp(5) in linarith)
    finally show ?thesis .
  qed
  with run s' ok' seg' show ?thesis by simp
qed

lemma freed_not_free: "\<not> starts_free post \<Longrightarrow> freed cur sz post = (cur, sz, True) # post"
  by (cases "(cur, sz, post)" rule: freed.cases) simp_all

lemma myfree_relaxed:
  assumes nz: "segment_start s \<noteq> NULL"
    and lay: "layout (segment_start s) (pre @ (cur, sz, False) # post) (segment_end s)"
    and hp: "hdrs (mem s) pre" and hq: "hdrs (mem s) post"
    and hc: "rd64 (mem s) cur AND NOT FREE = sz"
    and fi: "fl_inv s (frees pre @ frees post)"
  shows "\<exists>s'. myfree s (cur + HEADER_LENGTH) = ret s'
           \<and> heap_ok s' (pre @ freed cur sz post)
           \<and> segment_start s' = segment_start s \<and> segment_end s' = segment_end s
           \<and> (\<forall>x. \<not> free_extent (pre @ (cur, sz, True) # post) x \<longrightarrow> mem s' x = mem s x)"
proof (cases "starts_free post")
  case False
  from myfree_insert [OF nz lay hp hq hc fi False] False show ?thesis
    by (simp add: freed_not_free)
next
  case True
  then obtain r rs post' where p: "post = (r, rs, True) # post'"
    by (cases post rule: starts_free.cases) auto
  from hq p have hr: "rd64 (mem s) r = rs OR FREE" and hq': "hdrs (mem s) post'"
    by (simp_all add: hdr_def)
  from myfree_coalesce [OF nz lay [unfolded p] hp hr hq' hc] fi p show ?thesis
    by simp
qed

lemma myfree_ok:
  assumes ok: "heap_ok s (pre @ (cur, sz, False) # post)"
  shows "\<exists>s'. myfree s (cur + HEADER_LENGTH) = ret s'
           \<and> heap_ok s' (pre @ freed cur sz post)
           \<and> segment_start s' = segment_start s \<and> segment_end s' = segment_end s
           \<and> (\<forall>x. \<not> free_extent (pre @ (cur, sz, True) # post) x \<longrightarrow> mem s' x = mem s x)"
proof -
  note sp = heap_ok_split [OF ok]
  from ok have nz: "segment_start s \<noteq> NULL"
    and lay: "layout (segment_start s) (pre @ (cur, sz, False) # post) (segment_end s)"
    by (simp_all add: heap_ok_def)
  from sp(13) sp(4) have hc: "rd64 (mem s) cur AND NOT FREE = sz"
    by (simp add: hdr_def hdr_size_used)
  from sp(15) have fi: "fl_inv s (frees pre @ frees post)" by simp
  from nz lay sp(12) sp(14) hc fi show ?thesis by (rule myfree_relaxed)
qed

lemma gap_less: "gap x y \<Longrightarrow> x < y"
  by (simp add: gap_def word_less_unat)

lemma heap_ok_sorted: "heap_ok s bs \<Longrightarrow> sorted_wrt (<) (frees bs)"
proof -
  assume "heap_ok s bs"
  then have "layout (segment_start s) bs (segment_end s)" by (simp add: heap_ok_def)
  from layout_fl_pos [OF this] have "sorted_wrt gap (frees bs)" by (simp add: fl_pos_def)
  then show ?thesis by (rule sorted_wrt_mono_rel [rotated]) (rule gap_less)
qed

lemma fl_inv_at:
  assumes "fl_inv s (xs @ f # ys)" and "sorted_wrt (<) (xs @ f # ys)"
  shows "rd64 (mem s) (get_curr_prev f) = lastd xs NULL"
    "rd64 (mem s) (get_curr_next f) = hdd ys NULL"
    "list_head s = (if xs = [] then f else hdd xs NULL)"
    "list_end s = (if ys = [] then f else lastd ys NULL)"
    "free_blocks_num s = of_nat (length xs + length ys) + 1"
    "xs \<noteq> [] \<Longrightarrow> hdd xs NULL \<noteq> f" "ys \<noteq> [] \<Longrightarrow> lastd ys NULL \<noteq> f"
proof -
  from assms(1) show "rd64 (mem s) (get_curr_prev f) = lastd xs NULL"
    "rd64 (mem s) (get_curr_next f) = hdd ys NULL"
    "list_head s = (if xs = [] then f else hdd xs NULL)"
    "list_end s = (if ys = [] then f else lastd ys NULL)"
    "free_blocks_num s = of_nat (length xs + length ys) + 1"
    using lastd_ne [of ys f NULL]
    by (auto simp: fl_inv_def dlseg_append hdd_append_if lastd_append_if)
  from assms(2) have x: "\<forall>x\<in>set xs. x < f" and y: "\<forall>y\<in>set ys. f < y"
    by (auto simp: sorted_wrt_append)
  show "hdd xs NULL \<noteq> f" if "xs \<noteq> []"
    using hdd_in [OF that, of NULL] x by auto
  show "lastd ys NULL \<noteq> f" if "ys \<noteq> []"
    using lastd_in [OF that, of NULL] y by auto
qed

lemma fresh_two_allocs:
  "\<exists>s1 s2. mymalloc fresh_heap 24 = ret (4104, s1)
      \<and> heap_ok s1 [(4096, 24, False), (4128, 984, True)]
      \<and> mymalloc s1 24 = ret (4136, s2)
      \<and> heap_ok s2 [(4096, 24, False), (4128, 24, False), (4160, 952, True)]"
proof -
  have a: "aligned8 (24 :: size_t)" "16 \<le> unat (24 :: size_t)"
    by (simp_all add: aligned8_iff_dvd)
  have h0: "heap_ok fresh_heap ([] @ (4096, 1016, True) # [])"
    using heap_ok_fresh_heap by simp
  from mymalloc_fit [OF h0, of 24] a obtain s1
    where s1: "mymalloc_loop 24 fresh_heap (list_head fresh_heap) = ret (4096 + HEADER_LENGTH, s1)"
      "heap_ok s1 ([] @ (if (1016 :: size_t) - 24 < HEADER_LENGTH + MIN_BLOCK_SIZE then [(4096, 1016, False)]
         else [(4096, 24, False), (4096 + 24 + HEADER_LENGTH, 1016 - 24 - HEADER_LENGTH, True)]) @ [])"
    by auto
  from s1(2) have h1: "heap_ok s1 ([(4096, 24, False)] @ (4128, 984, True) # [])"
    by (simp add: HEADER_LENGTH_def MIN_BLOCK_SIZE_def)
  from mymalloc_fit [OF h1, of 24] a obtain s2
    where s2: "mymalloc_loop 24 s1 (list_head s1) = ret (4128 + HEADER_LENGTH, s2)"
      "heap_ok s2 ([(4096, 24, False)] @ (if (984 :: size_t) - 24 < HEADER_LENGTH + MIN_BLOCK_SIZE then [(4128, 984, False)]
         else [(4128, 24, False), (4128 + 24 + HEADER_LENGTH, 984 - 24 - HEADER_LENGTH, True)]) @ [])"
    by auto
  from s2(2) have h2: "heap_ok s2 [(4096, 24, False), (4128, 24, False), (4160, 952, True)]"
    by (simp add: HEADER_LENGTH_def MIN_BLOCK_SIZE_def)
  from s1(1) have "mymalloc fresh_heap 24 = ret (4104, s1)"
    by (simp add: mymalloc_def roundup_24 HEADER_LENGTH_def)
  moreover from s2(1) have "mymalloc s1 24 = ret (4136, s2)"
    by (simp add: mymalloc_def roundup_24 HEADER_LENGTH_def)
  ultimately show ?thesis using h1 h2 by auto
qed

lemma fresh_hole:
  "\<exists>s1 s2 s3 s4. mymalloc fresh_heap 24 = ret (4104, s1)
      \<and> mymalloc s1 24 = ret (4136, s2)
      \<and> mymalloc s2 24 = ret (4168, s3)
      \<and> heap_ok s3 [(4096, 24, False), (4128, 24, False), (4160, 24, False), (4192, 920, True)]
      \<and> myfree s3 4136 = ret s4
      \<and> heap_ok s4 [(4096, 24, False), (4128, 24, True), (4160, 24, False), (4192, 920, True)]"
proof -
  have a: "aligned8 (24 :: size_t)" "16 \<le> unat (24 :: size_t)"
    by (simp_all add: aligned8_iff_dvd)
  from fresh_two_allocs obtain s1 s2 where m: "mymalloc fresh_heap 24 = ret (4104, s1)"
    "mymalloc s1 24 = ret (4136, s2)"
    "heap_ok s2 ([(4096, 24, False), (4128, 24, False)] @ (4160, 952, True) # [])"
    by auto
  from mymalloc_fit [OF m(3), of 24] a obtain s3
    where s3: "mymalloc_loop 24 s2 (list_head s2) = ret (4160 + HEADER_LENGTH, s3)"
      "heap_ok s3 ([(4096, 24, False), (4128, 24, False)]
         @ (if (952 :: size_t) - 24 < HEADER_LENGTH + MIN_BLOCK_SIZE then [(4160, 952, False)]
            else [(4160, 24, False), (4160 + 24 + HEADER_LENGTH, 952 - 24 - HEADER_LENGTH, True)]) @ [])"
    by auto
  from s3(2) have h3: "heap_ok s3 ([(4096, 24, False)] @ (4128, 24, False) # [(4160, 24, False), (4192, 920, True)])"
    by (simp add: HEADER_LENGTH_def MIN_BLOCK_SIZE_def)
  from s3(1) have r3: "mymalloc s2 24 = ret (4168, s3)"
    by (simp add: mymalloc_def roundup_24 HEADER_LENGTH_def)
  from myfree_ok [OF h3] obtain s4 where s4: "myfree s3 4136 = ret s4"
    "heap_ok s4 [(4096, 24, False), (4128, 24, True), (4160, 24, False), (4192, 920, True)]"
    by (auto simp: HEADER_LENGTH_def)
  from m r3 h3 s4 show ?thesis by auto
qed

lemma adjacent_free_Cons:
  "adjacent_free ((b, sz, fr) # bs) = ((fr \<and> starts_free bs) \<or> adjacent_free bs)"
  by (cases bs) auto

lemma ends_free_Cons:
  "ends_free ((b, sz, fr) # bs) = (if bs = [] then fr else ends_free bs)"
  by (cases bs) auto

lemma starts_free_append:
  "starts_free (xs @ ys) = (if xs = [] then starts_free ys else starts_free xs)"
  by (cases xs) auto

lemma adjacent_free_append:
  "adjacent_free (xs @ ys) =
     (adjacent_free xs \<or> adjacent_free ys \<or> (ends_free xs \<and> starts_free ys))"
proof (induction xs)
  case Nil
  show ?case by simp
next
  case (Cons x xs)
  obtain b sz fr where x: "x = (b, sz, fr)" by (cases x)
  show ?case
    unfolding x append_Cons adjacent_free_Cons Cons.IH ends_free_Cons starts_free_append
    by auto
qed

lemma fresh_free_frees:
  "\<exists>s1 s2 s3 s4. mymalloc fresh_heap 24 = ret (4104, s1)
      \<and> mymalloc s1 24 = ret (4136, s2)
      \<and> heap_ok s2 [(4096, 24, False), (4128, 24, False), (4160, 952, True)]
      \<and> myfree s2 4104 = ret s3
      \<and> heap_ok s3 [(4096, 24, True), (4128, 24, False), (4160, 952, True)]
      \<and> myfree s3 4136 = ret s4
      \<and> heap_ok s4 [(4096, 24, True), (4128, 984, True)]"
proof -
  from fresh_two_allocs obtain s1 s2 where a: "mymalloc fresh_heap 24 = ret (4104, s1)"
    "mymalloc s1 24 = ret (4136, s2)"
    "heap_ok s2 ([] @ (4096, 24, False) # [(4128, 24, False), (4160, 952, True)])"
    by auto
  from myfree_ok [OF a(3)] obtain s3 where b: "myfree s2 4104 = ret s3"
    "heap_ok s3 ([(4096, 24, True)] @ (4128, 24, False) # [(4160, 952, True)])"
    by (auto simp: HEADER_LENGTH_def)
  from myfree_ok [OF b(2)] obtain s4 where c: "myfree s3 4136 = ret s4"
    "heap_ok s4 [(4096, 24, True), (4128, 984, True)]"
    by (auto simp: HEADER_LENGTH_def)
  from a b c show ?thesis by auto
qed

lemma taken_shape:
  "\<not> starts_free (taken f sz need)" "taken f sz need \<noteq> []" "\<not> adjacent_free (taken f sz need)"
  by (simp_all add: taken_def)

lemma adjacent_free_taken:
  assumes "\<not> adjacent_free (pre @ (f, sz, True) # post)"
  shows "\<not> adjacent_free (pre @ taken f sz need @ post)"
proof -
  from assms have "\<not> adjacent_free pre" "\<not> adjacent_free post" "\<not> starts_free post"
    by (simp_all add: adjacent_free_append adjacent_free_Cons)
  then show ?thesis
    by (simp add: adjacent_free_append taken_shape starts_free_append)
qed

lemma adjacent_free_freed:
  assumes "\<not> adjacent_free (pre @ (cur, sz, False) # post)" and "\<not> ends_free pre"
  shows "\<not> adjacent_free (pre @ freed cur sz post)"
proof -
  from assms have a: "\<not> adjacent_free pre" "\<not> adjacent_free post"
    by (simp_all add: adjacent_free_append adjacent_free_Cons)
  show ?thesis
  proof (cases "starts_free post")
    case False
    with a assms(2) show ?thesis
      by (simp add: freed_not_free adjacent_free_append adjacent_free_Cons)
  next
    case True
    then obtain r rs post' where p: "post = (r, rs, True) # post'"
      by (cases post rule: starts_free.cases) auto
    with a assms(2) show ?thesis
      by (simp add: adjacent_free_append adjacent_free_Cons)
  qed
qed

lemma free_metaI:
  "(b, z, True) \<in> set bs \<Longrightarrow> unat b \<le> unat x \<Longrightarrow> unat x < unat b + 24 \<Longrightarrow> free_meta bs x"
  by (auto simp: free_meta_def list_ex_iff)

lemma free_meta_extent:
  assumes "within lo hi bs" and "free_meta bs x"
  shows "free_extent bs x"
proof -
  from assms(2) obtain b z where m: "(b, z, True) \<in> set bs" "unat b \<le> unat x" "unat x < unat b + 24"
    by (auto simp: free_meta_def list_ex_iff)
  from withinD [OF assms(1) m(1)] m(2,3) show ?thesis
    by (intro free_extentI [OF m(1)]) simp_all
qed

lemma not_free_meta_links:
  assumes "\<not> free_meta bs x" and "y \<in> set (frees bs)"
  shows "unat x < unat y \<or> unat y + 24 \<le> unat x"
proof -
  from assms(2) obtain z where m: "(y, z, True) \<in> set bs" by (auto dest: frees_subset)
  show ?thesis
  proof (rule ccontr)
    assume "\<not> ?thesis"
    then have "unat y \<le> unat x" "unat x < unat y + 24" by simp_all
    from free_metaI [OF m this] assms(1) show False by simp
  qed
qed

lemma mark_used_ok:
  assumes ok: "heap_ok s (pre @ (f, sz, True) # post)"
  shows "\<exists>s1 s'. store64 s f sz = ret s1 \<and> remove_block_from_freelist s1 f = ret s'
           \<and> heap_ok s' (pre @ (f, sz, False) # post)
           \<and> segment_start s' = segment_start s \<and> segment_end s' = segment_end s
           \<and> (\<forall>x. \<not> free_meta (pre @ (f, sz, True) # post) x \<longrightarrow> mem s' x = mem s x)"
proof -
  let ?a = "segment_start s" and ?e = "segment_end s"
  let ?bs = "pre @ (f, sz, True) # post" and ?bs' = "pre @ (f, sz, False) # post"
  let ?xs = "frees pre" and ?ys = "frees post"
  note sp = heap_ok_split [OF ok]
  have e64: "unat ?e \<le> 18446744073709551616" using unat_lt64 [of ?e] by simp
  have f8: "unat f + 8 \<le> 18446744073709551616" using sp(3) e64 by simp
  from ok have lay: "layout ?a ?bs ?e" and nz: "?a \<noteq> NULL" by (simp_all add: heap_ok_def)
  have pos: "fl_pos (unat ?a) (unat ?e) (?xs @ f # ?ys)"
    using layout_fl_pos [OF lay] by simp
  have gx: "\<forall>x\<in>set ?xs. unat x + 24 \<le> unat f" and gy: "\<forall>y\<in>set ?ys. unat f + 24 \<le> unat y"
    using pos by (auto simp: fl_pos_append fl_pos_Cons gap_def)
  from sp(15) have fi: "fl_inv s (?xs @ f # ?ys)" by simp
  have sf: "in_segment s f 8"
    using sp(2,3,5) by (simp add: in_segment_def word_le_unat)
  define s1 where "s1 = s\<lparr>mem := wr64 (mem s) f sz\<rparr>"
  have c: "unat f \<le> unat g \<or> unat g + 24 \<le> unat f" if "g \<in> set (?xs @ f # ?ys)" for g
    using that gx gy by force
  from fi have d0: "dlseg (mem s) NULL (?xs @ f # ?ys) NULL" by (simp add: fl_inv_def)
  have d1: "dlseg (mem s1) NULL (?xs @ f # ?ys) NULL"
    unfolding s1_def using dlseg_wr64_frame [OF d0 pos e64 f8 c] by simp
  have fi1: "fl_inv s1 (?xs @ f # ?ys)"
    using fi d1 by (simp add: fl_inv_def s1_def)
  from remove_block_ok [OF fi1 pos sp(1)] obtain s'
    where s': "remove_block_from_freelist s1 f = ret s'" "fl_inv s' (?xs @ ?ys)"
      "segment_start s' = ?a" "segment_end s' = ?e"
      and fr': "\<And>x. (\<forall>y\<in>set (?xs @ ?ys). unat x < unat y + 8 \<or> unat y + 24 \<le> unat x)
                 \<Longrightarrow> mem s' x = mem s1 x"
    by (auto simp: s1_def)
  have run: "store64 s f sz = ret s1"
    by (simp add: store64_ok sf s1_def)
  have lay': "layout ?a ?bs' ?e" using lay by (rule layout_flag [THEN iffD1])
  have h1: "hdrs (mem s1) ?bs'"
    unfolding s1_def using sp(12,14) sp(8,9) e64 f8 sp(2,3)
    by (auto simp: hdr_def rd64_wr64_same intro!: hdrs_wr64_outside)
  have h': "hdrs (mem s') ?bs'"
    using lay' h1 by (rule hdrs_links_frame) (rule fr', simp)
  have "heap_ok s' ?bs'"
    using nz lay' h' s' by (simp add: heap_ok_def)
  moreover have "mem s' x = mem s x" if "\<not> free_meta ?bs x" for x
  proof -
    have lk: "\<forall>y\<in>set (frees ?bs). unat x < unat y \<or> unat y + 24 \<le> unat x"
      using not_free_meta_links [OF that] by blast
    then have "\<forall>y\<in>set (?xs @ ?ys). unat x < unat y + 8 \<or> unat y + 24 \<le> unat x"
      by (simp add: frees_append) (metis trans_less_add1)
    then have "mem s' x = mem s1 x" by (rule fr')
    moreover have "unat x < unat f \<or> unat f + 24 \<le> unat x"
      using lk by simp
    then have "wr64 (mem s) f sz x = mem s x"
      by (intro wr64_outside f8) auto
    then have "mem s1 x = mem s x" by (simp add: s1_def)
    ultimately show ?thesis by simp
  qed
  ultimately show ?thesis using run s' by blast
qed

lemma right_status_ok:
  assumes ok: "heap_ok s (pre @ post)"
  shows "right_status_of s (blocks_end (segment_start s) pre) = ret (status_of post)"
proof (cases post)
  case Nil
  with ok have "layout (segment_start s) pre (segment_end s)" by (simp add: heap_ok_def)
  from layout_end [OF this] Nil show ?thesis
    by (simp add: right_status_of_def status_of_def)
next
  case (Cons blk post')
  obtain r rs fr where blk: "blk = (r, rs, fr)" by (cases blk)
  note sp = heap_ok_split [OF ok [unfolded Cons blk]]
  from ok Cons blk have "layout (segment_start s) (pre @ (r, rs, fr) # post') (segment_end s)"
    by (simp add: heap_ok_def)
  from layout_appendD(2) [OF this] have r: "blocks_end (segment_start s) pre = r" by simp
  have re: "r \<noteq> segment_end s" using sp(3) by auto
  have sr: "in_segment s r 8"
    using sp(2,3,5) by (simp add: in_segment_def word_le_unat)
  from sp(4) have z: "rs AND FREE = 0" by (simp add: aligned8_def)
  show ?thesis
    using re sr sp(13) z
    by (simp add: r right_status_of_def load64_ok hdr_def hdr_status_free status_of_def Cons blk USED_def)
qed

lemma blocks_end_append: "blocks_end a (xs @ ys) = blocks_end (blocks_end a xs) ys"
  by (induction a xs rule: blocks_end.induct) simp_all

lemma myrealloc_loop_ok:
  assumes ok: "heap_ok s (pre @ post)"
    and be: "blocks_end (segment_start s) pre = cur + HEADER_LENGTH + cs"
  shows "\<exists>s'. myrealloc_loop s cur cs (cur + HEADER_LENGTH + cs) (status_of post)
             = ret (s', grown cs post)
           \<and> heap_ok s' (pre @ absorbed post)
           \<and> segment_start s' = segment_start s \<and> segment_end s' = segment_end s
           \<and> (\<forall>x. \<not> free_meta (pre @ post) x \<longrightarrow> mem s' x = mem s x)"
  using assms
proof (induction post arbitrary: s pre cs)
  case Nil
  have "NON_EXISTENT \<noteq> FREE" by (simp add: NON_EXISTENT_def FREE_def)
  with Nil show ?case
    by (subst myrealloc_loop.simps) (simp add: status_of_def)
next
  case (Cons blk post)
  obtain r rs fr where blk: "blk = (r, rs, fr)" by (cases blk)
  show ?case
  proof (cases fr)
    case False
    have "USED \<noteq> FREE" by (simp add: USED_def FREE_def)
    with Cons.prems False blk show ?thesis
      by (subst myrealloc_loop.simps) (simp add: status_of_def)
  next
    case True
    let ?a = "segment_start s"
    from Cons.prems(1) blk True have ok: "heap_ok s (pre @ (r, rs, True) # post)" by simp
    note sp = heap_ok_split [OF ok]
    from ok have "layout ?a (pre @ (r, rs, True) # post) (segment_end s)"
      by (simp add: heap_ok_def)
    from layout_appendD(2) [OF this] have r: "blocks_end ?a pre = r" by simp
    with Cons.prems(2) have r_eq: "cur + HEADER_LENGTH + cs = r" by simp
    have sr: "in_segment s r 8"
      using sp(2,3,5) by (simp add: in_segment_def word_le_unat)
    from mark_used_ok [OF ok] obtain s1 s2
      where m: "store64 s r rs = ret s1" "remove_block_from_freelist s1 r = ret s2"
        "heap_ok s2 ((pre @ [(r, rs, False)]) @ post)"
        "segment_start s2 = ?a" "segment_end s2 = segment_end s"
        and fr2: "\<And>x. \<not> free_meta (pre @ (r, rs, True) # post) x \<Longrightarrow> mem s2 x = mem s x"
      by auto
    let ?cs = "cs + (HEADER_LENGTH + rs)"
    have be2: "blocks_end (segment_start s2) (pre @ [(r, rs, False)]) = cur + HEADER_LENGTH + ?cs"
      using r m(4) r_eq [symmetric] by (simp add: blocks_end_append HEADER_LENGTH_def)
    from Cons.IH [OF m(3) be2] obtain s'
      where i: "myrealloc_loop s2 cur ?cs (cur + HEADER_LENGTH + ?cs) (status_of post)
             = ret (s', grown ?cs post)"
        "heap_ok s' ((pre @ [(r, rs, False)]) @ absorbed post)"
        "segment_start s' = segment_start s2" "segment_end s' = segment_end s2"
        and fr': "\<And>x. \<not> free_meta ((pre @ [(r, rs, False)]) @ post) x \<Longrightarrow> mem s' x = mem s2 x"
      by auto
    have rs2: "right_status_of s2 (cur + HEADER_LENGTH + ?cs) = ret (status_of post)"
      using right_status_ok [OF m(3)] be2 by simp
    have st: "status_of (blk # post) = FREE" "grown cs (blk # post) = grown ?cs post"
      by (simp_all add: status_of_def blk True)
    have run: "myrealloc_loop s cur cs (cur + HEADER_LENGTH + cs) (status_of (blk # post))
        = ret (s', grown cs (blk # post))"
      unfolding st
      apply (subst myrealloc_loop.simps)
      apply (insert rs2 i(1))
      apply (simp add: r_eq load64_ok sr sp(13) hdr_def hdr_size_free sp(4) hdr_size_used m(1,2)
            Let_def)
      done
    have "mem s' x = mem s x" if nfe: "\<not> free_meta (pre @ blk # post) x" for x
    proof -
      from nfe have "\<not> free_meta ((pre @ [(r, rs, False)]) @ post) x"
        by (auto simp: free_meta_def list_ex_iff blk)
      from fr' [OF this] fr2 [of x] nfe show ?thesis by (simp add: blk True)
    qed
    with run i m True show ?thesis by (simp add: blk)
  qed
qed

lemma heap_ok_heap_at:
  "heap_ok s (pre @ (cur, sz, False) # post) = (heap_at s pre cur sz post \<and> rd64 (mem s) cur = sz)"
  by (auto simp: heap_ok_def heap_at_def hdr_def)

lemma heap_at_merge:
  assumes "heap_at s pre cur cs ((r, rs, False) # post)"
  shows "heap_at s pre cur (cs + (HEADER_LENGTH + rs)) post"
proof -
  let ?a = "segment_start s" and ?e = "segment_end s"
  from assms have nz: "?a \<noteq> NULL"
    and lay: "layout ?a (pre @ (cur, cs, False) # (r, rs, False) # post) ?e"
    and h: "hdrs (mem s) pre" "hdrs (mem s) post"
    and fi: "fl_inv s (frees pre @ frees post)"
    by (simp_all add: heap_at_def)
  note sp = layout_split [OF nz lay]
  have lay2: "layout ?a ((pre @ [(cur, cs, False)]) @ (r, rs, False) # post) ?e"
    using lay by simp
  note sq = layout_split [OF nz lay2]
  have e64: "unat ?e \<le> 18446744073709551616" using unat_lt64 [of ?e] by simp
  from sp(7) have r_eq: "cur + 8 + cs = r" by simp
  have ur: "unat r = unat cur + 8 + unat cs"
    using unat_blk_end [OF sp(3)] r_eq by simp
  let ?cs = "cs + (HEADER_LENGTH + rs)"
  have u: "unat ?cs = unat cs + 8 + unat rs"
    using sq(3) ur e64 by (simp add: HEADER_LENGTH_def unat_add64)
  have a: "aligned8 ?cs"
    using sp(4) sq(4) by (simp add: HEADER_LENGTH_def aligned8_add)
  have end_eq: "cur + 8 + ?cs = r + 8 + rs"
    by (simp add: HEADER_LENGTH_def r_eq [symmetric])
  have "layout cur ((cur, ?cs, False) # post) ?e"
    using sq(3,7) sp(5) a u ur by (simp add: end_eq)
  with sp(6) have "layout ?a (pre @ (cur, ?cs, False) # post) ?e"
    by (rule layout_appendI)
  with nz h fi show ?thesis by (simp add: heap_at_def)
qed

lemma absorbed_split: "absorbed post = absorbed_part post @ unabsorbed post"
  by (induction post rule: absorbed.induct) simp_all

lemma grown_merged: "grown cs post = merged cs (absorbed_part post)"
  by (induction cs post rule: grown.induct) simp_all

lemma absorbed_part_used: "(b, z, fr) \<in> set (absorbed_part post) \<Longrightarrow> \<not> fr"
  by (induction post rule: absorbed_part.induct) (auto split: if_splits)

lemma unabsorbed_not_free: "\<not> starts_free (unabsorbed post)"
  by (induction post rule: unabsorbed.induct) simp_all

lemma heap_at_merged:
  assumes "heap_at s pre cur cs (ab @ rest)" and "\<forall>(b, z, fr)\<in>set ab. \<not> fr"
  shows "heap_at s pre cur (merged cs ab) rest \<and> unat cs \<le> unat (merged cs ab)"
  using assms
proof (induction ab arbitrary: cs)
  case Nil
  then show ?case by simp
next
  case (Cons blk ab)
  obtain r rs fr where blk: "blk = (r, rs, fr)" by (cases blk)
  with Cons.prems have a: "heap_at s pre cur cs ((r, rs, False) # ab @ rest)"
    and u: "\<forall>(b, z, fr)\<in>set ab. \<not> fr" by auto
  let ?a = "segment_start s" and ?e = "segment_end s"
  from a have nz: "?a \<noteq> NULL"
    and lay: "layout ?a ((pre @ [(cur, cs, False)]) @ (r, rs, False) # ab @ rest) ?e"
    and lay0: "layout ?a (pre @ (cur, cs, False) # (r, rs, False) # ab @ rest) ?e"
    by (simp_all add: heap_at_def)
  note sp = layout_split [OF nz lay0] and sq = layout_split [OF nz lay]
  from sp(7) have r_eq: "cur + 8 + cs = r" by simp
  have ur: "unat r = unat cur + 8 + unat cs"
    using unat_blk_end [OF sp(3)] r_eq by simp
  have "unat (cs + (HEADER_LENGTH + rs)) = unat cs + 8 + unat rs"
    using sq(3) ur unat_lt64 [of ?e] by (simp add: HEADER_LENGTH_def unat_add64)
  with Cons.IH [OF heap_at_merge [OF a] u] blk show ?case by simp
qed

lemma myrealloc_in_place:
  assumes ha: "heap_at s pre cur cs post"
    and fit: "needed \<le> cs" and nd: "aligned8 needed" "16 \<le> unat needed"
  shows "\<exists>s'. (if cs - needed < HEADER_LENGTH + MIN_BLOCK_SIZE
               then store64 s cur (cs AND NOT FREE)
               else rbind (store64 s cur (needed AND NOT FREE)) (\<lambda>s.
                    rbind (store64 s (cur + HEADER_LENGTH + needed)
                             ((cs - needed - HEADER_LENGTH) OR FREE)) (\<lambda>s.
                    insert_block_into_freelist s (cur + HEADER_LENGTH + needed)))) = ret s'
           \<and> heap_ok s' (pre @ resized cur cs needed @ post)
           \<and> segment_start s' = segment_start s \<and> segment_end s' = segment_end s
           \<and> (\<forall>x. unat cur + 8 \<le> unat x \<and> unat x < unat cur + 8 + unat needed
                  \<longrightarrow> mem s' x = mem s x)"
proof -
  let ?a = "segment_start s" and ?e = "segment_end s"
  let ?xs = "frees pre" and ?ys = "frees post"
  from ha have nz: "?a \<noteq> NULL"
    and lay: "layout ?a (pre @ (cur, cs, False) # post) ?e"
    and hp: "hdrs (mem s) pre" and hq: "hdrs (mem s) post"
    and fi: "fl_inv s (?xs @ ?ys)"
    by (simp_all add: heap_at_def)
  note sp = layout_split [OF nz lay]
  have e64: "unat ?e \<le> 18446744073709551616" using unat_lt64 [of ?e] by simp
  have c8: "unat cur + 8 \<le> 18446744073709551616" using sp(3) e64 by simp
  have sc: "in_segment s cur 8"
    by (rule links_in_segment [of "unat cur" cur "unat cur + 24"]; use sp(2,3,5) in simp)
  have pos: "fl_pos (unat ?a) (unat ?e) (?xs @ ?ys)"
    using layout_fl_pos [OF lay] by simp
  have gx: "\<forall>x\<in>set ?xs. unat x + 24 \<le> unat cur"
    using sp(10) by (auto simp: fl_pos_def list_all_iff)
  have gy: "\<forall>y\<in>set ?ys. unat cur + 8 + unat cs \<le> unat y"
    using sp(11) by (auto simp: fl_pos_def list_all_iff)
  have cc: "unat cur \<le> unat g \<or> unat g + 24 \<le> unat cur" if "g \<in> set (?xs @ ?ys)" for g
    using that gx gy by force
  from fi have d0: "dlseg (mem s) NULL (?xs @ ?ys) NULL" by (simp add: fl_inv_def)
  have un: "unat needed \<le> unat cs" using fit by (simp add: word_le_unat)
  show ?thesis
  proof (cases "cs - needed < HEADER_LENGTH + MIN_BLOCK_SIZE")
    case True
    define s' where "s' = s\<lparr>mem := wr64 (mem s) cur cs\<rparr>"
    have run: "store64 s cur (cs AND NOT FREE) = ret s'"
      using sc sp(4) by (simp add: store64_ok hdr_size_used s'_def)
    have "dlseg (mem s') NULL (?xs @ ?ys) NULL"
      unfolding s'_def using dlseg_wr64_frame [OF d0 pos e64 c8 cc] by simp
    with fi have fi': "fl_inv s' (frees (pre @ (cur, cs, False) # post))"
      by (simp add: fl_inv_def s'_def)
    have "hdrs (mem s') pre"
      unfolding s'_def using hdrs_wr64_outside [OF hp sp(8) _ c8] e64 sp(3) by simp
    moreover have "hdrs (mem s') post"
      unfolding s'_def using hdrs_wr64_outside [OF hq sp(9) e64 c8] by simp
    moreover have "rd64 (mem s') cur = cs" by (simp add: s'_def rd64_wr64_same)
    ultimately have "hdrs (mem s') (pre @ (cur, cs, False) # post)" by (simp add: hdr_def)
    with nz lay fi' have "heap_ok s' (pre @ resized cur cs needed @ post)"
      using True by (simp add: heap_ok_def resized_def s'_def)
    moreover have "mem s' x = mem s x" if "unat cur + 8 \<le> unat x" for x
      unfolding s'_def using that c8 by (simp add: wr64_outside)
    ultimately show ?thesis using run True by (auto simp: s'_def)
  next
    case False
    define np where "np = cur + HEADER_LENGTH + needed"
    define rem where "rem = cs - needed - HEADER_LENGTH"
    let ?bs' = "pre @ (cur, needed, False) # (np, rem, True) # post"
    have usn: "unat (cs - needed) = unat cs - unat needed" using un by (simp add: unat_sub64)
    have b24: "unat needed + 24 \<le> unat cs"
      using False usn un by (simp add: word_less_unat HEADER_LENGTH_def MIN_BLOCK_SIZE_def)
    have urem: "unat rem = unat cs - unat needed - 8"
      using b24 usn by (simp add: rem_def HEADER_LENGTH_def unat_sub64)
    have arem: "aligned8 rem"
      unfolding rem_def HEADER_LENGTH_def using sp(4) nd(1) b24 by (intro aligned8_diff) simp_all
    have unp: "unat np = unat cur + 8 + unat needed"
      using sp(3) b24 e64 by (simp add: np_def HEADER_LENGTH_def unat_add64)
    have np24: "unat np + 24 \<le> 18446744073709551616" using unp sp(3) b24 e64 by simp
    have np8: "unat np + 8 \<le> 18446744073709551616" using np24 by simp
    have end_eq: "np + 8 + rem = cur + 8 + cs"
      by (simp add: np_def rem_def HEADER_LENGTH_def)
    have np_eq: "cur + 8 + needed = np"
      by (simp add: np_def HEADER_LENGTH_def)
    have snp: "in_segment s np 8"
      by (rule links_in_segment [of "unat np" np "unat np + 24"]; use unp sp(2,3) b24 in simp)
    define s1 where "s1 = s\<lparr>mem := wr64 (wr64 (mem s) cur needed) np (rem OR FREE)\<rparr>"
    have s1: "segment_start s1 = ?a" "segment_end s1 = ?e" "list_head s1 = list_head s"
      "list_end s1 = list_end s" "free_blocks_num s1 = free_blocks_num s"
      "mem s1 = wr64 (wr64 (mem s) cur needed) np (rem OR FREE)"
      by (simp_all add: s1_def)
    have cn: "unat np \<le> unat g \<or> unat g + 24 \<le> unat np" if "g \<in> set (?xs @ ?ys)" for g
      using that gx gy unp b24 by force
    have d1: "dlseg (mem s1) NULL (?xs @ ?ys) NULL"
      unfolding s1
      by (intro dlseg_wr64_frame [OF _ pos e64] d0 c8 np8 cc cn)
    with fi have fi1: "fl_inv s1 (?xs @ ?ys)"
      by (simp add: fl_inv_def s1)
    have "\<exists>s'. insert_block_into_freelist s1 np = ret s' \<and> fl_inv s' (?xs @ np # ?ys)
          \<and> segment_start s' = segment_start s1 \<and> segment_end s' = segment_end s1
          \<and> (\<forall>x. (\<forall>y\<in>set (?xs @ np # ?ys). unat x < unat y + 8 \<or> unat y + 24 \<le> unat x)
                 \<longrightarrow> mem s' x = mem s1 x)"
      using fi1 sp(10,11)
      by (rule insert_block_ok) (use sp(1,2,3,5) s1 unp b24 in simp_all)
    then obtain s' where s': "insert_block_into_freelist s1 np = ret s'"
      and fi': "fl_inv s' (?xs @ np # ?ys)"
      and seg': "segment_start s' = ?a" "segment_end s' = ?e"
      and fr': "\<And>x. (\<forall>y\<in>set (?xs @ np # ?ys). unat x < unat y + 8 \<or> unat y + 24 \<le> unat x)
                 \<Longrightarrow> mem s' x = mem s1 x"
      unfolding s1 by blast
    have run: "rbind (store64 s cur (needed AND NOT FREE)) (\<lambda>s.
                    rbind (store64 s (cur + HEADER_LENGTH + needed)
                             ((cs - needed - HEADER_LENGTH) OR FREE)) (\<lambda>s.
                    insert_block_into_freelist s (cur + HEADER_LENGTH + needed))) = ret s'"
      using sc snp nd(1) s'
      by (simp add: store64_ok hdr_size_used np_def [symmetric] rem_def [symmetric] s1_def)
    have lmid: "layout cur ((cur, needed, False) # (np, rem, True) # post) ?e"
      using sp(3,7) nd arem urem b24 unp
      by (simp add: np_eq end_eq)
    have lay': "layout ?a ?bs' ?e"
      using sp(6) lmid by (rule layout_appendI)
    have h1: "hdrs (mem s1) ?bs'"
    proof -
      have "hdrs (mem s1) pre"
        unfolding s1
        by (intro hdrs_wr64_outside [OF _ sp(8)] hp) (use c8 np24 unp e64 sp(3) in simp_all)
      moreover have "hdrs (mem s1) post"
        unfolding s1
        by (intro hdrs_wr64_outside [OF _ sp(9)] hq) (use c8 np24 unp e64 b24 in simp_all)
      moreover have "rd64 (mem s1) cur = needed"
        unfolding s1 using c8 np24 unp by (simp add: rd64_wr64_disj rd64_wr64_same)
      moreover have "rd64 (mem s1) np = rem OR FREE"
        unfolding s1 by (simp add: rd64_wr64_same)
      ultimately show ?thesis by (simp add: hdr_def)
    qed
    have h': "hdrs (mem s') ?bs'"
      using lay' h1 by (rule hdrs_links_frame) (use fr' in simp)
    have ok': "heap_ok s' (pre @ resized cur cs needed @ post)"
      using nz lay' h' fi' seg' False
      by (simp add: heap_ok_def resized_def np_def [symmetric] rem_def [symmetric])
    have "mem s' x = mem s x"
      if x: "unat cur + 8 \<le> unat x" "unat x < unat cur + 8 + unat needed" for x
    proof -
      have "\<forall>y\<in>set (?xs @ np # ?ys). unat x < unat y + 8 \<or> unat y + 24 \<le> unat x"
        using gx gy x unp un by force
      then have "mem s' x = mem s1 x" by (rule fr')
      also have "\<dots> = wr64 (mem s) cur needed x"
        unfolding s1 by (rule wr64_outside [OF np8]) (use x unp in linarith)
      also have "\<dots> = mem s x"
        by (rule wr64_outside [OF c8]) (use x in linarith)
      finally show ?thesis .
    qed
    with run ok' seg' False show ?thesis by simp
  qed
qed

lemma fit_in_None:
  "fit_in need bs = None \<Longrightarrow> \<forall>(b, z, fr)\<in>set bs. fr \<longrightarrow> z < need"
  by (induction need bs rule: fit_in.induct) (auto split: if_splits)

lemma fit_in_Some:
  "fit_in need bs = Some (f, sz) \<Longrightarrow>
     \<exists>pre post. bs = pre @ (f, sz, True) # post \<and> (\<forall>(b, z, fr)\<in>set pre. fr \<longrightarrow> z < need)
       \<and> need \<le> sz \<and> alloc_in need bs = pre @ taken f sz need @ post"
proof (induction need bs rule: fit_in.induct)
  case (1 need)
  then show ?case by simp
next
  case (2 need b z fr bs)
  show ?case
  proof (cases "fr \<and> need \<le> z")
    case True
    with 2(2) have "(b, z, fr) # bs = [] @ (f, sz, True) # bs" "need \<le> sz"
      "alloc_in need ((b, z, fr) # bs) = [] @ taken f sz need @ bs" by auto
    then show ?thesis by (metis empty_iff list.set(1))
  next
    case False
    with 2 obtain pre post where p: "bs = pre @ (f, sz, True) # post"
      "\<forall>(b, z, fr)\<in>set pre. fr \<longrightarrow> z < need" "need \<le> sz"
      "alloc_in need bs = pre @ taken f sz need @ post" by auto
    from False p have "(b, z, fr) # bs = ((b, z, fr) # pre) @ (f, sz, True) # post"
      "\<forall>(b, z, fr)\<in>set ((b, z, fr) # pre). fr \<longrightarrow> z < need"
      "alloc_in need ((b, z, fr) # bs) = ((b, z, fr) # pre) @ taken f sz need @ post"
      by auto
    with p(3) show ?thesis by blast
  qed
qed

lemma mymalloc_cases:
  assumes ok: "heap_ok s bs" and nd: "aligned8 need" "16 \<le> unat need"
  shows "case fit_in need bs of
           None \<Rightarrow> mymalloc_loop need s (list_head s) = raise (OutOfSegment NULL)
         | Some (f, sz) \<Rightarrow>
             (\<exists>s'. mymalloc_loop need s (list_head s) = ret (f + HEADER_LENGTH, s')
                \<and> heap_ok s' (alloc_in need bs)
                \<and> segment_start s' = segment_start s \<and> segment_end s' = segment_end s
                \<and> (\<forall>x. \<not> free_extent bs x \<longrightarrow> mem s' x = mem s x)
                \<and> (\<forall>x. unat f + 8 \<le> unat x \<and> unat x < unat f + 8 + unat need
                       \<longrightarrow> mem s' x = mem s x))"
proof (cases "fit_in need bs")
  case None
  from mymalloc_nofit [OF ok fit_in_None [OF None]] None show ?thesis by simp
next
  case (Some p)
  obtain f sz where p: "p = (f, sz)" by (cases p)
  from fit_in_Some [OF Some [unfolded p]] obtain pre post
    where b: "bs = pre @ (f, sz, True) # post" "\<forall>(b, z, fr)\<in>set pre. fr \<longrightarrow> z < need"
      "need \<le> sz" "alloc_in need bs = pre @ taken f sz need @ post" by blast
  from mymalloc_fit [OF ok [unfolded b(1)] b(2,3) nd] b(1,4) Some p show ?thesis
    by (simp add: taken_def)
qed

lemma sub_in_range:
  fixes a x n :: "64 word"
  assumes "unat a + unat n \<le> 18446744073709551616" and "x - a < n"
  shows "unat a \<le> unat x \<and> unat x < unat a + unat n"
proof (rule ccontr)
  assume "\<not> (unat a \<le> unat x \<and> unat x < unat a + unat n)"
  then have o: "unat x < unat a \<or> unat a + unat n \<le> unat x" by linarith
  have "unat n \<le> unat (x - a)"
  proof (cases "unat x < unat a")
    case True
    then show ?thesis using assms(1) unat_lt64 [of x] by (simp add: unat_sub64_wrap)
  next
    case False
    then show ?thesis using o by (simp add: unat_sub64)
  qed
  with assms(2) show False by (simp add: word_less_unat)
qed

lemma used_payloadI:
  "(b, z, False) \<in> set bs \<Longrightarrow> unat b + 8 \<le> unat x \<Longrightarrow> unat x < unat b + 8 + unat z
     \<Longrightarrow> used_payload bs x"
  by (auto simp: used_payload_def list_ex_iff)

lemma used_payload_not_header:
  assumes "layout a bs e" and "used_payload bs x" and "(b, z, fr) \<in> set bs"
  shows "unat x < unat b \<or> unat b + 8 \<le> unat x"
proof -
  from assms(2) obtain l zl where l: "(l, zl, False) \<in> set bs"
    "unat l + 8 \<le> unat x" "unat x < unat l + 8 + unat zl"
    by (auto simp: used_payload_def list_ex_iff)
  from sorted_wrt_total [OF layout_sorted [OF assms(1)] l(1) assms(3)] l(2,3)
    withinD [OF layout_within [OF assms(1)] assms(3)]
  show ?thesis by (auto simp: before_def)
qed

lemma used_payload_not_free:
  assumes "layout a bs e" and "used_payload bs x" and "(b, z, True) \<in> set bs"
  shows "unat x < unat b \<or> unat b + 8 + unat z \<le> unat x"
proof -
  from assms(2) obtain l zl where l: "(l, zl, False) \<in> set bs"
    "unat l + 8 \<le> unat x" "unat x < unat l + 8 + unat zl"
    by (auto simp: used_payload_def list_ex_iff)
  from sorted_wrt_total [OF layout_sorted [OF assms(1)] l(1) assms(3)] l(2,3)
  show ?thesis by (auto simp: before_def)
qed

lemma used_payload_not_free_extent:
  assumes "layout a bs e" and "used_payload bs x"
  shows "\<not> free_extent bs x"
  using used_payload_not_free [OF assms]
  by (fastforce simp: free_extent_def list_ex_iff)

lemma heap_ok_frame:
  assumes ok: "heap_ok s bs"
    and m: "\<And>x. \<not> used_payload bs x \<Longrightarrow> mem s' x = mem s x"
    and eq: "segment_start s' = segment_start s" "segment_end s' = segment_end s"
      "list_head s' = list_head s" "list_end s' = list_end s"
      "free_blocks_num s' = free_blocks_num s"
  shows "heap_ok s' bs"
proof -
  let ?a = "segment_start s" and ?e = "segment_end s"
  from ok have lay: "layout ?a bs ?e" and nz: "?a \<noteq> NULL"
    and h: "hdrs (mem s) bs" and fi: "fl_inv s (frees bs)"
    by (simp_all add: heap_ok_def)
  have e64: "unat ?e \<le> 18446744073709551616" using unat_lt64 [of ?e] by simp
  note w = layout_within [OF lay]
  have h': "hdrs (mem s') bs"
  proof (rule hdrs_frame [OF h w e64])
    fix b z fr and x :: addr
    assume "(b, z, fr) \<in> set bs" "unat b \<le> unat x" "unat x < unat b + 8"
    with used_payload_not_header [OF lay, of x b z fr] have "\<not> used_payload bs x" by auto
    then show "mem s' x = mem s x" by (rule m)
  qed
  from fi have d: "dlseg (mem s) NULL (frees bs) NULL" by (simp add: fl_inv_def)
  have d': "dlseg (mem s') NULL (frees bs) NULL"
  proof (rule dlseg_frame [OF d])
    show "list_all (\<lambda>f. unat f + 24 \<le> 18446744073709551616) (frees bs)"
      using layout_fl_pos [OF lay] e64 by (auto simp: fl_pos_def list_all_iff)
  next
    fix f x :: addr
    assume f: "f \<in> set (frees bs)" and x: "unat f + 8 \<le> unat x" "unat x < unat f + 24"
    from f obtain z where z: "(f, z, True) \<in> set bs" by (auto dest: frees_subset)
    from used_payload_not_free [OF lay _ z, of x] x withinD [OF w z]
    have "\<not> used_payload bs x" by auto
    then show "mem s' x = mem s x" by (rule m)
  qed
  from fi d' eq have "fl_inv s' (frees bs)" by (simp add: fl_inv_def)
  with nz lay h' eq show ?thesis by (simp add: heap_ok_def)
qed

lemma fit_in_used: "\<forall>(b, z, fr)\<in>set ab. \<not> fr \<Longrightarrow> fit_in need ab = None"
  by (induction ab) auto

lemma alloc_in_used: "\<forall>(b, z, fr)\<in>set ab. \<not> fr \<Longrightarrow> alloc_in need ab = ab"
  by (induction ab) auto

lemma fit_in_append:
  "fit_in need (xs @ ys) = (case fit_in need xs of None \<Rightarrow> fit_in need ys | Some p \<Rightarrow> Some p)"
  by (induction need xs rule: fit_in.induct) simp_all

lemma alloc_in_append:
  "alloc_in need (xs @ ys) =
     (if fit_in need xs = None then xs @ alloc_in need ys else alloc_in need xs @ ys)"
  by (induction need xs rule: fit_in.induct) auto

lemma alloc_in_keeps: "(b, z, False) \<in> set bs \<Longrightarrow> (b, z, False) \<in> set (alloc_in need bs)"
  by (induction need bs rule: alloc_in.induct) auto

lemma alloc_in_not_free: "\<not> starts_free bs \<Longrightarrow> \<not> starts_free (alloc_in need bs)"
  by (cases bs) auto

lemma alloc_in_result:
  "fit_in need bs = Some (f, sz) \<Longrightarrow> \<exists>z. (f, z, False) \<in> set (alloc_in need bs) \<and> need \<le> z"
proof (induction need bs rule: fit_in.induct)
  case (1 need)
  then show ?case by simp
next
  case (2 need b z fr bs)
  show ?case
  proof (cases "fr \<and> need \<le> z")
    case True
    with 2(2) have "(f, if sz - need < HEADER_LENGTH + MIN_BLOCK_SIZE then sz else need, False)
        \<in> set (alloc_in need ((b, z, fr) # bs))"
      by (auto simp: taken_def)
    moreover from True 2(2) have "need \<le> (if sz - need < HEADER_LENGTH + MIN_BLOCK_SIZE then sz else need)"
      by auto
    ultimately show ?thesis by blast
  next
    case False
    with 2 show ?thesis by auto
  qed
qed

lemma heap_at_store:
  assumes ha: "heap_at s pre cur cs post"
  shows "heap_at (s\<lparr>mem := wr64 (mem s) cur v\<rparr>) pre cur cs post"
proof -
  let ?a = "segment_start s" and ?e = "segment_end s"
  let ?xs = "frees pre" and ?ys = "frees post"
  from ha have nz: "?a \<noteq> NULL"
    and lay: "layout ?a (pre @ (cur, cs, False) # post) ?e"
    and hp: "hdrs (mem s) pre" and hq: "hdrs (mem s) post"
    and fi: "fl_inv s (?xs @ ?ys)"
    by (simp_all add: heap_at_def)
  note sp = layout_split [OF nz lay]
  have e64: "unat ?e \<le> 18446744073709551616" using unat_lt64 [of ?e] by simp
  have c8: "unat cur + 8 \<le> 18446744073709551616" using sp(3) e64 by simp
  have pos: "fl_pos (unat ?a) (unat ?e) (?xs @ ?ys)"
    using layout_fl_pos [OF lay] by simp
  have gx: "\<forall>x\<in>set ?xs. unat x + 24 \<le> unat cur"
    using sp(10) by (auto simp: fl_pos_def list_all_iff)
  have gy: "\<forall>y\<in>set ?ys. unat cur + 8 + unat cs \<le> unat y"
    using sp(11) by (auto simp: fl_pos_def list_all_iff)
  have cc: "unat cur \<le> unat g \<or> unat g + 24 \<le> unat cur" if "g \<in> set (?xs @ ?ys)" for g
    using that gx gy by force
  from fi have d0: "dlseg (mem s) NULL (?xs @ ?ys) NULL" by (simp add: fl_inv_def)
  have "dlseg (wr64 (mem s) cur v) NULL (?xs @ ?ys) NULL"
    using dlseg_wr64_frame [OF d0 pos e64 c8 cc] by simp
  with fi have "fl_inv (s\<lparr>mem := wr64 (mem s) cur v\<rparr>) (?xs @ ?ys)"
    by (simp add: fl_inv_def)
  moreover have "hdrs (wr64 (mem s) cur v) pre"
    using hdrs_wr64_outside [OF hp sp(8) _ c8] e64 sp(3) by simp
  moreover have "hdrs (wr64 (mem s) cur v) post"
    using hdrs_wr64_outside [OF hq sp(9) e64 c8] by simp
  ultimately show ?thesis using nz lay by (simp add: heap_at_def)
qed

lemma myfree_at:
  assumes ha: "heap_at s pre cur cs post" and hc: "rd64 (mem s) cur AND NOT FREE = cs"
  shows "\<exists>s'. myfree s (cur + HEADER_LENGTH) = ret s'
           \<and> heap_ok s' (pre @ freed cur cs post)
           \<and> segment_start s' = segment_start s \<and> segment_end s' = segment_end s
           \<and> (\<forall>x. \<not> free_extent (pre @ (cur, cs, True) # post) x \<longrightarrow> mem s' x = mem s x)"
  using ha hc by (intro myfree_relaxed) (simp_all add: heap_at_def)

lemma myrealloc_fallback:
  assumes ok: "heap_ok s (pre @ (cur, sz, False) # ab @ rest)"
    and ab: "\<forall>(b, z, fr)\<in>set ab. \<not> fr" and nf: "\<not> starts_free rest"
    and nd: "aligned8 needed" "16 \<le> unat needed"
    and small: "merged sz ab < needed"
    and fit: "fit_in needed (pre @ rest) = Some (f, fz)"
  shows "\<exists>s'. rbind (mymalloc_loop needed s (list_head s)) (\<lambda>(new_ptr, s).
               rbind (memcpy s new_ptr (cur + HEADER_LENGTH) sz) (\<lambda>s.
               rbind (store64 s cur (merged sz ab OR FREE)) (\<lambda>s.
               rbind (myfree s (cur + HEADER_LENGTH)) (\<lambda>s.
               ret (new_ptr, s))))) = ret (f + HEADER_LENGTH, s')
           \<and> heap_ok s' (moved needed pre cur (merged sz ab) rest)
           \<and> segment_start s' = segment_start s \<and> segment_end s' = segment_end s
           \<and> (\<forall>i. i < sz \<longrightarrow> mem s' (f + HEADER_LENGTH + i) = mem s (cur + HEADER_LENGTH + i))
           \<and> (\<forall>i. sz \<le> i \<and> i < needed
                  \<longrightarrow> mem s' (f + HEADER_LENGTH + i) = mem s (f + HEADER_LENGTH + i))"
proof -
  let ?a = "segment_start s" and ?e = "segment_end s"
  let ?B1 = "pre @ (cur, sz, False) # ab @ rest"
  define cs where "cs = merged sz ab"
  define pre2 where "pre2 = (if fit_in needed pre = None then pre else alloc_in needed pre)"
  define rest2 where "rest2 = (if fit_in needed pre = None then alloc_in needed rest else rest)"
  let ?B2 = "pre2 @ (cur, sz, False) # ab @ rest2"
  let ?B3 = "pre2 @ (cur, cs, True) # rest2"
  have e64: "unat ?e \<le> 18446744073709551616" using unat_lt64 [of ?e] by simp
  note sp = heap_ok_split [OF ok]
  from ok have lay1: "layout ?a ?B1 ?e" by (simp add: heap_ok_def)
  have fu: "fit_in needed ab = None" "alloc_in needed ab = ab"
    using ab by (simp_all add: fit_in_used alloc_in_used)
  have fit1: "fit_in needed ?B1 = Some (f, fz)"
    using fit fu by (simp add: fit_in_append split: option.splits)
  have al1: "alloc_in needed ?B1 = ?B2"
    using fu by (simp add: alloc_in_append fit_in_append pre2_def rest2_def)
  have nf2: "\<not> starts_free rest2"
    using nf by (simp add: rest2_def alloc_in_not_free)
  have mv: "moved needed pre cur cs rest = ?B3"
    by (simp add: moved_def pre2_def rest2_def)
  text \<open>the new block\<close>
  have "\<exists>z. (f, z, False) \<in> set (pre2 @ rest2) \<and> needed \<le> z"
  proof (cases "fit_in needed pre")
    case None
    with fit have "fit_in needed rest = Some (f, fz)" by (simp add: fit_in_append)
    from alloc_in_result [OF this] None show ?thesis by (auto simp: pre2_def rest2_def)
  next
    case (Some p)
    with fit have "fit_in needed pre = Some (f, fz)" by (simp add: fit_in_append)
    from alloc_in_result [OF this] Some show ?thesis by (auto simp: pre2_def rest2_def)
  qed
  then obtain z where z: "(f, z, False) \<in> set (pre2 @ rest2)" "needed \<le> z" by blast
  then have z2: "(f, z, False) \<in> set ?B2" and z3: "(f, z, False) \<in> set ?B3" by auto
  text \<open>the allocation\<close>
  from mymalloc_cases [OF ok nd] fit1 al1 obtain s2
    where s2: "mymalloc_loop needed s (list_head s) = ret (f + HEADER_LENGTH, s2)"
      "heap_ok s2 ?B2" "segment_start s2 = ?a" "segment_end s2 = ?e"
      and fr2: "\<And>x. \<not> free_extent ?B1 x \<Longrightarrow> mem s2 x = mem s x"
      and pf2: "\<And>x. unat f + 8 \<le> unat x \<Longrightarrow> unat x < unat f + 8 + unat needed
                 \<Longrightarrow> mem s2 x = mem s x"
    by auto
  from s2(2) have lay2: "layout ?a ?B2 ?e" by (simp add: heap_ok_def s2)
  note sq = heap_ok_split [OF s2(2)]
  note wz = withinD [OF layout_within [OF lay2] z2]
  from s2(2) have "heap_at s2 pre2 cur sz (ab @ rest2)" by (simp add: heap_ok_heap_at)
  from heap_at_merged [OF this ab] have ha2: "heap_at s2 pre2 cur cs rest2"
    and szcs: "unat sz \<le> unat cs" by (simp_all add: cs_def)
  from ha2 have lay3: "layout ?a ?B3 ?e"
    using layout_flag [of ?a pre2 cur cs False rest2 ?e True] by (simp add: heap_at_def s2)
  have csn: "unat cs < unat needed" using small by (simp add: cs_def word_less_unat)
  have nz': "unat needed \<le> unat z" using z(2) by (simp add: word_le_unat)
  have uf: "unat (f + HEADER_LENGTH) = unat f + 8"
    using wz e64 by (simp add: HEADER_LENGTH_def unat_add64)
  have uc: "unat (cur + HEADER_LENGTH) = unat cur + 8"
    using sp(3,5) e64 by (simp add: HEADER_LENGTH_def unat_add64)
  text \<open>the copy\<close>
  define s3 where "s3 = s2\<lparr>mem := (\<lambda>x. if x - (f + HEADER_LENGTH) < sz
        then mem s2 (cur + HEADER_LENGTH + (x - (f + HEADER_LENGTH))) else mem s2 x)\<rparr>"
  have cp: "memcpy s2 (f + HEADER_LENGTH) (cur + HEADER_LENGTH) sz = ret s3"
  proof -
    have "sz \<noteq> 0" using sp(5) by auto
    moreover have "in_segment s2 (cur + HEADER_LENGTH) (unat sz)"
      using sp(2,3) uc by (simp add: in_segment_def word_le_unat s2)
    moreover have "in_segment s2 (f + HEADER_LENGTH) (unat sz)"
      using wz uf szcs csn nz' by (simp add: in_segment_def word_le_unat s2)
    ultimately show ?thesis by (simp add: memcpy_def s3_def)
  qed
  have in_new: "unat f + 8 \<le> unat x \<and> unat x < unat f + 8 + unat sz"
    if "x - (f + HEADER_LENGTH) < sz" for x
    using sub_in_range [OF _ that] uf wz szcs csn nz' e64 by simp
  have ok3: "heap_ok s3 ?B2"
  proof (rule heap_ok_frame [OF s2(2)])
    fix x assume n: "\<not> used_payload ?B2 x"
    have "\<not> x - (f + HEADER_LENGTH) < sz"
    proof
      assume "x - (f + HEADER_LENGTH) < sz"
      from in_new [OF this] szcs csn nz' have "used_payload ?B2 x"
        by (intro used_payloadI [OF z2]) simp_all
      with n show False by simp
    qed
    then show "mem s3 x = mem s2 x" by (simp add: s3_def)
  qed (simp_all add: s3_def)
  from ok3 have "heap_at s3 pre2 cur sz (ab @ rest2)" by (simp add: heap_ok_heap_at)
  from heap_at_merged [OF this ab] have ha3: "heap_at s3 pre2 cur cs rest2"
    by (simp add: cs_def)
  text \<open>the old block is freed\<close>
  define s4 where "s4 = s3\<lparr>mem := wr64 (mem s3) cur (cs OR FREE)\<rparr>"
  have sc: "in_segment s3 cur 8"
    using sp(2,3,5) by (simp add: in_segment_def word_le_unat s3_def s2)
  have st: "store64 s3 cur (cs OR FREE) = ret s4"
    using sc by (simp add: store64_ok s4_def)
  have ha4: "heap_at s4 pre2 cur cs rest2"
    unfolding s4_def using ha3 by (rule heap_at_store)
  from ha3 have lay3u: "layout ?a (pre2 @ (cur, cs, False) # rest2) ?e"
    and nz: "?a \<noteq> NULL" by (simp_all add: heap_at_def s3_def s2)
  note sr = layout_split [OF nz lay3u]
  have hc4: "rd64 (mem s4) cur AND NOT FREE = cs"
    using sr(4) by (simp add: s4_def rd64_wr64_same hdr_size_free)
  from myfree_at [OF ha4 hc4] nf2 obtain s5
    where s5: "myfree s4 (cur + HEADER_LENGTH) = ret s5" "heap_ok s5 ?B3"
      "segment_start s5 = ?a" "segment_end s5 = ?e"
      and fr5: "\<And>x. \<not> free_extent ?B3 x \<Longrightarrow> mem s5 x = mem s4 x"
    by (auto simp: freed_not_free s4_def s3_def s2)
  have run: "rbind (mymalloc_loop needed s (list_head s)) (\<lambda>(new_ptr, s).
               rbind (memcpy s new_ptr (cur + HEADER_LENGTH) sz) (\<lambda>s.
               rbind (store64 s cur (cs OR FREE)) (\<lambda>s.
               rbind (myfree s (cur + HEADER_LENGTH)) (\<lambda>s.
               ret (new_ptr, s))))) = ret (f + HEADER_LENGTH, s5)"
    by (simp add: s2(1) cp st s5(1))
  text \<open>the payload\<close>
  have new: "unat (f + HEADER_LENGTH + i) = unat f + 8 + unat i
      \<and> mem s5 (f + HEADER_LENGTH + i) = mem s3 (f + HEADER_LENGTH + i)" if i: "i < needed" for i
  proof -
    let ?x = "f + HEADER_LENGTH + i"
    have ui: "unat i < unat needed" using i by (simp add: word_less_unat)
    have ux: "unat ?x = unat f + 8 + unat i"
      using uf wz ui nz' e64 by (simp add: unat_add64)
    have up: "used_payload ?B3 ?x"
      by (rule used_payloadI [OF z3]) (use ux ui nz' in simp_all)
    from used_payload_not_free_extent [OF lay3 up] have "mem s5 ?x = mem s4 ?x" by (rule fr5)
    also have "\<dots> = mem s3 ?x"
    proof -
      have "(cur, cs, True) \<in> set ?B3" by simp
      from used_payload_not_header [OF lay3 up this]
      show ?thesis unfolding s4_def using sp(3) e64 by (simp add: wr64_outside)
    qed
    finally show ?thesis using ux by simp
  qed
  have "mem s5 (f + HEADER_LENGTH + i) = mem s (cur + HEADER_LENGTH + i)" if i: "i < sz" for i
  proof -
    let ?x = "f + HEADER_LENGTH + i"
    have ui: "unat i < unat sz" using i by (simp add: word_less_unat)
    have uy: "unat (cur + HEADER_LENGTH + i) = unat cur + 8 + unat i"
      using uc sp(3) ui e64 by (simp add: unat_add64)
    have "i < needed" using ui szcs csn by (simp add: word_less_unat)
    from new [OF this] have "mem s5 ?x = mem s3 ?x" by simp
    also have "\<dots> = mem s2 (cur + HEADER_LENGTH + i)"
      using i by (simp add: s3_def)
    also have "\<dots> = mem s (cur + HEADER_LENGTH + i)"
    proof (rule fr2)
      have "used_payload ?B1 (cur + HEADER_LENGTH + i)"
        by (rule used_payloadI [of cur sz]) (use uy ui in simp_all)
      from used_payload_not_free_extent [OF lay1 this]
      show "\<not> free_extent ?B1 (cur + HEADER_LENGTH + i)" .
    qed
    finally show ?thesis .
  qed
  moreover have "mem s5 (f + HEADER_LENGTH + i) = mem s (f + HEADER_LENGTH + i)"
    if i: "sz \<le> i" "i < needed" for i
  proof -
    let ?x = "f + HEADER_LENGTH + i"
    from new [OF i(2)] have ux: "unat ?x = unat f + 8 + unat i"
      and "mem s5 ?x = mem s3 ?x" by simp_all
    note this(2)
    also have "mem s3 ?x = mem s2 ?x"
    proof -
      from i(1) have "\<not> i < sz" by (simp add: not_less)
      then show ?thesis by (simp add: s3_def)
    qed
    also have "\<dots> = mem s ?x"
      by (rule pf2) (use ux i(2) in \<open>simp_all add: word_less_unat\<close>)
    finally show ?thesis .
  qed
  ultimately show ?thesis using run s5 mv unfolding cs_def by auto
qed

lemma unabsorbed_subset: "set (unabsorbed post) \<subseteq> set post"
  by (induction post rule: unabsorbed.induct) auto

lemma free_tail_not_meta:
  assumes "layout a bs e" and "(f, fz, True) \<in> set bs"
    and "unat f + 24 \<le> unat x" "unat x < unat f + 8 + unat fz"
  shows "\<not> free_meta bs x"
proof
  assume "free_meta bs x"
  then obtain b z where m: "(b, z, True) \<in> set bs" "unat b \<le> unat x" "unat x < unat b + 24"
    by (auto simp: free_meta_def list_ex_iff)
  from sorted_wrt_total [OF layout_sorted [OF assms(1)] assms(2) m(1)] assms(3,4) m(2,3)
    withinD [OF layout_within [OF assms(1)] m(1)]
  show False by (auto simp: before_def)
qed

lemma myrealloc_cases:
  assumes ok: "heap_ok s (pre @ (cur, sz, False) # post)"
    and nd: "aligned8 needed" "16 \<le> unat needed"
    and ne: "needed = roundup new_size ALIGNMENT"
  shows "if needed \<le> grown sz post then
           \<exists>s'. myrealloc s (cur + HEADER_LENGTH) new_size = ret (cur + HEADER_LENGTH, s')
             \<and> heap_ok s' (pre @ resized cur (grown sz post) needed @ unabsorbed post)
             \<and> segment_start s' = segment_start s \<and> segment_end s' = segment_end s
             \<and> (\<forall>x. unat cur + 8 \<le> unat x \<and> unat x < unat cur + 8 + unat needed
                      \<and> unat x < unat cur + 8 + unat sz \<longrightarrow> mem s' x = mem s x)
         else
           case fit_in needed (pre @ unabsorbed post) of
             None \<Rightarrow> myrealloc s (cur + HEADER_LENGTH) new_size = raise (OutOfSegment NULL)
           | Some (f, fz) \<Rightarrow>
               \<exists>s'. myrealloc s (cur + HEADER_LENGTH) new_size = ret (f + HEADER_LENGTH, s')
                 \<and> heap_ok s' (moved needed pre cur (grown sz post) (unabsorbed post))
                 \<and> segment_start s' = segment_start s \<and> segment_end s' = segment_end s
                 \<and> (\<forall>i. i < sz \<longrightarrow> mem s' (f + HEADER_LENGTH + i) = mem s (cur + HEADER_LENGTH + i))
                 \<and> (\<forall>i. sz \<le> i \<and> i < needed
                        \<longrightarrow> mem s' (f + HEADER_LENGTH + i) = mem s (f + HEADER_LENGTH + i))"
proof -
  let ?a = "segment_start s" and ?e = "segment_end s"
  let ?ab = "absorbed_part post" and ?rest = "unabsorbed post"
  define cs where "cs = grown sz post"
  have e64: "unat ?e \<le> 18446744073709551616" using unat_lt64 [of ?e] by simp
  note sp = heap_ok_split [OF ok]
  from ok have lay: "layout ?a (pre @ (cur, sz, False) # post) ?e" by (simp add: heap_ok_def)
  have ptr: "cur + HEADER_LENGTH \<noteq> NULL"
  proof -
    have "unat (cur + HEADER_LENGTH) = unat cur + 8"
      using sp(3,5) e64 by (simp add: HEADER_LENGTH_def unat_add64)
    then have "unat (cur + HEADER_LENGTH) \<noteq> unat NULL" by (simp add: NULL_def)
    then show ?thesis by auto
  qed
  have sc: "in_segment s cur 8"
    using sp(2,3,5) by (simp add: in_segment_def word_le_unat)
  have ok0: "heap_ok s ((pre @ [(cur, sz, False)]) @ post)" using ok by simp
  have be: "blocks_end ?a (pre @ [(cur, sz, False)]) = cur + HEADER_LENGTH + sz"
    using layout_end [OF sp(6)] by (simp add: blocks_end_append HEADER_LENGTH_def)
  from right_status_ok [OF ok0] be
  have rs: "right_status_of s (cur + HEADER_LENGTH + sz) = ret (status_of post)" by simp
  from myrealloc_loop_ok [OF ok0 be] obtain s1
    where s1: "myrealloc_loop s cur sz (cur + HEADER_LENGTH + sz) (status_of post) = ret (s1, cs)"
      "heap_ok s1 (pre @ (cur, sz, False) # ?ab @ ?rest)"
      "segment_start s1 = ?a" "segment_end s1 = ?e"
      and fr1: "\<And>x. \<not> free_meta (pre @ (cur, sz, False) # post) x \<Longrightarrow> mem s1 x = mem s x"
    by (auto simp: cs_def absorbed_split)
  have unf: "myrealloc s (cur + HEADER_LENGTH) new_size =
      (if needed \<le> cs then
         rbind (if cs - needed < HEADER_LENGTH + MIN_BLOCK_SIZE
                then store64 s1 cur (cs AND NOT FREE)
                else rbind (store64 s1 cur (needed AND NOT FREE)) (\<lambda>s.
                     rbind (store64 s (cur + HEADER_LENGTH + needed)
                             ((cs - needed - HEADER_LENGTH) OR FREE)) (\<lambda>s.
                     insert_block_into_freelist s (cur + HEADER_LENGTH + needed))))
           (\<lambda>s. ret (cur + HEADER_LENGTH, s))
       else
         rbind (mymalloc_loop needed s1 (list_head s1)) (\<lambda>(new_ptr, s).
         rbind (memcpy s new_ptr (cur + HEADER_LENGTH) sz) (\<lambda>s.
         rbind (store64 s cur (cs OR FREE)) (\<lambda>s.
         rbind (myfree s (cur + HEADER_LENGTH)) (\<lambda>s.
         ret (new_ptr, s))))))"
    using ptr sc
    by (simp add: myrealloc_def Let_def load64_ok sp(13) hdr_def hdr_size_used sp(4) rs s1(1)
        ne [symmetric] mymalloc_def cong del: rbind_cong_weak)
  have abu: "\<forall>(b, z, fr)\<in>set ?ab. \<not> fr"
    by (auto dest: absorbed_part_used)
  have csm: "cs = merged sz ?ab" by (simp add: cs_def grown_merged)
  have used: "\<not> free_meta (pre @ (cur, sz, False) # post) x"
    if "unat cur + 8 \<le> unat x" "unat x < unat cur + 8 + unat sz" for x
  proof -
    have "\<not> free_extent (pre @ (cur, sz, False) # post) x"
      by (rule used_payload_not_free_extent [OF lay])
         (rule used_payloadI [of cur sz], use that in simp_all)
    with free_meta_extent [OF layout_within [OF lay]] show ?thesis by blast
  qed
  show ?thesis
  proof (cases "needed \<le> cs")
    case True
    from s1(2) have "heap_at s1 pre cur sz (?ab @ ?rest)" by (simp add: heap_ok_heap_at)
    from heap_at_merged [OF this abu] have "heap_at s1 pre cur cs ?rest" by (simp add: csm)
    from myrealloc_in_place [OF this True nd] obtain s'
      where s': "(if cs - needed < HEADER_LENGTH + MIN_BLOCK_SIZE
               then store64 s1 cur (cs AND NOT FREE)
               else rbind (store64 s1 cur (needed AND NOT FREE)) (\<lambda>s.
                    rbind (store64 s (cur + HEADER_LENGTH + needed)
                             ((cs - needed - HEADER_LENGTH) OR FREE)) (\<lambda>s.
                    insert_block_into_freelist s (cur + HEADER_LENGTH + needed)))) = ret s'"
        "heap_ok s' (pre @ resized cur cs needed @ ?rest)"
        "segment_start s' = segment_start s1" "segment_end s' = segment_end s1"
        and fr': "\<And>x. unat cur + 8 \<le> unat x \<Longrightarrow> unat x < unat cur + 8 + unat needed
                  \<Longrightarrow> mem s' x = mem s1 x"
      by blast
    have "myrealloc s (cur + HEADER_LENGTH) new_size = ret (cur + HEADER_LENGTH, s')"
      unfolding unf using True s'(1) by simp
    moreover have "mem s' x = mem s x"
      if "unat cur + 8 \<le> unat x" "unat x < unat cur + 8 + unat needed"
        "unat x < unat cur + 8 + unat sz" for x
      using fr' [of x] fr1 [OF used, of x] that by simp
    ultimately show ?thesis using True s' s1(3,4) by (auto simp: cs_def)
  next
    case False
    then have small: "merged sz ?ab < needed" by (simp add: csm)
    have fu: "fit_in needed ?ab = None" using abu by (simp add: fit_in_used)
    show ?thesis
    proof (cases "fit_in needed (pre @ ?rest)")
      case None
      then have "fit_in needed (pre @ (cur, sz, False) # ?ab @ ?rest) = None"
        using fu by (simp add: fit_in_append split: option.splits)
      with mymalloc_cases [OF s1(2) nd]
      have "mymalloc_loop needed s1 (list_head s1) = raise (OutOfSegment NULL)" by simp
      then have "myrealloc s (cur + HEADER_LENGTH) new_size = raise (OutOfSegment NULL)"
        unfolding unf using False by simp
      with None False show ?thesis by (simp add: cs_def)
    next
      case (Some p)
      obtain f fz where p: "p = (f, fz)" by (cases p)
      from myrealloc_fallback [OF s1(2) abu unabsorbed_not_free nd small Some [unfolded p]]
      obtain s' where "rbind (mymalloc_loop needed s1 (list_head s1)) (\<lambda>(new_ptr, s).
               rbind (memcpy s new_ptr (cur + HEADER_LENGTH) sz) (\<lambda>s.
               rbind (store64 s cur (cs OR FREE)) (\<lambda>s.
               rbind (myfree s (cur + HEADER_LENGTH)) (\<lambda>s.
               ret (new_ptr, s))))) = ret (f + HEADER_LENGTH, s')"
        "heap_ok s' (moved needed pre cur cs ?rest)"
        "segment_start s' = segment_start s1" "segment_end s' = segment_end s1"
        "\<And>i. i < sz \<Longrightarrow> mem s' (f + HEADER_LENGTH + i) = mem s1 (cur + HEADER_LENGTH + i)"
        "\<And>i. sz \<le> i \<Longrightarrow> i < needed
           \<Longrightarrow> mem s' (f + HEADER_LENGTH + i) = mem s1 (f + HEADER_LENGTH + i)"
        unfolding csm by blast
      moreover have "mem s1 (cur + HEADER_LENGTH + i) = mem s (cur + HEADER_LENGTH + i)"
        if i: "i < sz" for i
      proof (rule fr1 [OF used])
        have ui: "unat i < unat sz" using i by (simp add: word_less_unat)
        have "unat (cur + HEADER_LENGTH + i) = unat cur + 8 + unat i"
          using sp(3) ui e64 by (simp add: HEADER_LENGTH_def unat_add64)
        with ui show "unat cur + 8 \<le> unat (cur + HEADER_LENGTH + i)"
          "unat (cur + HEADER_LENGTH + i) < unat cur + 8 + unat sz" by simp_all
      qed
      moreover have "mem s1 (f + HEADER_LENGTH + i) = mem s (f + HEADER_LENGTH + i)"
        if i: "sz \<le> i" "i < needed" for i
      proof (rule fr1)
        from fit_in_Some [OF Some [unfolded p]] obtain pre' post'
          where pp: "pre @ ?rest = pre' @ (f, fz, True) # post'" and nfz: "needed \<le> fz"
          by blast
        have "(f, fz, True) \<in> set (pre @ ?rest)" unfolding pp by simp
        with unabsorbed_subset [of post]
        have m: "(f, fz, True) \<in> set (pre @ (cur, sz, False) # post)" by auto
        note w = withinD [OF layout_within [OF lay] m]
        have ui: "unat sz \<le> unat i" "unat i < unat needed" "unat needed \<le> unat fz"
          using i nfz by (simp_all add: word_less_unat word_le_unat)
        have ux: "unat (f + HEADER_LENGTH + i) = unat f + 8 + unat i"
          using w ui e64 by (simp add: HEADER_LENGTH_def unat_add64)
        show "\<not> free_meta (pre @ (cur, sz, False) # post) (f + HEADER_LENGTH + i)"
          by (rule free_tail_not_meta [OF lay m]) (use ux ui sp(5) in simp_all)
      qed
      ultimately show ?thesis
        using False Some p s1(3,4) unfolding unf by (auto simp: cs_def)
    qed
  qed
qed

lemma unat_of_nat64: "k < 18446744073709551616 \<Longrightarrow> unat (of_nat k :: 64 word) = k"
  by (simp add: unat_of_nat)

lemma count_le:
  assumes "i \<le> n" "n < 18446744073709551615"
  shows "((of_nat i + 1 :: 64 word) \<le> of_nat n) = (i < n)"
    "((of_nat i + 1 :: 64 word) = 1) = (i = 0)"
    "((of_nat i + 1 :: 64 word) = of_nat n) = (Suc i = n)"
proof -
  have e: "(of_nat i + 1 :: 64 word) = of_nat (Suc i)" by simp
  have u: "unat (of_nat (Suc i) :: 64 word) = Suc i" "unat (of_nat n :: 64 word) = n"
    by (rule unat_of_nat64, use assms in simp)+
  show "((of_nat i + 1 :: 64 word) \<le> of_nat n) = (i < n)"
    unfolding e word_le_unat u by auto
  have "((of_nat (Suc i) :: 64 word) = 1) = (unat (of_nat (Suc i) :: 64 word) = unat (1 :: 64 word))"
    by (simp only: word_unat_eq_iff)
  then show "((of_nat i + 1 :: 64 word) = 1) = (i = 0)"
    unfolding e u by simp
  have "((of_nat (Suc i) :: 64 word) = of_nat n)
      = (unat (of_nat (Suc i) :: 64 word) = unat (of_nat n :: 64 word))"
    by (simp only: word_unat_eq_iff)
  then show "((of_nat i + 1 :: 64 word) = of_nat n) = (Suc i = n)"
    unfolding e u by simp
qed

lemma fl_pos_length:
  "fl_pos lo hi fl \<Longrightarrow> fl \<noteq> [] \<Longrightarrow> lo + 24 * length fl \<le> hi"
proof (induction fl arbitrary: lo)
  case Nil
  then show ?case by simp
next
  case (Cons x fl)
  show ?case
  proof (cases "fl = []")
    case True
    with Cons.prems show ?thesis by (simp add: fl_pos_Cons)
  next
    case False
    from Cons.prems have "fl_pos (unat x + 24) hi fl"
      by (auto simp: fl_pos_Cons fl_pos_def list_all_iff gap_def)
    from Cons.IH [OF this False] Cons.prems show ?thesis by (simp add: fl_pos_Cons)
  qed
qed

lemma traverse_heap_loop_ok:
  assumes "layout a bs (segment_end s)" and "hdrs (mem s) bs" and "segment_start s \<le> a"
  shows "traverse_heap_loop s a c
           = ret (c + of_nat (length (frees bs)) = free_blocks_num s)"
  using assms
proof (induction bs arbitrary: a c)
  case Nil
  then show ?case
    by (subst traverse_heap_loop.simps) simp
next
  case (Cons x bs)
  obtain b sz fr where x: "x = (b, sz, fr)" by (cases x)
  let ?e = "segment_end s"
  from Cons.prems(1) x have b: "b = a" and az: "aligned8 sz" and z16: "16 \<le> unat sz"
    and le: "unat a + 8 + unat sz \<le> unat ?e" and l': "layout (a + 8 + sz) bs ?e" by simp_all
  from Cons.prems(2) x b have h: "rd64 (mem s) a = hdr sz fr" and h': "hdrs (mem s) bs" by simp_all
  have lt: "a < ?e" using le by (simp add: word_less_unat)
  have sa: "in_segment s a 8"
    using Cons.prems(3) le by (simp add: in_segment_def)
  have nsm: "\<not> sz < MIN_BLOCK_SIZE" using z16 by (simp add: word_less_unat MIN_BLOCK_SIZE_def)
  have st: "hdr sz fr AND NOT FREE = sz" "hdr sz fr AND FREE = (if fr then FREE else USED)"
    using az by (simp_all add: hdr_def hdr_size_free hdr_size_used hdr_status_free aligned8_def USED_def)
  have "unat a \<le> unat (a + 8 + sz)" using unat_blk_end [OF le] by simp
  with Cons.prems(3) have ge: "segment_start s \<le> a + 8 + sz" by (simp add: word_le_unat)
  note ih = Cons.IH [OF l' h' ge]
  have uf: "USED \<noteq> FREE" by (simp add: USED_def FREE_def)
  show ?case
    apply (subst traverse_heap_loop.simps)
    apply (insert ih [of "c + 1"] ih [of c] uf uf [symmetric])
    apply (simp add: lt load64_ok sa h st nsm Let_def x HEADER_LENGTH_def add_ac)
    done
qed

lemma traverse_freelist_forward:
  assumes d: "dlseg (mem s) (lastd xs NULL) ys NULL"
    and good: "\<forall>x\<in>set (xs @ ys). fl_node s x"
    and srt: "sorted_wrt (<) (xs @ ys)"
    and n: "free_blocks_num s = of_nat (length xs + length ys)"
      "length xs + length ys < 18446744073709551615"
  shows "traverse_freelist_loop s False (hdd ys NULL) (of_nat (length xs) + 1) = ret True"
  using assms
proof (induction ys arbitrary: xs)
  case Nil
  from count_le(1) [of "length xs" "length xs"] Nil.prems(4,5) show ?case
    by (subst traverse_freelist_loop.simps) simp
next
  case (Cons y ys)
  let ?n = "length xs + length (y # ys)"
  define k :: size_t where "k = of_nat (length xs) + 1"
  note c = count_le [of "length xs" ?n, OF _ Cons.prems(5)]
  have k: "k \<le> free_blocks_num s" "(k = 1) = (xs = [])" "(k = free_blocks_num s) = (ys = [])"
    unfolding k_def Cons.prems(4) using c by auto
  from Cons.prems(1) have rp: "rd64 (mem s) (get_curr_prev y) = lastd xs NULL"
    and rn: "rd64 (mem s) (get_curr_next y) = hdd ys NULL"
    and d': "dlseg (mem s) (lastd (xs @ [y]) NULL) ys NULL" by simp_all
  from Cons.prems(2) have gy: "fl_node s y" by simp
  have ih0: "traverse_freelist_loop s False (hdd ys NULL) (of_nat (length (xs @ [y])) + 1) = ret True"
    using d' Cons.prems(2,3,4,5) by (intro Cons.IH) simp_all
  have "(of_nat (length (xs @ [y])) + 1 :: size_t) = k + 1"
    by (simp add: k_def)
  with ih0 have ih: "traverse_freelist_loop s False (hdd ys NULL) (k + 1) = ret True"
    by (simp only:)
  have px: "lastd xs NULL \<noteq> NULL \<and> within_heap_range s (lastd xs NULL) \<and> \<not> y \<le> lastd xs NULL"
    if "xs \<noteq> []"
    using lastd_in [OF that, of NULL] Cons.prems(2,3)
    by (auto simp: fl_node_def sorted_wrt_append not_le)
  have py: "hdd ys NULL \<noteq> NULL \<and> within_heap_range s (hdd ys NULL) \<and> \<not> hdd ys NULL \<le> y"
    if "ys \<noteq> []"
    using hdd_in [OF that, of NULL] Cons.prems(2,3)
    by (auto simp: fl_node_def sorted_wrt_append not_le)
  have run: "traverse_freelist_loop s False y k = ret True"
    apply (subst traverse_freelist_loop.simps)
    apply (insert ih gy px py k)
    apply (cases "xs = []"; cases "ys = []")
    apply (simp_all add: fl_node_def load64_ok get_prev_free_block_def
        get_next_free_block_def rp rn Let_def)
    done
  then show ?case by (simp add: k_def)
qed

lemma traverse_freelist_backward:
  assumes d: "dlseg (mem s) NULL xs (hdd ys NULL)"
    and good: "\<forall>x\<in>set (xs @ ys). fl_node s x"
    and srt: "sorted_wrt (<) (xs @ ys)"
    and n: "free_blocks_num s = of_nat (length xs + length ys)"
      "length xs + length ys < 18446744073709551615"
  shows "traverse_freelist_loop s True (lastd xs NULL) (of_nat (length ys) + 1) = ret True"
  using assms
proof (induction xs arbitrary: ys rule: rev_induct)
  case Nil
  from count_le(1) [of "length ys" "length ys"] Nil.prems(4,5) show ?case
    by (subst traverse_freelist_loop.simps) simp
next
  case (snoc x xs)
  let ?n = "length (xs @ [x]) + length ys"
  define k :: size_t where "k = of_nat (length ys) + 1"
  note c = count_le [of "length ys" ?n, OF _ snoc.prems(5)]
  have k: "k \<le> free_blocks_num s" "(k = 1) = (ys = [])" "(k = free_blocks_num s) = (xs = [])"
    unfolding k_def snoc.prems(4) using c by auto
  from snoc.prems(1) have rp: "rd64 (mem s) (get_curr_prev x) = lastd xs NULL"
    and rn: "rd64 (mem s) (get_curr_next x) = hdd ys NULL"
    and d': "dlseg (mem s) NULL xs (hdd (x # ys) NULL)" by (simp_all add: dlseg_append)
  from snoc.prems(2) have gx: "fl_node s x" by simp
  have ih0: "traverse_freelist_loop s True (lastd xs NULL) (of_nat (length (x # ys)) + 1) = ret True"
    using d' snoc.prems(2,3,4,5) by (intro snoc.IH) simp_all
  have "(of_nat (length (x # ys)) + 1 :: size_t) = k + 1"
    by (simp add: k_def)
  with ih0 have ih: "traverse_freelist_loop s True (lastd xs NULL) (k + 1) = ret True"
    by (simp only:)
  have px: "lastd xs NULL \<noteq> NULL \<and> within_heap_range s (lastd xs NULL) \<and> \<not> x \<le> lastd xs NULL"
    if "xs \<noteq> []"
    using lastd_in [OF that, of NULL] snoc.prems(2,3)
    by (auto simp: fl_node_def sorted_wrt_append not_le)
  have py: "hdd ys NULL \<noteq> NULL \<and> within_heap_range s (hdd ys NULL) \<and> \<not> hdd ys NULL \<le> x"
    if "ys \<noteq> []"
    using hdd_in [OF that, of NULL] snoc.prems(2,3)
    by (auto simp: fl_node_def sorted_wrt_append not_le)
  have run: "traverse_freelist_loop s True x k = ret True"
    apply (subst traverse_freelist_loop.simps)
    apply (insert ih gx px py k)
    apply (cases "xs = []"; cases "ys = []")
    apply (simp_all add: fl_node_def load64_ok get_prev_free_block_def
        get_next_free_block_def rp rn Let_def)
    done
  then show ?case by (simp add: k_def)
qed

lemma validate_heap_ok:
  assumes ok: "heap_ok s bs"
  shows "validate_heap s = ret True"
proof -
  let ?a = "segment_start s" and ?e = "segment_end s" and ?fl = "frees bs"
  from ok have lay: "layout ?a bs ?e" and nz: "?a \<noteq> NULL"
    and h: "hdrs (mem s) bs" and fi: "fl_inv s ?fl"
    by (simp_all add: heap_ok_def)
  have e64: "unat ?e \<le> 18446744073709551616" using unat_lt64 [of ?e] by simp
  have a0: "0 < unat ?a" using nz by (simp add: NULL_def unat_gt_0)
  note pos = layout_fl_pos [OF lay]
  from fi have d: "dlseg (mem s) NULL ?fl NULL" and hd: "list_head s = hdd ?fl NULL"
    and tl: "list_end s = lastd ?fl NULL" and cnt: "free_blocks_num s = of_nat (length ?fl)"
    by (simp_all add: fl_inv_def)
  have len: "length ?fl < 18446744073709551615"
    using fl_pos_length [OF pos] a0 e64 by (cases "?fl = []") auto
  have good: "\<forall>x\<in>set ?fl. fl_node s x"
  proof
    fix x assume x: "x \<in> set ?fl"
    from fl_posD [OF pos x] have b: "unat ?a \<le> unat x" "unat x + 24 \<le> unat ?e" by simp_all
    from frees_subset [OF x] obtain z where z: "(x, z, True) \<in> set bs" ..
    with h have "rd64 (mem s) x = z OR FREE" by (auto simp: hdrs_def list_all_iff hdr_def)
    then have "rd64 (mem s) x AND FREE = FREE" by (simp add: hdr_status_free)
    moreover have "x \<noteq> NULL" using b a0 by (auto simp: NULL_def)
    moreover have "within_heap_range s x"
      using b \<open>x \<noteq> NULL\<close> by (simp add: within_heap_range_def word_le_unat)
    ultimately show "fl_node s x"
      using links_in_segment [OF b, of s] by (simp add: fl_node_def)
  qed
  note srt = heap_ok_sorted [OF ok]
  have th: "traverse_heap s = ret True"
    using traverse_heap_loop_ok [OF lay h, of 0] cnt by (simp add: traverse_heap_def)
  have z: "(free_blocks_num s = 0) = (?fl = [])"
  proof -
    have "(of_nat (length ?fl) = (0 :: size_t)) = (unat (of_nat (length ?fl) :: size_t) = unat (0 :: size_t))"
      by (simp only: word_unat_eq_iff)
    also have "\<dots> = (length ?fl = 0)" using len by (simp add: unat_of_nat64)
    finally show ?thesis by (simp add: cnt)
  qed
  have bw: "traverse_freelist s True = ret True"
  proof (cases "?fl = []")
    case True
    then show ?thesis using hd tl z by (simp add: traverse_freelist_def)
  next
    case False
    have "traverse_freelist_loop s True (lastd ?fl NULL) (of_nat (length ([] :: addr list)) + 1) = ret True"
      by (rule traverse_freelist_backward) (use d good srt cnt len in simp_all)
    with False z tl show ?thesis by (simp add: traverse_freelist_def)
  qed
  have fw: "traverse_freelist s False = ret True"
  proof (cases "?fl = []")
    case True
    then show ?thesis using hd tl z by (simp add: traverse_freelist_def)
  next
    case False
    have "traverse_freelist_loop s False (hdd ?fl NULL) (of_nat (length ([] :: addr list)) + 1) = ret True"
      by (rule traverse_freelist_forward) (use d good srt cnt len in simp_all)
    with False z hd show ?thesis by (simp add: traverse_freelist_def)
  qed
  show ?thesis by (simp add: validate_heap_def th bw fw)
qed

lemma freed_keeps: "(b, z, False) \<in> set post \<Longrightarrow> (b, z, False) \<in> set (freed cur sz post)"
  by (cases "(cur, sz, post)" rule: freed.cases) auto

lemma unabsorbed_keeps: "(b, z, False) \<in> set post \<Longrightarrow> (b, z, False) \<in> set (unabsorbed post)"
  by (induction post rule: unabsorbed.induct) auto

lemma resized_result:
  "needed \<le> cs \<Longrightarrow> \<exists>z. (cur, z, False) \<in> set (resized cur cs needed) \<and> needed \<le> z"
  by (auto simp: resized_def)

lemma moved_keeps:
  "(b, z, False) \<in> set (pre @ rest) \<Longrightarrow> (b, z, False) \<in> set (moved needed pre cur cs rest)"
  by (auto simp: moved_def alloc_in_keeps)

lemma moved_result:
  assumes "fit_in needed (pre @ rest) = Some (f, fz)"
  shows "\<exists>z. (f, z, False) \<in> set (moved needed pre cur cs rest) \<and> needed \<le> z"
proof (cases "fit_in needed pre")
  case None
  with assms have "fit_in needed rest = Some (f, fz)" by (simp add: fit_in_append)
  from alloc_in_result [OF this] None show ?thesis by (auto simp: moved_def)
next
  case (Some p)
  with assms have "fit_in needed pre = Some (f, fz)" by (simp add: fit_in_append)
  from alloc_in_result [OF this] Some show ?thesis by (auto simp: moved_def)
qed

lemma step_malloc:
  assumes ok: "heap_ok s bs" and lv: "live_ok bs L"
    and r: "unat r \<le> 18446744073709551608" and run: "mymalloc s r = ret (p, s')"
  shows "\<exists>bs'. heap_ok s' bs' \<and> live_ok bs' (L(p \<mapsto> r))"
proof -
  let ?need = "roundup r ALIGNMENT"
  note ru = roundup_ok [OF r]
  from run have run': "mymalloc_loop ?need s (list_head s) = ret (p, s')"
    by (simp add: mymalloc_def)
  show ?thesis
  proof (cases "fit_in ?need bs")
    case None
    with mymalloc_cases [OF ok ru(1,2)] run' show ?thesis by simp
  next
    case (Some x)
    obtain f fz where x: "x = (f, fz)" by (cases x)
    from mymalloc_cases [OF ok ru(1,2)] Some x run'
    have p: "p = f + HEADER_LENGTH" and ok': "heap_ok s' (alloc_in ?need bs)" by auto
    from alloc_in_result [OF Some [unfolded x]] obtain z
      where z: "(f, z, False) \<in> set (alloc_in ?need bs)" "?need \<le> z" by blast
    have "live_ok (alloc_in ?need bs) (L(p \<mapsto> r))"
      unfolding live_ok_def
    proof (intro allI impI)
      fix q rq assume q: "(L(p \<mapsto> r)) q = Some rq"
      show "\<exists>z. (q - HEADER_LENGTH, z, False) \<in> set (alloc_in ?need bs) \<and> rq \<le> z"
      proof (cases "q = p")
        case True
        with q have "rq = r" by simp
        with z ru(3) True p show ?thesis by auto
      next
        case False
        with q lv obtain z' where "(q - HEADER_LENGTH, z', False) \<in> set bs" "rq \<le> z'"
          by (auto simp: live_ok_def)
        then show ?thesis by (auto intro: alloc_in_keeps)
      qed
    qed
    with ok' show ?thesis by blast
  qed
qed

lemma step_free:
  assumes ok: "heap_ok s bs" and lv: "live_ok bs L"
    and p: "L p = Some r" and run: "myfree s p = ret s'"
  shows "\<exists>bs'. heap_ok s' bs' \<and> live_ok bs' (L(p := None))"
proof -
  from lv p obtain sz where m: "(p - HEADER_LENGTH, sz, False) \<in> set bs"
    by (auto simp: live_ok_def)
  then obtain pre post where bs: "bs = pre @ (p - HEADER_LENGTH, sz, False) # post"
    by (auto dest: split_list)
  from myfree_ok [OF ok [unfolded bs]] run
  have ok': "heap_ok s' (pre @ freed (p - HEADER_LENGTH) sz post)" by simp
  have "live_ok (pre @ freed (p - HEADER_LENGTH) sz post) (L(p := None))"
    unfolding live_ok_def
  proof (intro allI impI)
    fix q rq assume q: "(L(p := None)) q = Some rq"
    then have qp: "q \<noteq> p" and "L q = Some rq" by (auto split: if_splits)
    with lv obtain z where z: "(q - HEADER_LENGTH, z, False) \<in> set bs" "rq \<le> z"
      by (auto simp: live_ok_def)
    from qp have "q - HEADER_LENGTH \<noteq> p - HEADER_LENGTH" by simp
    with z(1) bs have "(q - HEADER_LENGTH, z, False) \<in> set pre \<or> (q - HEADER_LENGTH, z, False) \<in> set post"
      by auto
    with z(2) show "\<exists>z. (q - HEADER_LENGTH, z, False) \<in> set (pre @ freed (p - HEADER_LENGTH) sz post) \<and> rq \<le> z"
      by (auto intro: freed_keeps)
  qed
  with ok' show ?thesis by blast
qed

lemma step_realloc:
  assumes ok: "heap_ok s bs" and lv: "live_ok bs L"
    and p: "L p = Some r0" and r: "unat r \<le> 18446744073709551608"
    and run: "myrealloc s p r = ret (q, s')"
  shows "\<exists>bs'. heap_ok s' bs' \<and> live_ok bs' ((L(p := None))(q \<mapsto> r))"
proof -
  let ?need = "roundup r ALIGNMENT"
  let ?cur = "p - HEADER_LENGTH"
  note ru = roundup_ok [OF r]
  from lv p obtain sz where m: "(?cur, sz, False) \<in> set bs"
    by (auto simp: live_ok_def)
  then obtain pre post where bs: "bs = pre @ (?cur, sz, False) # post"
    by (auto dest: split_list)
  let ?cs = "grown sz post" and ?rest = "unabsorbed post"
  note c = myrealloc_cases [OF ok [unfolded bs] ru(1,2) refl]
  have others: "(b, z, False) \<in> set (pre @ ?rest)"
    if "L b' = Some rb" "b' \<noteq> p" "b = b' - HEADER_LENGTH" "(b, z, False) \<in> set bs" for b b' z rb
  proof -
    from that(2,3) have "b \<noteq> ?cur" by simp
    with that(4) bs show ?thesis by (auto intro: unabsorbed_keeps)
  qed
  have main: "live_ok bs' ((L(p := None))(q \<mapsto> r))"
    if keep: "\<And>b z. (b, z, False) \<in> set (pre @ ?rest) \<Longrightarrow> (b, z, False) \<in> set bs'"
      and res: "\<exists>z. (q - HEADER_LENGTH, z, False) \<in> set bs' \<and> ?need \<le> z" for bs'
    unfolding live_ok_def
  proof (intro allI impI)
    fix b rb assume b: "((L(p := None))(q \<mapsto> r)) b = Some rb"
    show "\<exists>z. (b - HEADER_LENGTH, z, False) \<in> set bs' \<and> rb \<le> z"
    proof (cases "b = q")
      case True
      with b have "rb = r" by simp
      with res ru(3) True show ?thesis by auto
    next
      case False
      with b have bp: "b \<noteq> p" and lb: "L b = Some rb" by (auto split: if_splits)
      with lv obtain z where z: "(b - HEADER_LENGTH, z, False) \<in> set bs" "rb \<le> z"
        by (auto simp: live_ok_def)
      from keep [OF others [OF lb bp refl z(1)]] z(2) show ?thesis by blast
    qed
  qed
  show ?thesis
  proof (cases "?need \<le> ?cs")
    case True
    with c run have q: "q = p" and ok': "heap_ok s' (pre @ resized ?cur ?cs ?need @ ?rest)"
      by auto
    have "live_ok (pre @ resized ?cur ?cs ?need @ ?rest) ((L(p := None))(q \<mapsto> r))"
    proof (rule main)
      show "\<exists>z. (q - HEADER_LENGTH, z, False) \<in> set (pre @ resized ?cur ?cs ?need @ ?rest)
          \<and> ?need \<le> z"
        using resized_result [OF True, of ?cur] q by auto
    qed auto
    with ok' show ?thesis by blast
  next
    case False
    show ?thesis
    proof (cases "fit_in ?need (pre @ ?rest)")
      case None
      with c False run show ?thesis by simp
    next
      case (Some x)
      obtain f fz where x: "x = (f, fz)" by (cases x)
      from c False Some x run have q: "q = f + HEADER_LENGTH"
        and ok': "heap_ok s' (moved ?need pre ?cur ?cs ?rest)" by auto
      have "live_ok (moved ?need pre ?cur ?cs ?rest) ((L(p := None))(q \<mapsto> r))"
      proof (rule main)
        show "\<exists>z. (q - HEADER_LENGTH, z, False) \<in> set (moved ?need pre ?cur ?cs ?rest)
            \<and> ?need \<le> z"
          using moved_result [OF Some [unfolded x], of ?cur ?cs] q by simp
      qed (rule moved_keeps)
      with ok' show ?thesis by blast
    qed
  qed
qed

lemma step_write:
  assumes ok: "heap_ok s bs" and lv: "live_ok bs L"
    and p: "L p = Some r" and x: "x - p < r"
  shows "heap_ok (s\<lparr>mem := (mem s)(x := v)\<rparr>) bs"
proof (rule heap_ok_frame [OF ok])
  let ?e = "segment_end s"
  from lv p obtain z where z: "(p - HEADER_LENGTH, z, False) \<in> set bs" "r \<le> z"
    by (auto simp: live_ok_def)
  from ok have lay: "layout (segment_start s) bs ?e" by (simp add: heap_ok_def)
  note w = withinD [OF layout_within [OF lay] z(1)]
  have e64: "unat ?e \<le> 18446744073709551616" using unat_lt64 [of ?e] by simp
  have "unat ((p - 8) + 8) = unat (p - 8) + unat (8 :: 64 word)"
    by (rule unat_add64) (use w e64 in \<open>simp add: HEADER_LENGTH_def\<close>)
  then have up: "unat p = unat (p - HEADER_LENGTH) + 8" by (simp add: HEADER_LENGTH_def)
  have rz: "unat r \<le> unat z" using z(2) by (simp add: word_le_unat)
  have "unat p \<le> unat x \<and> unat x < unat p + unat r"
    by (rule sub_in_range [OF _ x]) (use up w rz e64 in simp)
  with up rz have u: "used_payload bs x"
    by (intro used_payloadI [OF z(1)]) simp_all
  fix y assume "\<not> used_payload bs y"
  with u have "y \<noteq> x" by auto
  then show "mem (s\<lparr>mem := (mem s)(x := v)\<rparr>) y = mem s y" by simp
qed simp_all

lemma myinit_True:
  assumes "myinit s0 heap_start heap_size = ret (True, s)"
  shows "heap_start \<noteq> NULL \<and> HEADER_LENGTH + MIN_BLOCK_SIZE \<le> heap_size"
proof (rule ccontr)
  assume "\<not> (heap_start \<noteq> NULL \<and> HEADER_LENGTH + MIN_BLOCK_SIZE \<le> heap_size)"
  then have "heap_start = NULL \<or> heap_size < HEADER_LENGTH + MIN_BLOCK_SIZE" by auto
  from myinit_refused [OF this, of s0] assms show False by simp
qed

lemma implicit_myinit_True:
  assumes "implicit_myinit t0 heap_start heap_size = ret (True, t)"
  shows "heap_start \<noteq> NULL \<and> HEADER_LENGTH < heap_size"
proof (rule ccontr)
  assume "\<not> (heap_start \<noteq> NULL \<and> HEADER_LENGTH < heap_size)"
  then have "heap_start = NULL \<or> heap_size \<le> HEADER_LENGTH" by (auto simp: not_less)
  from implicit_myinit_refused [OF this, of t0] assms show False by simp
qed

lemma implicit_myinit_iheap_ok:
  assumes "unat heap_start + unat heap_size < 18446744073709551616"
    and "heap_start \<noteq> NULL" and "HEADER_LENGTH < heap_size"
    and "aligned8 heap_size"
  shows "\<exists>t'. implicit_myinit t heap_start heap_size = ret (True, t')
     \<and> iheap_ok t' [(heap_start, heap_size - HEADER_LENGTH, True)]
     \<and> segment_start t' = heap_start \<and> segment_end t' = heap_start + heap_size"
proof -
  have "8 < unat heap_size"
    using assms(3) by (simp add: word_less_unat HEADER_LENGTH_def)
  moreover from assms(4) have "8 dvd unat heap_size" by (simp add: aligned8_iff_dvd)
  ultimately have n: "16 \<le> unat heap_size" by (auto elim!: dvdE)
  have u: "unat (heap_size - HEADER_LENGTH) = unat heap_size - 8"
    using n by (simp add: HEADER_LENGTH_def unat_sub64)
  have al: "aligned8 (heap_size - HEADER_LENGTH)"
    using assms(4) n u by (simp add: aligned8_iff_dvd)
  have e: "heap_start + 8 + (heap_size - HEADER_LENGTH) = heap_start + heap_size"
    by (simp add: HEADER_LENGTH_def)
  have ue: "unat (heap_start + heap_size) = unat heap_start + unat heap_size"
    using assms(1) by (simp add: unat_add64)
  show ?thesis
    using al n u
    by (simp add: implicit_myinit_accepted [OF assms(1,2,3)] iheap_ok_def hdrs_def hdr_def
        rd64_wr64_same e ue)
qed

lemma reach_heap_ok: "reach s L \<Longrightarrow> \<exists>bs. heap_ok s bs \<and> live_ok bs L"
proof (induction rule: reach.induct)
  case (reach_init s0 heap_start heap_size s)
  from myinit_True [OF reach_init(1)]
  have "heap_start \<noteq> NULL" "HEADER_LENGTH + MIN_BLOCK_SIZE \<le> heap_size" by simp_all
  from myinit_heap_ok [OF reach_init(3) this reach_init(2), of s0] reach_init(1)
  have "heap_ok s [(heap_start, heap_size - HEADER_LENGTH, True)]" by simp
  then show ?case by (auto simp: live_ok_def)
next
  case (reach_malloc s L r p s')
  from reach_malloc.IH obtain bs where "heap_ok s bs" "live_ok bs L" by blast
  then show ?case using reach_malloc(2,3) by (rule step_malloc)
next
  case (reach_free s L p r s')
  from reach_free.IH obtain bs where "heap_ok s bs" "live_ok bs L" by blast
  then show ?case using reach_free(2,3) by (rule step_free)
next
  case (reach_free_null s L s')
  then show ?case by (simp add: myfree_def)
next
  case (reach_realloc s L p r0 r q s')
  from reach_realloc.IH obtain bs where "heap_ok s bs" "live_ok bs L" by blast
  then show ?case using reach_realloc(2,3,4) by (rule step_realloc)
next
  case (reach_realloc_null s L r q s')
  from reach_realloc_null(3) have run: "mymalloc s r = ret (q, s')" by (simp add: myrealloc_def)
  from reach_realloc_null.IH obtain bs where "heap_ok s bs" "live_ok bs L" by blast
  then show ?case using reach_realloc_null(2) run by (rule step_malloc)
next
  case (reach_write s L p r x v)
  from reach_write.IH obtain bs where b: "heap_ok s bs" "live_ok bs L" by blast
  from step_write [OF b reach_write(2,3)] b(2) show ?case by blast
qed

lemma ilayout_bounds:
  "ilayout a bs e \<Longrightarrow> (b, sz, fr) \<in> set bs \<Longrightarrow>
     unat a \<le> unat b \<and> unat b + 8 + unat sz \<le> unat e \<and> 8 \<le> unat sz \<and> aligned8 sz"
proof (induction bs arbitrary: a)
  case Nil
  then show ?case by simp
next
  case (Cons x bs)
  obtain b' sz' fr' where x: "x = (b', sz', fr')" by (cases x)
  from Cons.prems(1) have p: "b' = a" "aligned8 sz'" "8 \<le> unat sz'"
    "unat a + 8 + unat sz' \<le> unat e" "ilayout (a + 8 + sz') bs e" by (simp_all add: x)
  show ?case
  proof (cases "(b, sz, fr) = x")
    case True
    with p x show ?thesis by auto
  next
    case False
    with Cons.prems(2) have "(b, sz, fr) \<in> set bs" by simp
    from Cons.IH [OF p(5) this] unat_blk_end [OF p(4)] show ?thesis by simp
  qed
qed

lemma ilayout_sorted: "ilayout a bs e \<Longrightarrow> sorted_wrt before bs"
proof (induction bs arbitrary: a)
  case Nil
  show ?case by simp
next
  case (Cons x bs)
  obtain b sz fr where x: "x = (b, sz, fr)" by (cases x)
  from Cons.prems have p: "b = a" "unat a + 8 + unat sz \<le> unat e" "ilayout (a + 8 + sz) bs e"
    by (simp_all add: x)
  have "before x y" if "y \<in> set bs" for y
  proof -
    obtain b' sz' fr' where y: "y = (b', sz', fr')" by (cases y)
    from ilayout_bounds [OF p(3) that [unfolded y]] unat_blk_end [OF p(2)] p(1)
    show ?thesis by (simp add: before_def x y)
  qed
  with Cons.IH [OF p(3)] show ?case by simp
qed

lemma ilayout_disjoint:
  assumes "ilayout a bs e" and "(b, sz, False) \<in> set bs" and "(f, fz, True) \<in> set bs"
  shows "unat b + 8 + unat sz \<le> unat f \<or> unat f + 8 + unat fz \<le> unat b"
  using sorted_wrt_total [OF ilayout_sorted [OF assms(1)] assms(2,3)]
  by (auto simp: before_def)

lemma implicit_roundup_ok:
  assumes "unat r \<le> 18446744073709551608"
  shows "aligned8 (implicit_roundup r ALIGNMENT)" "r \<le> implicit_roundup r ALIGNMENT"
proof -
  have a8: "aligned8 (8 :: 64 word)" by (simp add: aligned8_iff_dvd)
  have eq: "(r + ALIGNMENT - 1) AND NOT (ALIGNMENT - 1) = (r + 7) AND NOT FREE"
    by (simp add: ALIGNMENT_def FREE_def add.commute)
  have u7: "unat (r + 7) = unat r + 7" using assms by (simp add: unat_add64)
  show "aligned8 (implicit_roundup r ALIGNMENT)"
    unfolding implicit_roundup_def eq using a8 by (simp add: aligned8_and_not ALIGNMENT_def)
  have "unat r \<le> unat ((r + 7) AND NOT FREE)"
    using split_FREE [of "r + 7"] and_FREE_le [of "r + 7"] u7 by linarith
  then show "r \<le> implicit_roundup r ALIGNMENT"
    unfolding implicit_roundup_def eq by (simp add: word_le_unat)
qed

lemma store64_ret:
  "store64 s a v = ret s' \<Longrightarrow> s' = s\<lparr>mem := wr64 (mem s) a v\<rparr> \<and> in_segment s a 8"
  by (auto simp: store64_def split: if_splits)

lemma implicit_mymalloc_loop_result:
  assumes "ilayout a bs (segment_end s)" and "hdrs (mem s) bs" and "segment_start s \<le> a"
    and nd: "aligned8 needed"
    and run: "implicit_mymalloc_loop needed s a = ret (np, s')" and nn: "np \<noteq> NULL"
  shows "\<exists>f fz. (f, fz, True) \<in> set bs \<and> needed \<le> fz \<and> np = f + HEADER_LENGTH
      \<and> segment_start s' = segment_start s \<and> segment_end s' = segment_end s
      \<and> (\<forall>x. unat x < unat f \<or> unat f + 8 + unat fz \<le> unat x \<longrightarrow> mem s' x = mem s x)"
  using assms(1,2,3) run
proof (induction bs arbitrary: a)
  case Nil
  from Nil.prems(1,4) nn show ?case
    by (subst (asm) implicit_mymalloc_loop.simps) simp
next
  case (Cons blk bs)
  obtain b sz fr where blk: "blk = (b, sz, fr)" by (cases blk)
  let ?e = "segment_end s"
  from Cons.prems(1) blk have b: "b = a" and az: "aligned8 sz" and z8: "8 \<le> unat sz"
    and le: "unat a + 8 + unat sz \<le> unat ?e" and l': "ilayout (a + 8 + sz) bs ?e" by simp_all
  from Cons.prems(2) blk b have h: "rd64 (mem s) a = hdr sz fr" and h': "hdrs (mem s) bs" by simp_all
  have e64: "unat ?e \<le> 18446744073709551616" using unat_lt64 [of ?e] by simp
  have lt: "a < ?e" using le by (simp add: word_less_unat)
  have sa: "in_segment s a 8"
    using Cons.prems(3) le by (simp add: in_segment_def)
  have uf: "USED \<noteq> FREE" by (simp add: USED_def FREE_def)
  have st: "hdr sz f AND NOT FREE = sz" "(hdr sz f AND FREE = FREE) = f" for f
    using az uf by (auto simp: hdr_def hdr_size_free hdr_size_used hdr_status_free aligned8_def USED_def)
  have unf: "implicit_mymalloc_loop needed s a =
      (if needed \<le> sz \<and> fr then
         rbind (if sz - needed \<le> HEADER_LENGTH then store64 s a (sz AND NOT FREE)
                else rbind (store64 s a (needed AND NOT FREE)) (\<lambda>s.
                     store64 s (a + HEADER_LENGTH + needed) ((sz - needed - HEADER_LENGTH) OR FREE)))
           (\<lambda>s. ret (a + HEADER_LENGTH, s))
       else implicit_mymalloc_loop needed s (a + sz + HEADER_LENGTH))"
    by (subst implicit_mymalloc_loop.simps)
       (simp add: lt load64_ok sa h st Let_def cong del: rbind_cong_weak)
  show ?case
  proof (cases "needed \<le> sz \<and> fr")
    case False
    have "unat a \<le> unat (a + 8 + sz)" using unat_blk_end [OF le] by simp
    with Cons.prems(3) have ge: "segment_start s \<le> a + 8 + sz" by (simp add: word_le_unat)
    have "a + sz + HEADER_LENGTH = a + 8 + sz" by (simp add: HEADER_LENGTH_def)
    with Cons.prems(4) False have "implicit_mymalloc_loop needed s (a + 8 + sz) = ret (np, s')"
      unfolding unf by simp
    from Cons.IH [OF l' h' ge this] show ?thesis by auto
  next
    case True
    then have fit: "needed \<le> sz" and fr: fr by simp_all
    have un: "unat needed \<le> unat sz" using fit by (simp add: word_le_unat)
    have a8: "unat a + 8 \<le> 18446744073709551616" using le e64 by simp
    have m: "segment_start s' = segment_start s \<and> segment_end s' = ?e \<and> np = a + HEADER_LENGTH
        \<and> (\<forall>x. unat x < unat a \<or> unat a + 8 + unat sz \<le> unat x \<longrightarrow> mem s' x = mem s x)"
    proof (cases "sz - needed \<le> HEADER_LENGTH")
      case small: True
      with Cons.prems(4) True have st': "store64 s a (sz AND NOT FREE) = ret s'"
        and np: "np = a + HEADER_LENGTH"
        unfolding unf by (auto simp: sa store64_ok)
      have "wr64 (mem s) a (sz AND NOT FREE) x = mem s x"
        if "unat x < unat a \<or> unat a + 8 + unat sz \<le> unat x" for x
        by (rule wr64_outside [OF a8]) (use that in linarith)
      with np store64_ret [OF st'] show ?thesis by auto
    next
      case big: False
      have usn: "unat (sz - needed) = unat sz - unat needed" using un by (simp add: unat_sub64)
      have "8 dvd unat sz - unat needed"
        using az nd un by (simp add: aligned8_iff_dvd)
      moreover have "8 < unat sz - unat needed"
        using big usn by (simp add: word_le_unat HEADER_LENGTH_def not_le)
      ultimately have b16: "unat needed + 16 \<le> unat sz" using un by (auto elim: dvdE)
      define nh where "nh = a + HEADER_LENGTH + needed"
      have unh: "unat nh = unat a + 8 + unat needed"
        using le b16 e64 by (simp add: nh_def HEADER_LENGTH_def unat_add64)
      define s1 where "s1 = s\<lparr>mem := wr64 (mem s) a (needed AND NOT FREE)\<rparr>"
      have snh: "in_segment s1 nh 8"
        using Cons.prems(3) unh le b16 by (simp add: in_segment_def word_le_unat s1_def)
      from Cons.prems(4) True big have s': "s' = s1\<lparr>mem := wr64 (mem s1) nh ((sz - needed - HEADER_LENGTH) OR FREE)\<rparr>"
        and np: "np = a + HEADER_LENGTH"
        unfolding unf by (auto simp: sa store64_ok s1_def [symmetric] nh_def [symmetric] snh)
      have "mem s' x = mem s x" if x: "unat x < unat a \<or> unat a + 8 + unat sz \<le> unat x" for x
      proof -
        have "wr64 (mem s1) nh v x = mem s1 x" for v
          by (rule wr64_outside) (use x unh b16 le e64 in linarith)+
        moreover have "wr64 (mem s) a (needed AND NOT FREE) x = mem s x"
          by (rule wr64_outside [OF a8]) (use x in linarith)
        then have "mem s1 x = mem s x" by (simp add: s1_def)
        ultimately show ?thesis using s' by simp
      qed
      with s' np show ?thesis by (simp add: s1_def)
    qed
    with m fit fr blk b show ?thesis by auto
  qed
qed

lemma rbind_eq_ret:
  "rbind m f = ret y \<Longrightarrow> \<exists>x. m = ret x \<and> f x = ret y"
  by (auto simp: rbind_def ret_def split: option.splits sum.splits)

lemma memcpy_ret:
  "memcpy s dst src n = ret s' \<Longrightarrow> n \<noteq> 0 \<Longrightarrow>
     s' = s\<lparr>mem := (\<lambda>x. if x - dst < n then mem s (src + (x - dst)) else mem s x)\<rparr>"
  by (auto simp: memcpy_def split: if_splits)

lemma implicit_myfree_ret:
  assumes "implicit_myfree s p = ret s'" and "p \<noteq> NULL"
  shows "\<exists>v. s' = s\<lparr>mem := wr64 (mem s) (p - HEADER_LENGTH) v\<rparr>"
proof -
  from assms have "rbind (load64 s (p - HEADER_LENGTH)) (\<lambda>w. store64 s (p - HEADER_LENGTH) (w OR FREE)) = ret s'"
    by (simp add: implicit_myfree_def Let_def)
  from rbind_eq_ret [OF this] obtain w where "store64 s (p - HEADER_LENGTH) (w OR FREE) = ret s'"
    by blast
  from store64_ret [OF this] show ?thesis by blast
qed

lemma implicit_myrealloc_payload:
  assumes ok: "iheap_ok t bs" and m: "(cur, sz, False) \<in> set bs"
    and r: "unat new_size \<le> 18446744073709551608"
    and run: "implicit_myrealloc t (cur + HEADER_LENGTH) new_size = ret (q, t')"
    and qn: "q \<noteq> NULL"
  shows "\<forall>i. i < sz \<and> i < new_size \<longrightarrow> mem t' (q + i) = mem t (cur + HEADER_LENGTH + i)"
proof (intro allI impI)
  fix i assume i: "i < sz \<and> i < new_size"
  let ?a = "segment_start t" and ?e = "segment_end t"
  let ?p = "cur + HEADER_LENGTH"
  define needed where "needed = implicit_roundup new_size ALIGNMENT"
  note ru = implicit_roundup_ok [OF r, folded needed_def]
  from ok have lay: "ilayout ?a bs ?e" and h: "hdrs (mem t) bs" by (simp_all add: iheap_ok_def)
  note bc = ilayout_bounds [OF lay m]
  have e64: "unat ?e \<le> 18446744073709551616" using unat_lt64 [of ?e] by simp
  have up: "unat ?p = unat cur + 8"
    using bc e64 by (simp add: HEADER_LENGTH_def unat_add64)
  have pn: "?p \<noteq> NULL"
  proof -
    from up have "unat ?p \<noteq> unat NULL" by (simp add: NULL_def)
    then show ?thesis by auto
  qed
  have sc: "in_segment t cur 8" using bc by (simp add: in_segment_def word_le_unat)
  from h m have hc: "rd64 (mem t) cur = sz" by (auto simp: hdrs_def list_all_iff hdr_def)
  have ui: "unat i < unat sz" "unat i < unat new_size" using i by (simp_all add: word_less_unat)
  have un: "unat new_size \<le> unat needed" using ru(2) by (simp add: word_le_unat)
  have uo: "unat (?p + i) = unat cur + 8 + unat i"
    using up bc ui e64 by (simp add: unat_add64)
  have unf: "implicit_myrealloc t ?p new_size =
      (if needed \<le> sz then
         rbind (if sz - needed > HEADER_LENGTH
                then store64 t (?p + needed) ((sz - needed - HEADER_LENGTH) OR FREE)
                else ret t)
           (\<lambda>s. ret (?p, s))
       else
         rbind (implicit_mymalloc_loop needed t ?a) (\<lambda>(new_ptr, s).
           if new_ptr = NULL then ret (NULL, s)
           else rbind (memcpy s new_ptr ?p sz) (\<lambda>s.
                rbind (implicit_myfree s ?p) (\<lambda>s. ret (new_ptr, s)))))"
    using pn sc
    by (simp add: implicit_myrealloc_def load64_ok hc Let_def needed_def implicit_mymalloc_def
        cong del: rbind_cong_weak)
  show "mem t' (q + i) = mem t (?p + i)"
  proof (cases "needed \<le> sz")
    case True
    have uns: "unat needed \<le> unat sz" using True by (simp add: word_le_unat)
    show ?thesis
    proof (cases "sz - needed > HEADER_LENGTH")
      case False
      with run True show ?thesis unfolding unf by simp
    next
      case big: True
      from run True big have q: "q = ?p"
        and st: "store64 t (?p + needed) ((sz - needed - HEADER_LENGTH) OR FREE) = ret t'"
        unfolding unf by (auto dest!: rbind_eq_ret)
      have unh: "unat (?p + needed) = unat cur + 8 + unat needed"
        using up bc uns unat_lt64 [of ?e] by (simp add: unat_add64)
      have b9: "unat needed + 8 < unat sz"
        using big uns by (simp add: word_less_unat unat_sub64 HEADER_LENGTH_def)
      have "wr64 (mem t) (?p + needed) v (?p + i) = mem t (?p + i)" for v
        by (rule wr64_outside) (use unh uo ui un uns b9 bc e64 in linarith)+
      with store64_ret [OF st] q show ?thesis by simp
    qed
  next
    case False
    then have small: "unat sz < unat needed" by (simp add: word_le_unat)
    from run False obtain x where x: "implicit_mymalloc_loop needed t ?a = ret x"
      and c: "(case x of (new_ptr, s) \<Rightarrow>
           if new_ptr = NULL then ret (NULL, s)
           else rbind (memcpy s new_ptr ?p sz) (\<lambda>s.
                rbind (implicit_myfree s ?p) (\<lambda>s. ret (new_ptr, s)))) = ret (q, t')"
      unfolding unf by (auto dest!: rbind_eq_ret)
    obtain np t1 where xe: "x = (np, t1)" by (cases x)
    from c xe qn have npn: "np \<noteq> NULL"
      and c': "rbind (memcpy t1 np ?p sz) (\<lambda>s.
                rbind (implicit_myfree s ?p) (\<lambda>s. ret (np, s))) = ret (q, t')"
      by (auto split: if_splits)
    from rbind_eq_ret [OF c'] obtain t2 where cp: "memcpy t1 np ?p sz = ret t2"
      and c2: "rbind (implicit_myfree t2 ?p) (\<lambda>s. ret (np, s)) = ret (q, t')" by blast
    from rbind_eq_ret [OF c2] have fr: "implicit_myfree t2 ?p = ret t'" and q: "q = np" by auto
    from implicit_mymalloc_loop_result [OF lay h _ ru(1) x [unfolded xe] npn]
    obtain f fz where f: "(f, fz, True) \<in> set bs" "needed \<le> fz" "np = f + HEADER_LENGTH"
      and fr1: "\<And>y. unat y < unat f \<or> unat f + 8 + unat fz \<le> unat y \<Longrightarrow> mem t1 y = mem t y"
      by auto
    note bf = ilayout_bounds [OF lay f(1)]
    note dj = ilayout_disjoint [OF lay m f(1)]
    have nf: "unat needed \<le> unat fz" using f(2) by (simp add: word_le_unat)
    have unp: "unat (np + i) = unat f + 8 + unat i"
      using bf ui small nf e64 by (simp add: f(3) HEADER_LENGTH_def unat_add64)
    have sz0: "sz \<noteq> 0" using bc by auto
    note t2 = memcpy_ret [OF cp sz0]
    from implicit_myfree_ret [OF fr pn] obtain v
      where t': "t' = t2\<lparr>mem := wr64 (mem t2) cur v\<rparr>" by auto
    have "mem t' (np + i) = mem t2 (np + i)"
      unfolding t' using bc e64
      by (simp, intro wr64_outside) (use unp dj ui small nf bc e64 in linarith)+
    also have "\<dots> = mem t1 (?p + i)"
      using i by (simp add: t2)
    also have "\<dots> = mem t (?p + i)"
      by (rule fr1) (use uo dj ui in linarith)
    finally show ?thesis by (simp add: q)
  qed
qed

lemma myrealloc_payload:
  assumes ok: "heap_ok s (pre @ (cur, sz, False) # post)"
    and r: "unat new_size \<le> 18446744073709551608"
    and run: "myrealloc s (cur + HEADER_LENGTH) new_size = ret (q, s')"
  shows "(\<forall>i. i < sz \<and> i < new_size \<longrightarrow> mem s' (q + i) = mem s (cur + HEADER_LENGTH + i))
       \<and> (q \<noteq> cur + HEADER_LENGTH
            \<longrightarrow> (\<forall>i. i < sz \<longrightarrow> mem s' (q + i) = mem s (cur + HEADER_LENGTH + i))
              \<and> (\<forall>i. sz \<le> i \<and> i < roundup new_size ALIGNMENT \<longrightarrow> mem s' (q + i) = mem s (q + i)))"
proof -
  let ?need = "roundup new_size ALIGNMENT"
  let ?cs = "grown sz post" and ?rest = "unabsorbed post"
  note ru = roundup_ok [OF r]
  note c = myrealloc_cases [OF ok ru(1,2) refl]
  note sp = heap_ok_split [OF ok]
  have e64: "unat (segment_end s) < 18446744073709551616" by (rule unat_lt64)
  have un: "unat new_size \<le> unat ?need" using ru(3) by (simp add: word_le_unat)
  show ?thesis
  proof (cases "?need \<le> ?cs")
    case True
    with c run have q: "q = cur + HEADER_LENGTH"
      and fr: "\<And>x. unat cur + 8 \<le> unat x \<Longrightarrow> unat x < unat cur + 8 + unat ?need
                \<Longrightarrow> unat x < unat cur + 8 + unat sz \<Longrightarrow> mem s' x = mem s x"
      by auto
    have "mem s' (q + i) = mem s (cur + HEADER_LENGTH + i)" if i: "i < sz \<and> i < new_size" for i
    proof -
      have ui: "unat i < unat sz" "unat i < unat new_size" using i by (simp_all add: word_less_unat)
      have "unat (cur + HEADER_LENGTH + i) = unat cur + 8 + unat i"
        using sp(3) ui e64 by (simp add: HEADER_LENGTH_def unat_add64)
      with fr [of "cur + HEADER_LENGTH + i"] ui un q show ?thesis by simp
    qed
    with q show ?thesis by simp
  next
    case False
    show ?thesis
    proof (cases "fit_in ?need (pre @ ?rest)")
      case None
      with c False run show ?thesis by simp
    next
      case (Some x)
      obtain f fz where x: "x = (f, fz)" by (cases x)
      from c False Some x run show ?thesis by auto
    qed
  qed
qed

lemma implicit_heap_200:
  "rbind (implicit_myinit seg0 4096 1024) (\<lambda>(ok, s). implicit_mymalloc s 200)
     = ret (4104, implicit_heap_200)"
  by (simp add: implicit_myinit_def seg0_def eval_simps implicit_mymalloc_def implicit_roundup_def
      implicit_mymalloc_loop.simps implicit_heap_200_def)

lemma iheap_ok_200: "iheap_ok implicit_heap_200 [(4096, 200, False), (4304, 808, True)]"
  by (simp add: iheap_ok_def implicit_heap_200_def hdr_def aligned8_iff_dvd eval_simps)

lemma implicit_realloc_200_100:
  "\<exists>t'. implicit_myrealloc implicit_heap_200 4104 100 = ret (4104, t')"
  by (simp add: implicit_heap_200_def implicit_myrealloc_def implicit_roundup_def eval_simps)

lemma roundup_100: "roundup 100 ALIGNMENT = 104"
  by (simp add: roundup_def const_defs)

lemma rd64_zero: "rd64 (\<lambda>_. 0) a = 0"
  by (simp add: rd64_def)

lemma neg1: "\<not> (- 1 :: 64 word) \<le> 8"
proof -
  have "(- 1 :: 64 word) = 18446744073709551615" by simp
  then show ?thesis by (simp only:) simp
qed

lemma implicit_roundup_wrap: "implicit_roundup (- 1) 8 = 0" "implicit_roundup 200 8 = 200"
  by (simp_all add: implicit_roundup_def ALIGNMENT_def neg1)

lemma ends_free_append:
  "ends_free (xs @ ys) = (if ys = [] then ends_free xs else ends_free ys)"
proof (induction xs)
  case Nil
  show ?case by simp
next
  case (Cons x xs)
  obtain b sz fr where x: "x = (b, sz, fr)" by (cases x)
  show ?case
    unfolding x append_Cons ends_free_Cons Cons.IH by simp
qed

lemma adjacent_free_unabsorbed: "\<not> adjacent_free post \<Longrightarrow> \<not> adjacent_free (unabsorbed post)"
  by (induction post rule: unabsorbed.induct) (auto simp: adjacent_free_Cons)

lemma adjacent_free_resized:
  assumes "\<not> adjacent_free pre" and "\<not> adjacent_free rest" and "\<not> starts_free rest"
  shows "\<not> adjacent_free (pre @ resized cur cs needed @ rest)"
  using assms
  by (simp add: adjacent_free_append adjacent_free_Cons resized_def starts_free_append)

lemma adjacent_free_alloc_in: "\<not> adjacent_free bs \<Longrightarrow> \<not> adjacent_free (alloc_in need bs)"
proof (induction need bs rule: alloc_in.induct)
  case (1 need)
  show ?case by simp
next
  case (2 need b z fr bs)
  from 2(2) have a: "\<not> adjacent_free bs" "fr \<longrightarrow> \<not> starts_free bs"
    by (simp_all add: adjacent_free_Cons)
  show ?case
  proof (cases "fr \<and> need \<le> z")
    case True
    with a show ?thesis
      by (simp add: adjacent_free_append taken_shape)
  next
    case False
    with 2(1) a alloc_in_not_free [of bs need] show ?thesis
      by (auto simp: adjacent_free_Cons)
  qed
qed

lemma ends_free_alloc_in: "\<not> ends_free bs \<Longrightarrow> \<not> ends_free (alloc_in need bs)"
proof (induction need bs rule: alloc_in.induct)
  case (1 need)
  show ?case by simp
next
  case (2 need b z fr bs)
  show ?case
  proof (cases "fr \<and> need \<le> z")
    case True
    with 2(2) show ?thesis
      by (auto simp: ends_free_append ends_free_Cons split: if_splits)
  next
    case False
    with 2 show ?thesis
      by (cases bs) (auto simp: ends_free_Cons taken_def split: if_splits)
  qed
qed

lemma adjacent_free_moved:
  assumes "\<not> adjacent_free pre" and "\<not> ends_free pre"
    and "\<not> adjacent_free rest" and "\<not> starts_free rest"
  shows "\<not> adjacent_free (moved needed pre cur cs rest)"
  using assms adjacent_free_alloc_in [of pre needed] adjacent_free_alloc_in [of rest needed]
    ends_free_alloc_in [of pre needed] alloc_in_not_free [of rest needed]
  by (simp add: moved_def adjacent_free_append adjacent_free_Cons)

lemma adjacent_free_left:
  assumes "ends_free pre"
  shows "adjacent_free (pre @ freed cur sz post)"
proof -
  have "starts_free (freed cur sz post)"
    by (cases "(cur, sz, post)" rule: freed.cases) simp_all
  with assms show ?thesis by (simp add: adjacent_free_append)
qed





section \<open>Claims\<close>

text \<open>
  C1 (out of space in the explicit allocator).  The claim is that \<open>mymalloc\<close> returns \<open>NULL\<close>
  and leaves the heap unchanged when no free block fits.  The loop of \<open>mymalloc\<close> runs
  while \<open>curr <= list_end\<close>; when the list is exhausted \<open>curr\<close> is \<open>NULL\<close>, the test
  \<open>NULL <= list_end\<close> holds, and the next header read is through the null pointer.  On a
  fresh 1024-byte segment \<open>mymalloc(2000)\<close> faults; with an empty free list (after
  \<open>mymalloc(1000)\<close> took the whole block) \<open>mymalloc(8)\<close> faults as well; and
  \<open>mymalloc(984)\<close> does not empty the free list: it leaves a 24-byte free block at
  offset 992, which the following \<open>mymalloc(8)\<close> takes.
\<close>

theorem mymalloc_out_of_space_faults:
  "rbind (myinit heap0 4096 1024) (\<lambda>(ok, s). mymalloc s 2000) = raise (OutOfSegment NULL)
   \<and> rbind (myinit heap0 4096 1024) (\<lambda>(ok, s).
       rbind (mymalloc s 1000) (\<lambda>(p, s).
       rbind (mymalloc s 8) (\<lambda>(q, s'). ret (p, list_head s, q))))
     = raise (OutOfSegment NULL)
   \<and> rbind (myinit heap0 4096 1024) (\<lambda>(ok, s).
       rbind (mymalloc s 984) (\<lambda>(p, s).
       rbind (mymalloc s 8) (\<lambda>(q, s'). ret (p, list_head s, free_blocks_num s, q))))
     = ret (4104, 5088, 1, 5096)"
  by (simp add: myinit_4096_1024)
     (simp add: eval_simps roundup_def mymalloc_def mymalloc_loop.simps)

text \<open>
  C2 (failure of the allocation inside \<open>myrealloc\<close>).  The claim is that \<open>myrealloc\<close>
  returns \<open>NULL\<close> and keeps the old block when its inner \<open>mymalloc\<close> fails.  After
  \<open>myinit(4096, 1024)\<close> and \<open>p = mymalloc(16)\<close>, the call \<open>myrealloc(p, 2000)\<close> absorbs the
  free block to the right, finds 1016 bytes too few, calls \<open>mymalloc(2000)\<close> on the now
  empty free list, and that call reads through the null pointer: the fault of C1.  The
  code has no test of \<open>new_ptr\<close> against \<open>NULL\<close> either.
\<close>

theorem myrealloc_fallback_faults:
  "rbind (myinit heap0 4096 1024) (\<lambda>(ok, s).
   rbind (mymalloc s 16) (\<lambda>(p, s).
   myrealloc s p 2000))
   = raise (OutOfSegment NULL)"
  by (simp add: myinit_4096_1024)
     (simp add: eval_simps roundup_def mymalloc_def mymalloc_loop.simps
        myrealloc_def myrealloc_loop.simps)

text \<open>
  C8 (in-place shrinking in the implicit allocator).  The claim is that the block's header
  is rewritten to \<open>need | USED\<close>.  The code writes the header of the trailing free block
  only: after \<open>myinit(4096, 1024)\<close>, \<open>p = mymalloc(200)\<close> and \<open>myrealloc(p, 40)\<close> the
  header at \<open>p - 8\<close> still reads 200, and the word \<open>152 | FREE = 159\<close> at \<open>p + 40\<close> lies
  inside the payload of that 200-byte block.
\<close>

theorem implicit_myrealloc_keeps_header:
  "rbind (implicit_myinit seg0 4096 1024) (\<lambda>(ok, s).
   rbind (implicit_mymalloc s 200) (\<lambda>(p, s).
   rbind (implicit_myrealloc s p 40) (\<lambda>(q, s).
   ret (p, q, rd64 (mem s) (p - 8), rd64 (mem s) (p + 40)))))
   = ret (4104, 4104, 200, 159)"
  by (simp add: implicit_myinit_def seg0_def eval_simps implicit_mymalloc_def implicit_roundup_def
      implicit_mymalloc_loop.simps implicit_myrealloc_def)

text \<open>
  C6 (initialisation), as amended.  For a segment that does not wrap around the address
  space, the explicit \<open>myinit\<close> succeeds exactly when the start is not null and the size
  is at least \<open>8 + 16\<close>; the implicit \<open>myinit\<close> succeeds exactly when the start is not
  null and the size is greater than 8 (its guard is \<open>heap_size <= HEADER_LENGTH\<close>, so
  sizes 9 to 15 are accepted, not only sizes from \<open>8 + 8\<close>).  After a successful explicit
  \<open>myinit\<close> the segment is \<open>[start, start + size)\<close>, the header at the start is
  \<open>(size - 8) | FREE\<close>, both link words are null, head and tail are the start and the
  count is 1; when the size is a multiple of 8 this one free block ends exactly at the
  segment end and the heap is well formed with that block as its only block.  After a
  successful implicit \<open>myinit\<close> the segment is \<open>[start, start + size)\<close> and the header at
  the start is \<open>(size - 8) | FREE\<close>; when the size is a multiple of 8 this one free block
  ends exactly at the segment end and it is the only block of the heap walk.
\<close>

theorem myinit_succeeds_iff:
  assumes "unat heap_start + unat heap_size < 18446744073709551616"
  shows "((\<exists>s'. myinit s heap_start heap_size = ret (True, s'))
            = (heap_start \<noteq> NULL \<and> HEADER_LENGTH + MIN_BLOCK_SIZE \<le> heap_size))
       \<and> ((\<exists>t'. implicit_myinit t heap_start heap_size = ret (True, t'))
            = (heap_start \<noteq> NULL \<and> HEADER_LENGTH < heap_size))
       \<and> (\<forall>s'. myinit s heap_start heap_size = ret (True, s') \<longrightarrow>
            segment_start s' = heap_start \<and> segment_end s' = heap_start + heap_size
          \<and> rd64 (mem s') heap_start = (heap_size - HEADER_LENGTH) OR FREE
          \<and> rd64 (mem s') (get_curr_prev heap_start) = NULL
          \<and> rd64 (mem s') (get_curr_next heap_start) = NULL
          \<and> list_head s' = heap_start \<and> list_end s' = heap_start \<and> free_blocks_num s' = 1
          \<and> (aligned8 heap_size \<longrightarrow>
               heap_start + HEADER_LENGTH + (rd64 (mem s') heap_start AND NOT FREE) = segment_end s'
             \<and> heap_ok s' [(heap_start, heap_size - HEADER_LENGTH, True)]))
       \<and> (\<forall>t'. implicit_myinit t heap_start heap_size = ret (True, t') \<longrightarrow>
            segment_start t' = heap_start \<and> segment_end t' = heap_start + heap_size
          \<and> rd64 (mem t') heap_start = (heap_size - HEADER_LENGTH) OR FREE
          \<and> (aligned8 heap_size \<longrightarrow>
               heap_start + HEADER_LENGTH + (rd64 (mem t') heap_start AND NOT FREE) = segment_end t'
             \<and> iheap_ok t' [(heap_start, heap_size - HEADER_LENGTH, True)]))"
proof -
  have e: "heap_start + HEADER_LENGTH + (heap_size - HEADER_LENGTH) = heap_start + heap_size"
    by simp
  have A: "(\<exists>s'. myinit s heap_start heap_size = ret (True, s'))
            = (heap_start \<noteq> NULL \<and> HEADER_LENGTH + MIN_BLOCK_SIZE \<le> heap_size)"
  proof (cases "heap_start \<noteq> NULL \<and> HEADER_LENGTH + MIN_BLOCK_SIZE \<le> heap_size")
    case True
    then show ?thesis by (simp add: myinit_accepted [OF assms])
  next
    case False
    then have "heap_start = NULL \<or> heap_size < HEADER_LENGTH + MIN_BLOCK_SIZE"
      by (auto simp: not_le)
    from myinit_refused [OF this, of s] False show ?thesis by simp
  qed
  have B: "(\<exists>t'. implicit_myinit t heap_start heap_size = ret (True, t'))
            = (heap_start \<noteq> NULL \<and> HEADER_LENGTH < heap_size)"
  proof (cases "heap_start \<noteq> NULL \<and> HEADER_LENGTH < heap_size")
    case True
    then show ?thesis by (simp add: implicit_myinit_accepted [OF assms])
  next
    case False
    then have "heap_start = NULL \<or> heap_size \<le> HEADER_LENGTH" by (auto simp: not_less)
    from implicit_myinit_refused [OF this, of t] False show ?thesis by simp
  qed
  have C: "\<forall>s'. myinit s heap_start heap_size = ret (True, s') \<longrightarrow>
            segment_start s' = heap_start \<and> segment_end s' = heap_start + heap_size
          \<and> rd64 (mem s') heap_start = (heap_size - HEADER_LENGTH) OR FREE
          \<and> rd64 (mem s') (get_curr_prev heap_start) = NULL
          \<and> rd64 (mem s') (get_curr_next heap_start) = NULL
          \<and> list_head s' = heap_start \<and> list_end s' = heap_start \<and> free_blocks_num s' = 1
          \<and> (aligned8 heap_size \<longrightarrow>
               heap_start + HEADER_LENGTH + (rd64 (mem s') heap_start AND NOT FREE) = segment_end s'
             \<and> heap_ok s' [(heap_start, heap_size - HEADER_LENGTH, True)])"
  proof (intro allI impI)
    fix s' assume run: "myinit s heap_start heap_size = ret (True, s')"
    from myinit_True [OF run]
    have c: "heap_start \<noteq> NULL" "HEADER_LENGTH + MIN_BLOCK_SIZE \<le> heap_size" by simp_all
    then have n: "24 \<le> unat heap_size"
      by (simp add: word_le_unat HEADER_LENGTH_def MIN_BLOCK_SIZE_def)
    have al: "aligned8 (heap_size - HEADER_LENGTH)" if "aligned8 heap_size"
      using that n by (simp add: aligned8_iff_dvd HEADER_LENGTH_def unat_sub64 word_le_unat)
    have b: "unat heap_start + 24 \<le> 18446744073709551616"
      using assms n by simp
    have ok: "heap_ok s' [(heap_start, heap_size - HEADER_LENGTH, True)]" if "aligned8 heap_size"
      using myinit_heap_ok [OF assms c that, of s] run by auto
    from run have s': "s' = s\<lparr>mem := wr64 (wr64 (wr64 (mem s) heap_start ((heap_size - HEADER_LENGTH) OR FREE))
                   (get_curr_prev heap_start) NULL) (get_curr_next heap_start) NULL,
        segment_start := heap_start, segment_end := heap_start + heap_size,
        list_head := heap_start, list_end := heap_start, free_blocks_num := 1\<rparr>"
      by (simp add: myinit_accepted [OF assms c])
    have m: "rd64 (mem s') heap_start = (heap_size - HEADER_LENGTH) OR FREE"
      "rd64 (mem s') (get_curr_prev heap_start) = NULL"
      "rd64 (mem s') (get_curr_next heap_start) = NULL"
      by (simp_all add: s' fresh_links [OF b])
    have g: "segment_start s' = heap_start" "segment_end s' = heap_start + heap_size"
      "list_head s' = heap_start" "list_end s' = heap_start" "free_blocks_num s' = 1"
      by (simp_all add: s')
    show "segment_start s' = heap_start \<and> segment_end s' = heap_start + heap_size
          \<and> rd64 (mem s') heap_start = (heap_size - HEADER_LENGTH) OR FREE
          \<and> rd64 (mem s') (get_curr_prev heap_start) = NULL
          \<and> rd64 (mem s') (get_curr_next heap_start) = NULL
          \<and> list_head s' = heap_start \<and> list_end s' = heap_start \<and> free_blocks_num s' = 1
          \<and> (aligned8 heap_size \<longrightarrow>
               heap_start + HEADER_LENGTH + (rd64 (mem s') heap_start AND NOT FREE) = segment_end s'
             \<and> heap_ok s' [(heap_start, heap_size - HEADER_LENGTH, True)])"
      using al ok by (simp add: m g hdr_size_free e)
  qed
  have D: "\<forall>t'. implicit_myinit t heap_start heap_size = ret (True, t') \<longrightarrow>
            segment_start t' = heap_start \<and> segment_end t' = heap_start + heap_size
          \<and> rd64 (mem t') heap_start = (heap_size - HEADER_LENGTH) OR FREE
          \<and> (aligned8 heap_size \<longrightarrow>
               heap_start + HEADER_LENGTH + (rd64 (mem t') heap_start AND NOT FREE) = segment_end t'
             \<and> iheap_ok t' [(heap_start, heap_size - HEADER_LENGTH, True)])"
  proof (intro allI impI)
    fix t' assume run: "implicit_myinit t heap_start heap_size = ret (True, t')"
    from implicit_myinit_True [OF run]
    have c: "heap_start \<noteq> NULL" "HEADER_LENGTH < heap_size" by simp_all
    then have n: "8 < unat heap_size"
      by (simp add: word_less_unat HEADER_LENGTH_def)
    have al: "aligned8 (heap_size - HEADER_LENGTH)" if "aligned8 heap_size"
      using that n by (simp add: aligned8_iff_dvd HEADER_LENGTH_def unat_sub64 word_le_unat)
    have ok: "iheap_ok t' [(heap_start, heap_size - HEADER_LENGTH, True)]" if "aligned8 heap_size"
      using implicit_myinit_iheap_ok [OF assms c that, of t] run by auto
    from run have t': "t' = t\<lparr>mem := wr64 (mem t) heap_start ((heap_size - HEADER_LENGTH) OR FREE),
        segment_start := heap_start, segment_end := heap_start + heap_size\<rparr>"
      by (simp add: implicit_myinit_accepted [OF assms c])
    have m: "rd64 (mem t') heap_start = (heap_size - HEADER_LENGTH) OR FREE"
      by (simp add: t' rd64_wr64_same)
    have g: "segment_start t' = heap_start" "segment_end t' = heap_start + heap_size"
      by (simp_all add: t')
    show "segment_start t' = heap_start \<and> segment_end t' = heap_start + heap_size
          \<and> rd64 (mem t') heap_start = (heap_size - HEADER_LENGTH) OR FREE
          \<and> (aligned8 heap_size \<longrightarrow>
               heap_start + HEADER_LENGTH + (rd64 (mem t') heap_start AND NOT FREE) = segment_end t'
             \<and> iheap_ok t' [(heap_start, heap_size - HEADER_LENGTH, True)])"
      using al ok by (simp add: m g hdr_size_free e)
  qed
  show ?thesis by (rule conjI [OF A conjI [OF B conjI [OF C D]]])
qed

theorem myinit_succeeds_iff_witness:
  "((\<exists>s'. myinit heap0 4096 1024 = ret (True, s'))
            = ((4096 :: addr) \<noteq> NULL \<and> HEADER_LENGTH + MIN_BLOCK_SIZE \<le> 1024))
       \<and> ((\<exists>t'. implicit_myinit seg0 4096 1024 = ret (True, t'))
            = ((4096 :: addr)  \<noteq> NULL \<and> HEADER_LENGTH < 1024))
       \<and> (\<exists>s'. myinit heap0 4096 1024 = ret (True, s') \<and>
            segment_start s' = 4096 \<and> segment_end s' = 5120
          \<and> rd64 (mem s') 4096 = 1023
          \<and> rd64 (mem s') 4104 = NULL
          \<and> rd64 (mem s') 4112 = NULL
          \<and> list_head s' = 4096 \<and> list_end s' = 4096 \<and> free_blocks_num s' = 1
          \<and> aligned8 1024
          \<and> 4096 + HEADER_LENGTH + (rd64 (mem s') 4096 AND NOT FREE) = segment_end s'
          \<and> heap_ok s' [(4096, 1016, True)])
       \<and> (\<exists>t'. implicit_myinit seg0 4096 1024 = ret (True, t') \<and>
            segment_start t' = 4096 \<and> segment_end t' = 5120
          \<and> rd64 (mem t') 4096 = 1023
          \<and> 4096 + HEADER_LENGTH + (rd64 (mem t') 4096 AND NOT FREE) = segment_end t'
          \<and> iheap_ok t' [(4096, 1016, True)])"
  using myinit_succeeds_iff [of 4096 1024 heap0 seg0]
  by (simp add: myinit_4096_1024 implicit_myinit_4096_1024 aligned8_def const_defs
      get_curr_prev_def get_curr_next_def)

text \<open>
  Counterexample to C6 as stated: the implicit \<open>myinit\<close> accepts a 9-byte segment, which
  is smaller than \<open>8 + 8\<close>, and its single block (header \<open>1 | FREE = 7\<close>, payload 0)
  ends at offset 8, not at the segment end; and the explicit \<open>myinit\<close> accepts a
  1023-byte segment, whose single block (payload 1008) ends at offset 1016, not at the
  segment end.
\<close>

theorem implicit_myinit_accepts_nine_bytes:
  "implicit_myinit seg0 4096 9
     = ret (True, \<lparr>mem = wr64 (\<lambda>_. 0) 4096 7, segment_start = 4096, segment_end = 4105\<rparr>)
   \<and> \<not> (8 + 8 \<le> (9 :: size_t))
   \<and> 4096 + HEADER_LENGTH + ((7 :: size_t) AND NOT FREE) = 4104
   \<and> myinit heap0 4096 1023
     = ret (True, \<lparr>mem = wr64 (wr64 (wr64 (\<lambda>_. 0) 4096 1015) 4104 0) 4112 0,
                   segment_start = 4096, segment_end = 5119,
                   list_head = 4096, list_end = 4096, free_blocks_num = 1\<rparr>)
   \<and> 4096 + HEADER_LENGTH + ((1015 :: size_t) AND NOT FREE) = 5112"
  by (simp add: implicit_myinit_def myinit_def seg0_def heap0_def eval_simps)




text \<open>
  C4 (first fit and splitting), as amended: for requests of at most \<open>2^64 - 8\<close> bytes, so
  that \<open>roundup\<close> does not wrap.  In a well-formed heap whose first free block with
  payload at least \<open>roundup(r)\<close> is \<open>(f, sz)\<close> (every free block before it is smaller),
  \<open>mymalloc(r)\<close> returns \<open>f + 8\<close>; when the leftover \<open>sz - roundup(r)\<close> is at least
  \<open>8 + 16\<close> the block becomes a USED block of payload \<open>roundup(r)\<close> followed by a new
  FREE block of payload \<open>sz - roundup(r) - 8\<close>, and otherwise a USED block of payload
  \<open>sz\<close>.  The heap after the call is well formed for the new block list, so the free
  list is the old one with the remainder in the chosen block's place (or with the block
  removed).  Concretely, after \<open>myinit(start, 1024)\<close> the call \<open>mymalloc(24)\<close> returns
  \<open>start + 8\<close>, the header at \<open>start\<close> is \<open>24 | USED\<close>, the header at \<open>start + 32\<close> is
  \<open>984 | FREE\<close>, and the two blocks tile the segment up to its end.
\<close>

theorem mymalloc_first_fit:
  assumes "unat r \<le> 18446744073709551608"
  shows "(heap_ok s (pre @ (f, sz, True) # post)
          \<and> (\<forall>(b, z, fr)\<in>set pre. fr \<longrightarrow> z < roundup r ALIGNMENT)
          \<and> roundup r ALIGNMENT \<le> sz
          \<longrightarrow> (\<exists>s'. mymalloc s r = ret (f + HEADER_LENGTH, s')
                \<and> heap_ok s' (pre @
                     (if HEADER_LENGTH + MIN_BLOCK_SIZE \<le> sz - roundup r ALIGNMENT
                      then [(f, roundup r ALIGNMENT, False),
                            (f + HEADER_LENGTH + roundup r ALIGNMENT,
                             sz - roundup r ALIGNMENT - HEADER_LENGTH, True)]
                      else [(f, sz, False)]) @ post)))
       \<and> (start \<noteq> NULL \<and> unat start + 1024 < 18446744073709551616
          \<longrightarrow> (\<exists>s1 s2. myinit s0 start 1024 = ret (True, s1)
                \<and> mymalloc s1 24 = ret (start + 8, s2)
                \<and> rd64 (mem s2) start = 24 OR USED
                \<and> rd64 (mem s2) (start + 32) = 984 OR FREE
                \<and> heap_ok s2 [(start, 24, False), (start + 32, 984, True)]
                \<and> segment_end s2 = start + 1024))"
proof (intro conjI impI)
  assume a: "heap_ok s (pre @ (f, sz, True) # post)
          \<and> (\<forall>(b, z, fr)\<in>set pre. fr \<longrightarrow> z < roundup r ALIGNMENT)
          \<and> roundup r ALIGNMENT \<le> sz"
  note ru = roundup_ok [OF assms]
  have c: "f + roundup r ALIGNMENT + HEADER_LENGTH = f + HEADER_LENGTH + roundup r ALIGNMENT"
    by (simp add: add.commute add.left_commute)
  let ?need = "roundup r ALIGNMENT"
  have e: "(if sz - ?need < HEADER_LENGTH + MIN_BLOCK_SIZE then [(f, sz, False)]
            else [(f, ?need, False), (f + ?need + HEADER_LENGTH, sz - ?need - HEADER_LENGTH, True)])
         = (if HEADER_LENGTH + MIN_BLOCK_SIZE \<le> sz - ?need
            then [(f, ?need, False), (f + HEADER_LENGTH + ?need, sz - ?need - HEADER_LENGTH, True)]
            else [(f, sz, False)])"
    by (auto simp: not_less ac_simps)
  from a mymalloc_fit [of s pre f sz post ?need] ru(1,2)
  obtain s' where "mymalloc_loop ?need s (list_head s) = ret (f + HEADER_LENGTH, s')"
    "heap_ok s' (pre @ (if sz - ?need < HEADER_LENGTH + MIN_BLOCK_SIZE then [(f, sz, False)]
            else [(f, ?need, False), (f + ?need + HEADER_LENGTH, sz - ?need - HEADER_LENGTH, True)]) @ post)"
    by blast
  then show "\<exists>s'. mymalloc s r = ret (f + HEADER_LENGTH, s')
                \<and> heap_ok s' (pre @
                     (if HEADER_LENGTH + MIN_BLOCK_SIZE \<le> sz - roundup r ALIGNMENT
                      then [(f, roundup r ALIGNMENT, False),
                            (f + HEADER_LENGTH + roundup r ALIGNMENT,
                             sz - roundup r ALIGNMENT - HEADER_LENGTH, True)]
                      else [(f, sz, False)]) @ post)"
    unfolding mymalloc_def Let_def e by blast
next
  assume "start \<noteq> NULL \<and> unat start + 1024 < 18446744073709551616"
  then show "\<exists>s1 s2. myinit s0 start 1024 = ret (True, s1)
                \<and> mymalloc s1 24 = ret (start + 8, s2)
                \<and> rd64 (mem s2) start = 24 OR USED
                \<and> rd64 (mem s2) (start + 32) = 984 OR FREE
                \<and> heap_ok s2 [(start, 24, False), (start + 32, 984, True)]
                \<and> segment_end s2 = start + 1024"
    using mymalloc_scenario by blast
qed

theorem mymalloc_first_fit_witness:
  "heap_ok fresh_heap ([] @ (4096, 1016, True) # [])
   \<and> roundup 24 ALIGNMENT \<le> 1016
   \<and> (\<exists>s'. mymalloc fresh_heap 24 = ret (4104, s')
          \<and> heap_ok s' [(4096, 24, False), (4128, 984, True)])
   \<and> (\<exists>s1 s2. myinit heap0 4096 1024 = ret (True, s1)
          \<and> mymalloc s1 24 = ret (4104, s2)
          \<and> rd64 (mem s2) 4096 = 24 \<and> rd64 (mem s2) 4128 = 991
          \<and> heap_ok s2 [(4096, 24, False), (4128, 984, True)]
          \<and> segment_end s2 = 5120)"
proof -
  have r: "unat (24 :: size_t) \<le> 18446744073709551608" by simp
  have h: "heap_ok fresh_heap ([] @ (4096, 1016, True) # [])"
    using heap_ok_fresh_heap by simp
  have n: "(4096 :: addr) \<noteq> NULL \<and> unat (4096 :: addr) + 1024 < 18446744073709551616"
    by (simp add: NULL_def)
  from mymalloc_first_fit [OF r, of fresh_heap "[]" 4096 1016 "[]" 4096 heap0] h n
  show ?thesis
    by (simp add: roundup_24 HEADER_LENGTH_def MIN_BLOCK_SIZE_def USED_def FREE_def)
qed

text \<open>
  Counterexample to C4 as stated (for every request): for \<open>r = 2^64 - 1\<close> the rounded
  size is 0, the first free block is chosen and the split path taken, but the remainder
  is not put into the chosen block's place in the free list: its header is written over
  the chosen block's \<open>prev\<close> link and the call faults on the store through that word
  (here at address \<open>2039 + 16\<close>, for a fresh 2048-byte heap at 8192).
\<close>

theorem mymalloc_wrapped_size_no_split:
  "rbind (myinit heap0 8192 2048) (\<lambda>(ok, s). mymalloc s (- 1)) = raise (OutOfSegment 2055)"
  by (simp add: myinit_8192_2048 mymalloc_def roundup_wrap)
     (simp add: eval_simps mymalloc_loop.simps)

text \<open>
  C5 (explicit engine, \<open>myfree\<close>).  In a well-formed heap, \<open>myfree(cur + 8)\<close> on the USED
  block \<open>(cur, sz)\<close> returns, and the heap after the call is well formed for the block
  list in which the block is replaced by \<open>freed cur sz post\<close>.  If the right neighbour
  \<open>(r, rs)\<close> is FREE, the result is one FREE block based at \<open>cur\<close> with payload
  \<open>sz + 8 + rs\<close> that stands in the free list where \<open>r\<close> stood: its \<open>prev\<close> and \<open>next\<close>
  words are the ones \<open>r\<close> had, the list head and tail are \<open>cur\<close> where they were \<open>r\<close>,
  and the count is unchanged (the patched neighbours are part of the well-formedness of
  the list \<open>frees pre @ cur # frees post'\<close>).  If the right neighbour is absent or USED,
  the block is marked FREE with its payload size unchanged and is a new member of the
  free list, between the free blocks before it and those after it.  In both cases the
  free list is in strictly ascending address order.
\<close>

theorem myfree_coalesces_right_or_inserts:
  assumes "heap_ok s (pre @ (cur, sz, False) # post)"
  shows "\<exists>s'. myfree s (cur + HEADER_LENGTH) = ret s'
      \<and> heap_ok s' (pre @ freed cur sz post)
      \<and> sorted_wrt (<) (frees (pre @ freed cur sz post))
      \<and> (\<forall>r rs post'. post = (r, rs, True) # post' \<longrightarrow>
            frees (pre @ freed cur sz post) = frees pre @ cur # frees post'
          \<and> rd64 (mem s') cur = (sz + HEADER_LENGTH + rs) OR FREE
          \<and> rd64 (mem s') (get_curr_prev cur) = rd64 (mem s) (get_curr_prev r)
          \<and> rd64 (mem s') (get_curr_next cur) = rd64 (mem s) (get_curr_next r)
          \<and> list_head s' = (if list_head s = r then cur else list_head s)
          \<and> list_end s' = (if list_end s = r then cur else list_end s)
          \<and> free_blocks_num s' = free_blocks_num s)
      \<and> (\<not> starts_free post \<longrightarrow>
            frees (pre @ freed cur sz post) = frees pre @ cur # frees post
          \<and> rd64 (mem s') cur = sz OR FREE
          \<and> free_blocks_num s' = free_blocks_num s + 1)"
proof -
  from myfree_ok [OF assms] obtain s' where r: "myfree s (cur + HEADER_LENGTH) = ret s'"
    and ok': "heap_ok s' (pre @ freed cur sz post)" by blast
  note so = heap_ok_sorted [OF assms] and so' = heap_ok_sorted [OF ok']
  from assms have fi: "fl_inv s (frees (pre @ (cur, sz, False) # post))" by (simp add: heap_ok_def)
  from ok' have fi': "fl_inv s' (frees (pre @ freed cur sz post))"
    and h': "hdrs (mem s') (pre @ freed cur sz post)" by (simp_all add: heap_ok_def)
  have c1: "frees (pre @ freed cur sz post) = frees pre @ cur # frees post'
          \<and> rd64 (mem s') cur = (sz + HEADER_LENGTH + rs) OR FREE
          \<and> rd64 (mem s') (get_curr_prev cur) = rd64 (mem s) (get_curr_prev r)
          \<and> rd64 (mem s') (get_curr_next cur) = rd64 (mem s) (get_curr_next r)
          \<and> list_head s' = (if list_head s = r then cur else list_head s)
          \<and> list_end s' = (if list_end s = r then cur else list_end s)
          \<and> free_blocks_num s' = free_blocks_num s"
    if p: "post = (r, rs, True) # post'" for r rs post'
  proof -
    from fi p have f: "fl_inv s (frees pre @ r # frees post')" by simp
    from so p have srt: "sorted_wrt (<) (frees pre @ r # frees post')" by simp
    from fi' p have f': "fl_inv s' (frees pre @ cur # frees post')" by simp
    from so' p have srt': "sorted_wrt (<) (frees pre @ cur # frees post')" by simp
    note a = fl_inv_at [OF f srt] and b = fl_inv_at [OF f' srt']
    from h' p have "rd64 (mem s') cur = (sz + HEADER_LENGTH + rs) OR FREE"
      by (simp add: hdr_def)
    moreover have "list_head s' = (if list_head s = r then cur else list_head s)"
      using a(3,6) b(3) by auto
    moreover have "list_end s' = (if list_end s = r then cur else list_end s)"
      using a(4,7) b(4) by auto
    ultimately show ?thesis
      using p a(1,2,5) b(1,2,5) by simp
  qed
  have c2: "frees (pre @ freed cur sz post) = frees pre @ cur # frees post
          \<and> rd64 (mem s') cur = sz OR FREE
          \<and> free_blocks_num s' = free_blocks_num s + 1"
    if n: "\<not> starts_free post"
  proof -
    note e = freed_not_free [OF n, of cur sz]
    from fi have "free_blocks_num s = of_nat (length (frees pre) + length (frees post))"
      by (simp add: fl_inv_def)
    moreover from fi' e
    have "free_blocks_num s' = of_nat (length (frees pre) + length (frees post)) + 1"
      by (simp add: fl_inv_def)
    moreover from h' e have "rd64 (mem s') cur = sz OR FREE" by (simp add: hdr_def)
    ultimately show ?thesis using e by simp
  qed
  from r ok' so' c1 c2 show ?thesis by blast
qed

theorem myfree_coalesces_right_or_inserts_witness:
  "\<exists>s1 s2 s3 s4. mymalloc fresh_heap 24 = ret (4104, s1)
      \<and> heap_ok s1 ([] @ (4096, 24, False) # [(4128, 984, True)])
      \<and> myfree s1 4104 = ret s3
      \<and> heap_ok s3 [(4096, 1016, True)]
      \<and> rd64 (mem s3) 4096 = 1023
      \<and> free_blocks_num s3 = free_blocks_num s1
      \<and> mymalloc s1 24 = ret (4136, s2)
      \<and> heap_ok s2 ([] @ (4096, 24, False) # [(4128, 24, False), (4160, 952, True)])
      \<and> myfree s2 4104 = ret s4
      \<and> heap_ok s4 [(4096, 24, True), (4128, 24, False), (4160, 952, True)]
      \<and> rd64 (mem s4) 4096 = 31
      \<and> free_blocks_num s4 = free_blocks_num s2 + 1"
proof -
  from fresh_two_allocs obtain s1 s2 where a: "mymalloc fresh_heap 24 = ret (4104, s1)"
    "heap_ok s1 ([] @ (4096, 24, False) # [(4128, 984, True)])"
    "mymalloc s1 24 = ret (4136, s2)"
    "heap_ok s2 ([] @ (4096, 24, False) # [(4128, 24, False), (4160, 952, True)])"
    by auto
  from myfree_coalesces_right_or_inserts [OF a(2)] obtain s3
    where b: "myfree s1 4104 = ret s3" "heap_ok s3 [(4096, 1016, True)]"
      "rd64 (mem s3) 4096 = 1023" "free_blocks_num s3 = free_blocks_num s1"
    by (auto simp: HEADER_LENGTH_def FREE_def)
  from myfree_coalesces_right_or_inserts [OF a(4)] obtain s4
    where c: "myfree s2 4104 = ret s4"
      "heap_ok s4 [(4096, 24, True), (4128, 24, False), (4160, 952, True)]"
      "rd64 (mem s4) 4096 = 31" "free_blocks_num s4 = free_blocks_num s2 + 1"
    by (auto simp: HEADER_LENGTH_def FREE_def)
  from a b c show ?thesis by blast
qed

text \<open>
  Counterexample to C7: \<open>myfree\<close> coalesces only with the right neighbour.  After
  \<open>myinit(4096, 1024)\<close>, \<open>a = mymalloc(24)\<close>, \<open>b = mymalloc(24)\<close>, \<open>myfree(a)\<close> and
  \<open>myfree(b)\<close>, the heap walk is a FREE block of payload 24 at 4096 followed by a FREE
  block of payload 984 at 4128.
\<close>

theorem myfree_leaves_adjacent_free_blocks:
  "\<exists>s1 s2 s3 s4. myinit heap0 4096 1024 = ret (True, fresh_heap)
      \<and> mymalloc fresh_heap 24 = ret (4104, s1)
      \<and> mymalloc s1 24 = ret (4136, s2)
      \<and> myfree s2 4104 = ret s3
      \<and> myfree s3 4136 = ret s4
      \<and> heap_ok s4 [(4096, 24, True), (4128, 984, True)]
      \<and> adjacent_free [(4096, 24, True), (4128, 984, True)]
      \<and> rd64 (mem s4) 4096 = 24 OR FREE
      \<and> rd64 (mem s4) (4096 + HEADER_LENGTH + 24) = 984 OR FREE"
proof -
  from fresh_free_frees obtain s1 s2 s3 s4 where a: "mymalloc fresh_heap 24 = ret (4104, s1)"
      "mymalloc s1 24 = ret (4136, s2)" "myfree s2 4104 = ret s3" "myfree s3 4136 = ret s4"
      "heap_ok s4 [(4096, 24, True), (4128, 984, True)]"
    by blast
  from a(5) have "rd64 (mem s4) 4096 = 24 OR FREE"
    "rd64 (mem s4) (4096 + HEADER_LENGTH + 24) = 984 OR FREE"
    by (simp_all add: heap_ok_def hdr_def HEADER_LENGTH_def)
  with a myinit_fresh_heap show ?thesis by auto
qed

text \<open>
  C7, amended.  On a well-formed heap in which no two blocks that follow each other in
  the heap walk are both FREE, each public call leaves such a heap, with one proviso.
  \<open>mymalloc\<close>, for a request that \<open>roundup\<close> does not wrap and a first fitting free
  block \<open>(f, sz)\<close>, preserves the property.  \<open>myfree\<close> of the USED block \<open>(cur, sz)\<close>
  preserves it provided that the block before it in the heap walk is absent or USED.
  \<open>myrealloc\<close> of the USED block \<open>(cur, sz)\<close>, for a request that \<open>roundup\<close> does not
  wrap, preserves it when the block is resized in place (the rounded size fits the block
  grown by its FREE right neighbours), and, when the block is moved to the first fitting
  free block \<open>(f, fz)\<close>, provided again that the block before \<open>(cur, sz)\<close> is absent or
  USED.  The proviso cannot be dropped: \<open>myfree\<close> merges the block with a FREE right
  neighbour only, so \<open>myfree\<close> of a block whose left neighbour is FREE returns and leaves
  a well-formed heap with two adjacent FREE blocks.
\<close>

theorem no_adjacent_free_preserved:
  assumes "heap_ok s bs" and "\<not> adjacent_free bs"
  shows "(\<forall>pre f sz post r. bs = pre @ (f, sz, True) # post
            \<and> (\<forall>(b, z, fr)\<in>set pre. fr \<longrightarrow> z < roundup r ALIGNMENT)
            \<and> roundup r ALIGNMENT \<le> sz \<and> unat r \<le> 18446744073709551608
          \<longrightarrow> (\<exists>s'. mymalloc s r = ret (f + HEADER_LENGTH, s')
                \<and> heap_ok s' (pre @ taken f sz (roundup r ALIGNMENT) @ post)
                \<and> \<not> adjacent_free (pre @ taken f sz (roundup r ALIGNMENT) @ post)))
       \<and> (\<forall>pre cur sz post. bs = pre @ (cur, sz, False) # post \<and> \<not> ends_free pre
          \<longrightarrow> (\<exists>s'. myfree s (cur + HEADER_LENGTH) = ret s'
                \<and> heap_ok s' (pre @ freed cur sz post)
                \<and> \<not> adjacent_free (pre @ freed cur sz post)))
       \<and> (\<forall>pre cur sz post r. bs = pre @ (cur, sz, False) # post
            \<and> unat r \<le> 18446744073709551608 \<and> roundup r ALIGNMENT \<le> grown sz post
          \<longrightarrow> (\<exists>s'. myrealloc s (cur + HEADER_LENGTH) r = ret (cur + HEADER_LENGTH, s')
                \<and> heap_ok s' (pre @ resized cur (grown sz post) (roundup r ALIGNMENT) @ unabsorbed post)
                \<and> \<not> adjacent_free
                      (pre @ resized cur (grown sz post) (roundup r ALIGNMENT) @ unabsorbed post)))
       \<and> (\<forall>pre cur sz post r f fz. bs = pre @ (cur, sz, False) # post
            \<and> unat r \<le> 18446744073709551608 \<and> \<not> roundup r ALIGNMENT \<le> grown sz post
            \<and> fit_in (roundup r ALIGNMENT) (pre @ unabsorbed post) = Some (f, fz)
            \<and> \<not> ends_free pre
          \<longrightarrow> (\<exists>s'. myrealloc s (cur + HEADER_LENGTH) r = ret (f + HEADER_LENGTH, s')
                \<and> heap_ok s' (moved (roundup r ALIGNMENT) pre cur (grown sz post) (unabsorbed post))
                \<and> \<not> adjacent_free
                      (moved (roundup r ALIGNMENT) pre cur (grown sz post) (unabsorbed post))))
       \<and> (\<forall>pre cur sz post. bs = pre @ (cur, sz, False) # post \<and> ends_free pre
          \<longrightarrow> (\<exists>s'. myfree s (cur + HEADER_LENGTH) = ret s'
                \<and> heap_ok s' (pre @ freed cur sz post)
                \<and> adjacent_free (pre @ freed cur sz post)))"
proof (intro conjI allI impI)
  fix pre f sz post r
  assume a: "bs = pre @ (f, sz, True) # post
            \<and> (\<forall>(b, z, fr)\<in>set pre. fr \<longrightarrow> z < roundup r ALIGNMENT)
            \<and> roundup r ALIGNMENT \<le> sz \<and> unat r \<le> 18446744073709551608"
  let ?need = "roundup r ALIGNMENT"
  from a have r: "unat r \<le> 18446744073709551608" by simp
  note ru = roundup_ok [OF r]
  from a assms(1) have ok: "heap_ok s (pre @ (f, sz, True) # post)" by simp
  from mymalloc_fit [OF ok, of ?need] a ru(1,2)
  obtain s' where "mymalloc_loop ?need s (list_head s) = ret (f + HEADER_LENGTH, s')"
    "heap_ok s' (pre @ taken f sz ?need @ post)"
    unfolding taken_def by blast
  moreover from a assms(2) have "\<not> adjacent_free (pre @ taken f sz ?need @ post)"
    by (intro adjacent_free_taken) simp
  ultimately show "\<exists>s'. mymalloc s r = ret (f + HEADER_LENGTH, s')
                \<and> heap_ok s' (pre @ taken f sz ?need @ post)
                \<and> \<not> adjacent_free (pre @ taken f sz ?need @ post)"
    by (auto simp: mymalloc_def)
next
  fix pre cur sz post
  assume a: "bs = pre @ (cur, sz, False) # post \<and> \<not> ends_free pre"
  with assms(1) have ok: "heap_ok s (pre @ (cur, sz, False) # post)" by simp
  from myfree_ok [OF ok] obtain s' where "myfree s (cur + HEADER_LENGTH) = ret s'"
    "heap_ok s' (pre @ freed cur sz post)" by blast
  moreover from a assms(2) have "\<not> adjacent_free (pre @ freed cur sz post)"
    by (intro adjacent_free_freed) simp_all
  ultimately show "\<exists>s'. myfree s (cur + HEADER_LENGTH) = ret s'
                \<and> heap_ok s' (pre @ freed cur sz post)
                \<and> \<not> adjacent_free (pre @ freed cur sz post)"
    by blast
next
  fix pre cur sz post r
  assume a: "bs = pre @ (cur, sz, False) # post
            \<and> unat r \<le> 18446744073709551608 \<and> roundup r ALIGNMENT \<le> grown sz post"
  let ?need = "roundup r ALIGNMENT"
  from a have r: "unat r \<le> 18446744073709551608" and le: "?need \<le> grown sz post"
    by simp_all
  note ru = roundup_ok [OF r]
  from a assms(1) have ok: "heap_ok s (pre @ (cur, sz, False) # post)" by simp
  from myrealloc_cases [OF ok ru(1,2) refl] le
  obtain s' where "myrealloc s (cur + HEADER_LENGTH) r = ret (cur + HEADER_LENGTH, s')"
    "heap_ok s' (pre @ resized cur (grown sz post) ?need @ unabsorbed post)"
    by auto
  moreover from a assms(2) have "\<not> adjacent_free pre" "\<not> adjacent_free post"
    by (simp_all add: adjacent_free_append adjacent_free_Cons)
  then have "\<not> adjacent_free (pre @ resized cur (grown sz post) ?need @ unabsorbed post)"
    by (intro adjacent_free_resized adjacent_free_unabsorbed unabsorbed_not_free)
  ultimately show "\<exists>s'. myrealloc s (cur + HEADER_LENGTH) r = ret (cur + HEADER_LENGTH, s')
                \<and> heap_ok s' (pre @ resized cur (grown sz post) ?need @ unabsorbed post)
                \<and> \<not> adjacent_free (pre @ resized cur (grown sz post) ?need @ unabsorbed post)"
    by blast
next
  fix pre cur sz post r f fz
  assume a: "bs = pre @ (cur, sz, False) # post
            \<and> unat r \<le> 18446744073709551608 \<and> \<not> roundup r ALIGNMENT \<le> grown sz post
            \<and> fit_in (roundup r ALIGNMENT) (pre @ unabsorbed post) = Some (f, fz)
            \<and> \<not> ends_free pre"
  let ?need = "roundup r ALIGNMENT"
  from a have r: "unat r \<le> 18446744073709551608" and nle: "\<not> ?need \<le> grown sz post"
    and fit: "fit_in ?need (pre @ unabsorbed post) = Some (f, fz)"
    and ne: "\<not> ends_free pre"
    by simp_all
  note ru = roundup_ok [OF r]
  from a assms(1) have ok: "heap_ok s (pre @ (cur, sz, False) # post)" by simp
  from myrealloc_cases [OF ok ru(1,2) refl] nle fit
  obtain s' where "myrealloc s (cur + HEADER_LENGTH) r = ret (f + HEADER_LENGTH, s')"
    "heap_ok s' (moved ?need pre cur (grown sz post) (unabsorbed post))"
    by auto
  moreover from a assms(2) have "\<not> adjacent_free pre" "\<not> adjacent_free post"
    by (simp_all add: adjacent_free_append adjacent_free_Cons)
  then have "\<not> adjacent_free (moved ?need pre cur (grown sz post) (unabsorbed post))"
    using ne by (intro adjacent_free_moved adjacent_free_unabsorbed unabsorbed_not_free)
  ultimately show "\<exists>s'. myrealloc s (cur + HEADER_LENGTH) r = ret (f + HEADER_LENGTH, s')
                \<and> heap_ok s' (moved ?need pre cur (grown sz post) (unabsorbed post))
                \<and> \<not> adjacent_free (moved ?need pre cur (grown sz post) (unabsorbed post))"
    by blast
next
  fix pre cur sz post
  assume a: "bs = pre @ (cur, sz, False) # post \<and> ends_free pre"
  with assms(1) have ok: "heap_ok s (pre @ (cur, sz, False) # post)" by simp
  from myfree_ok [OF ok] obtain s' where "myfree s (cur + HEADER_LENGTH) = ret s'"
    "heap_ok s' (pre @ freed cur sz post)" by blast
  moreover from a have "adjacent_free (pre @ freed cur sz post)"
    by (intro adjacent_free_left) simp
  ultimately show "\<exists>s'. myfree s (cur + HEADER_LENGTH) = ret s'
                \<and> heap_ok s' (pre @ freed cur sz post)
                \<and> adjacent_free (pre @ freed cur sz post)"
    by blast
qed

theorem no_adjacent_free_preserved_witness:
  "\<exists>s1 s2 s3 s4 s5 s6 s7 s8. mymalloc fresh_heap 24 = ret (4104, s1)
      \<and> mymalloc s1 24 = ret (4136, s2)
      \<and> heap_ok s2 [(4096, 24, False), (4128, 24, False), (4160, 952, True)]
      \<and> \<not> adjacent_free [(4096, 24, False), (4128, 24, False), (4160, 952, True)]
      \<and> mymalloc s2 24 = ret (4168, s3)
      \<and> heap_ok s3 [(4096, 24, False), (4128, 24, False), (4160, 24, False), (4192, 920, True)]
      \<and> \<not> adjacent_free [(4096, 24, False), (4128, 24, False), (4160, 24, False), (4192, 920, True)]
      \<and> myfree s2 4136 = ret s4
      \<and> heap_ok s4 [(4096, 24, False), (4128, 984, True)]
      \<and> \<not> adjacent_free [(4096, 24, False), (4128, 984, True)]
      \<and> myrealloc s2 4136 100 = ret (4136, s5)
      \<and> heap_ok s5 [(4096, 24, False), (4128, 104, False), (4240, 872, True)]
      \<and> \<not> adjacent_free [(4096, 24, False), (4128, 104, False), (4240, 872, True)]
      \<and> myrealloc s2 4104 100 = ret (4168, s6)
      \<and> heap_ok s6 [(4096, 24, True), (4128, 24, False), (4160, 104, False), (4272, 840, True)]
      \<and> \<not> adjacent_free [(4096, 24, True), (4128, 24, False), (4160, 104, False), (4272, 840, True)]
      \<and> myfree s2 4104 = ret s7
      \<and> heap_ok s7 [(4096, 24, True), (4128, 24, False), (4160, 952, True)]
      \<and> \<not> adjacent_free [(4096, 24, True), (4128, 24, False), (4160, 952, True)]
      \<and> myfree s7 4136 = ret s8
      \<and> heap_ok s8 [(4096, 24, True), (4128, 984, True)]
      \<and> adjacent_free [(4096, 24, True), (4128, 984, True)]"
proof -
  let ?bs = "[(4096, 24, False), (4128, 24, False), (4160, 952, True)] :: block list"
  let ?cs = "[(4096, 24, True), (4128, 24, False), (4160, 952, True)] :: block list"
  from fresh_free_frees obtain s1 s2 s7 where a: "mymalloc fresh_heap 24 = ret (4104, s1)"
    "mymalloc s1 24 = ret (4136, s2)" "heap_ok s2 ?bs"
    "myfree s2 4104 = ret s7" "heap_ok s7 ?cs"
    by blast
  have n: "\<not> adjacent_free ?bs" "\<not> adjacent_free ?cs" by simp_all
  note t = no_adjacent_free_preserved [OF a(3) n(1)]
  note u = no_adjacent_free_preserved [OF a(5) n(2)]
  note t1 = t [THEN conjunct1, rule_format]
  note t2 = t [THEN conjunct2, THEN conjunct1, rule_format]
  note t3 = t [THEN conjunct2, THEN conjunct2, THEN conjunct1, rule_format]
  note t4 = t [THEN conjunct2, THEN conjunct2, THEN conjunct2, THEN conjunct1, rule_format]
  note u5 = u [THEN conjunct2, THEN conjunct2, THEN conjunct2, THEN conjunct2, rule_format]
  have "?bs = [(4096, 24, False), (4128, 24, False)] @ (4160, 952, True) # []
      \<and> (\<forall>(b, z, fr)\<in>set [(4096, 24, False), (4128, 24, False)]. fr \<longrightarrow> z < roundup 24 ALIGNMENT)
      \<and> roundup 24 ALIGNMENT \<le> (952 :: size_t) \<and> unat (24 :: size_t) \<le> 18446744073709551608"
    by (simp add: roundup_24)
  from t1 [OF this] obtain s3 where b: "mymalloc s2 24 = ret (4160 + HEADER_LENGTH, s3)"
    "heap_ok s3 ([(4096, 24, False), (4128, 24, False)] @ taken 4160 952 (roundup 24 ALIGNMENT) @ [])"
    by blast
  have "?bs = [(4096, 24, False)] @ (4128, 24, False) # [(4160, 952, True)]
      \<and> \<not> ends_free [(4096, 24, False)]"
    by simp
  from t2 [OF this] obtain s4 where c: "myfree s2 (4128 + HEADER_LENGTH) = ret s4"
    "heap_ok s4 ([(4096, 24, False)] @ freed 4128 24 [(4160, 952, True)])"
    by blast
  have "?bs = [(4096, 24, False)] @ (4128, 24, False) # [(4160, 952, True)]
      \<and> unat (100 :: size_t) \<le> 18446744073709551608
      \<and> roundup 100 ALIGNMENT \<le> grown 24 [(4160, 952, True)]"
    by (simp add: roundup_100 HEADER_LENGTH_def)
  from t3 [OF this] obtain s5
    where d: "myrealloc s2 (4128 + HEADER_LENGTH) 100 = ret (4128 + HEADER_LENGTH, s5)"
    "heap_ok s5 ([(4096, 24, False)] @ resized 4128 (grown 24 [(4160, 952, True)]) (roundup 100 ALIGNMENT)
        @ unabsorbed [(4160, 952, True)])"
    by blast
  have "?bs = [] @ (4096, 24, False) # [(4128, 24, False), (4160, 952, True)]
      \<and> unat (100 :: size_t) \<le> 18446744073709551608
      \<and> \<not> roundup 100 ALIGNMENT \<le> grown 24 [(4128, 24, False), (4160, 952, True)]
      \<and> fit_in (roundup 100 ALIGNMENT) ([] @ unabsorbed [(4128, 24, False), (4160, 952, True)])
          = Some (4160, 952)
      \<and> \<not> ends_free []"
    by (simp add: roundup_100)
  from t4 [OF this] obtain s6
    where e: "myrealloc s2 (4096 + HEADER_LENGTH) 100 = ret (4160 + HEADER_LENGTH, s6)"
    "heap_ok s6 (moved (roundup 100 ALIGNMENT) [] 4096 (grown 24 [(4128, 24, False), (4160, 952, True)])
        (unabsorbed [(4128, 24, False), (4160, 952, True)]))"
    by blast
  have "?cs = [(4096, 24, True)] @ (4128, 24, False) # [(4160, 952, True)]
      \<and> ends_free [(4096, 24, True)]"
    by simp
  from u5 [OF this] obtain s8 where f: "myfree s7 (4128 + HEADER_LENGTH) = ret s8"
    "heap_ok s8 ([(4096, 24, True)] @ freed 4128 24 [(4160, 952, True)])"
    by blast
  from b c d e f have g: "mymalloc s2 24 = ret (4168, s3)"
    "heap_ok s3 [(4096, 24, False), (4128, 24, False), (4160, 24, False), (4192, 920, True)]"
    "myfree s2 4136 = ret s4" "heap_ok s4 [(4096, 24, False), (4128, 984, True)]"
    "myrealloc s2 4136 100 = ret (4136, s5)"
    "heap_ok s5 [(4096, 24, False), (4128, 104, False), (4240, 872, True)]"
    "myrealloc s2 4104 100 = ret (4168, s6)"
    "heap_ok s6 [(4096, 24, True), (4128, 24, False), (4160, 104, False), (4272, 840, True)]"
    "myfree s7 4136 = ret s8" "heap_ok s8 [(4096, 24, True), (4128, 984, True)]"
    by (simp_all add: roundup_24 roundup_100 taken_def resized_def moved_def
        HEADER_LENGTH_def MIN_BLOCK_SIZE_def)
  show ?thesis
    apply (rule exI [of _ s1], rule exI [of _ s2], rule exI [of _ s3], rule exI [of _ s4])
    apply (rule exI [of _ s5], rule exI [of _ s6], rule exI [of _ s7], rule exI [of _ s8])
    apply (simp add: a g)
    done
qed

text \<open>
  Counterexamples to C3.  A successful \<open>myinit\<close> need not leave a heap that
  \<open>validate_heap\<close> accepts: \<open>myinit(4096, 1023)\<close> succeeds (the start is not null and
  \<open>1023 >= 8 + 16\<close>), the header \<open>(1023 - 8) | FREE = 1015\<close> reads back as a FREE block of
  payload 1008 that ends at 5112, and the heap walk of \<open>validate_heap\<close> then reads the
  word at 5112, which reaches past the segment end 5119.  And a request size that
  \<open>roundup\<close> wraps to 0 breaks the heap: after \<open>myinit(4096, 1024)\<close> and
  \<open>p = mymalloc(24)\<close>, the call \<open>myrealloc(p, 2^64 - 1)\<close> returns \<open>p\<close> and leaves the header
  0 at 4096, a USED block of payload 0, and \<open>validate_heap\<close> returns false.
\<close>

theorem validate_heap_fails_after_calls:
  "(\<exists>s. myinit heap0 4096 1023 = ret (True, s) \<and> segment_end s = 5119
      \<and> validate_heap s = raise (OutOfSegment 5112))
   \<and> rbind (myinit heap0 4096 1024) (\<lambda>(ok, s).
     rbind (mymalloc s 24) (\<lambda>(p, s).
     rbind (myrealloc s p (- 1)) (\<lambda>(q, s).
     rbind (validate_heap s) (\<lambda>b. ret (p, q, rd64 (mem s) 4096, b)))))
     = ret (4104, 4104, 0, False)"
proof
  have a: "unat (4096 :: addr) + unat (1023 :: size_t) < 18446744073709551616"
    "(4096 :: addr) \<noteq> NULL" "HEADER_LENGTH + MIN_BLOCK_SIZE \<le> (1023 :: size_t)"
    by (simp_all add: const_defs)
  note i = myinit_accepted [OF a, of heap0]
  show "\<exists>s. myinit heap0 4096 1023 = ret (True, s) \<and> segment_end s = 5119
      \<and> validate_heap s = raise (OutOfSegment 5112)"
    unfolding i
    by (rule exI, intro conjI, rule refl)
       (simp_all add: validate_heap_def traverse_heap_def traverse_heap_loop.simps eval_simps heap0_def)
next
  have rw: "roundup (- 1) 8 = 0" "roundup 24 8 = 24"
    using roundup_wrap [of "- 1"] roundup_24 by (simp_all add: ALIGNMENT_def)
  show "rbind (myinit heap0 4096 1024) (\<lambda>(ok, s).
     rbind (mymalloc s 24) (\<lambda>(p, s).
     rbind (myrealloc s p (- 1)) (\<lambda>(q, s).
     rbind (validate_heap s) (\<lambda>b. ret (p, q, rd64 (mem s) 4096, b)))))
     = ret (4104, 4104, 0, False)"
    apply (simp add: myinit_4096_1024)
    apply (simp add: mymalloc_def myrealloc_def eval_simps rw mymalloc_loop.simps
      myrealloc_loop.simps insert_block_into_freelist_def
      validate_heap_def traverse_heap_def traverse_heap_loop.simps)
    done
qed

text \<open>
  C3, amended.  In every state reached by valid calls in the sense of \<open>reach\<close> (a
  successful \<open>myinit\<close> on a segment whose size is a multiple of 8 and that does not wrap
  around the address space, then calls of \<open>mymalloc\<close>, \<open>myfree\<close> and \<open>myrealloc\<close> that
  return, with request sizes of at most \<open>2^64 - 8\<close>, on pointers the client holds, and
  client writes into the bytes asked for), \<open>validate_heap\<close> returns true.
\<close>

theorem validate_heap_after_valid_calls:
  assumes "reach s L"
  shows "validate_heap s = ret True"
proof -
  from reach_heap_ok [OF assms] obtain bs where "heap_ok s bs" by blast
  then show ?thesis by (rule validate_heap_ok)
qed

theorem validate_heap_after_valid_calls_witness:
  "reach fresh_heap Map.empty \<and> validate_heap fresh_heap = ret True
   \<and> (\<exists>s1 s2. mymalloc fresh_heap 24 = ret (4104, s1) \<and> myfree s1 4104 = ret s2
         \<and> reach s2 ((Map.empty(4104 \<mapsto> 24))(4104 := None))
         \<and> validate_heap s2 = ret True)"
proof -
  have r0: "reach fresh_heap Map.empty"
    by (rule reach_init [OF myinit_fresh_heap]) (simp_all add: aligned8_iff_dvd)
  from fresh_two_allocs obtain s1 where s1: "mymalloc fresh_heap 24 = ret (4104, s1)"
    "heap_ok s1 ([] @ (4096, 24, False) # [(4128, 984, True)])" by auto
  from myfree_ok [OF s1(2)] obtain s2 where s2: "myfree s1 4104 = ret s2"
    by (auto simp: HEADER_LENGTH_def)
  have r1: "reach s1 (Map.empty(4104 \<mapsto> 24))"
    by (rule reach_malloc [OF r0 _ s1(1)]) simp
  have r2: "reach s2 ((Map.empty(4104 \<mapsto> 24))(4104 := None))"
    by (rule reach_free [OF r1 _ s2]) simp
  from validate_heap_after_valid_calls [OF r0] validate_heap_after_valid_calls [OF r2] r0 r2 s1(1) s2
  show ?thesis by blast
qed

text \<open>
  Counterexample to C9 (for every requested size): a size that \<open>roundup\<close> wraps to 0 makes
  a successful \<open>myrealloc\<close> overwrite the payload.  Explicit engine: after
  \<open>myinit(4096, 1024)\<close> and \<open>p = mymalloc(24)\<close>, \<open>myrealloc(p, 2^64 - 1)\<close> returns \<open>p\<close> and
  the first payload word, 0 before the call, is the header \<open>1008 | FREE = 1015\<close> of a free
  block placed at \<open>p\<close>.  Implicit variant: after \<open>myinit(4096, 1024)\<close> and
  \<open>p = mymalloc(200)\<close>, \<open>myrealloc(p, 2^64 - 1)\<close> returns \<open>p\<close> and the first payload word is
  the header \<open>192 | FREE = 199\<close>.
\<close>

theorem myrealloc_wrapped_size_overwrites_payload:
  "rbind (myinit heap0 4096 1024) (\<lambda>(ok, s).
     rbind (mymalloc s 24) (\<lambda>(p, s1).
     rbind (myrealloc s1 p (- 1)) (\<lambda>(q, s2).
     ret (p, q, rd64 (mem s1) p, rd64 (mem s2) q))))
     = ret (4104, 4104, 0, 1015)
   \<and> rbind (implicit_myinit seg0 4096 1024) (\<lambda>(ok, t).
     rbind (implicit_mymalloc t 200) (\<lambda>(p, t1).
     rbind (implicit_myrealloc t1 p (- 1)) (\<lambda>(q, t2).
     ret (p, q, rd64 (mem t1) p, rd64 (mem t2) q))))
     = ret (4104, 4104, 0, 199)"
proof
  have rw: "roundup (- 1) 8 = 0" "roundup 24 8 = 24"
    using roundup_wrap [of "- 1"] roundup_24 by (simp_all add: ALIGNMENT_def)
  show "rbind (myinit heap0 4096 1024) (\<lambda>(ok, s).
     rbind (mymalloc s 24) (\<lambda>(p, s1).
     rbind (myrealloc s1 p (- 1)) (\<lambda>(q, s2).
     ret (p, q, rd64 (mem s1) p, rd64 (mem s2) q))))
     = ret (4104, 4104, 0, 1015)"
    apply (simp add: myinit_4096_1024)
    apply (simp add: mymalloc_def myrealloc_def eval_simps rw mymalloc_loop.simps
      myrealloc_loop.simps insert_block_into_freelist_def rd64_zero)
    done
next
  show "rbind (implicit_myinit seg0 4096 1024) (\<lambda>(ok, t).
     rbind (implicit_mymalloc t 200) (\<lambda>(p, t1).
     rbind (implicit_myrealloc t1 p (- 1)) (\<lambda>(q, t2).
     ret (p, q, rd64 (mem t1) p, rd64 (mem t2) q))))
     = ret (4104, 4104, 0, 199)"
    by (simp add: implicit_myinit_def seg0_def eval_simps implicit_mymalloc_def
      implicit_roundup_wrap rd64_zero implicit_mymalloc_loop.simps implicit_myrealloc_def)
qed

text \<open>
  C9, amended: for requested sizes of at most \<open>2^64 - 8\<close>, so that \<open>roundup\<close> does not
  wrap.  Explicit engine: in a well-formed heap, if \<open>myrealloc\<close> on the USED block
  \<open>(cur, sz)\<close> returns \<open>q\<close>, every payload byte at an offset below both \<open>sz\<close> and the new
  size is the same at \<open>q\<close> after the call as at the old pointer before it.  When the
  block has moved (\<open>q\<close> is not the old pointer, the fallback path) the copy length is
  exactly \<open>sz\<close>, the payload size read before the absorption loop: all \<open>sz\<close> bytes of the
  original payload are found at \<open>q\<close>, and every byte of the new block from offset \<open>sz\<close>
  up to the rounded new size, which includes the offsets between \<open>sz\<close> and the size
  after absorption, is what it was before the call, so nothing beyond the original payload
  has been copied.
  Implicit variant: in a heap whose blocks tile the segment, if \<open>myrealloc\<close> on the USED
  block \<open>(icur, isz)\<close> returns a non-null \<open>iq\<close>, every payload byte at an offset below both
  \<open>isz\<close> and the new size is preserved at \<open>iq\<close>.
\<close>

theorem myrealloc_preserves_payload:
  assumes "unat new_size \<le> 18446744073709551608"
  shows "(heap_ok s (pre @ (cur, sz, False) # post)
          \<and> myrealloc s (cur + HEADER_LENGTH) new_size = ret (q, s')
          \<longrightarrow> (\<forall>i. i < sz \<and> i < new_size \<longrightarrow> mem s' (q + i) = mem s (cur + HEADER_LENGTH + i))
            \<and> (q \<noteq> cur + HEADER_LENGTH
                 \<longrightarrow> (\<forall>i. i < sz \<longrightarrow> mem s' (q + i) = mem s (cur + HEADER_LENGTH + i))
                   \<and> (\<forall>i. sz \<le> i \<and> i < roundup new_size ALIGNMENT
                          \<longrightarrow> mem s' (q + i) = mem s (q + i))))
       \<and> (iheap_ok t bs \<and> (icur, isz, False) \<in> set bs
          \<and> implicit_myrealloc t (icur + HEADER_LENGTH) new_size = ret (iq, t') \<and> iq \<noteq> NULL
          \<longrightarrow> (\<forall>i. i < isz \<and> i < new_size
                 \<longrightarrow> mem t' (iq + i) = mem t (icur + HEADER_LENGTH + i)))"
proof (intro conjI impI)
  assume a: "heap_ok s (pre @ (cur, sz, False) # post)
          \<and> myrealloc s (cur + HEADER_LENGTH) new_size = ret (q, s')"
  from a have ok: "heap_ok s (pre @ (cur, sz, False) # post)"
    and run: "myrealloc s (cur + HEADER_LENGTH) new_size = ret (q, s')" by simp_all
  note p = myrealloc_payload [OF ok assms run]
  from p show "\<forall>i. i < sz \<and> i < new_size \<longrightarrow> mem s' (q + i) = mem s (cur + HEADER_LENGTH + i)"
    by simp
  assume n: "q \<noteq> cur + HEADER_LENGTH"
  with p show "\<forall>i. i < sz \<longrightarrow> mem s' (q + i) = mem s (cur + HEADER_LENGTH + i)" by simp
  from p n show "\<forall>i. sz \<le> i \<and> i < roundup new_size ALIGNMENT \<longrightarrow> mem s' (q + i) = mem s (q + i)"
    by simp
next
  assume a: "iheap_ok t bs \<and> (icur, isz, False) \<in> set bs
          \<and> implicit_myrealloc t (icur + HEADER_LENGTH) new_size = ret (iq, t') \<and> iq \<noteq> NULL"
  then have "iheap_ok t bs" "(icur, isz, False) \<in> set bs"
    "implicit_myrealloc t (icur + HEADER_LENGTH) new_size = ret (iq, t')" "iq \<noteq> NULL"
    by simp_all
  from implicit_myrealloc_payload [OF this(1,2) assms this(3,4)]
  show "\<forall>i. i < isz \<and> i < new_size \<longrightarrow> mem t' (iq + i) = mem t (icur + HEADER_LENGTH + i)" .
qed

theorem myrealloc_preserves_payload_witness:
  "\<exists>s1 s3 s4 s5 t'. mymalloc fresh_heap 24 = ret (4104, s1)
      \<and> heap_ok s1 ([] @ (4096, 24, False) # [(4128, 984, True)])
      \<and> myrealloc s1 4104 100 = ret (4104, s3)
      \<and> mem s3 (4104 + 5) = mem s1 (4104 + 5)
      \<and> heap_ok s4 ([] @ (4096, 24, False) # [(4128, 24, True), (4160, 24, False), (4192, 920, True)])
      \<and> myrealloc s4 4104 100 = ret (4200, s5)
      \<and> mem s5 (4200 + 23) = mem s4 (4104 + 23)
      \<and> mem s5 (4200 + 24) = mem s4 (4200 + 24)
      \<and> mem s5 (4200 + 55) = mem s4 (4200 + 55)
      \<and> mem s5 (4200 + 103) = mem s4 (4200 + 103)
      \<and> iheap_ok implicit_heap_200 [(4096, 200, False), (4304, 808, True)]
      \<and> implicit_myrealloc implicit_heap_200 4104 100 = ret (4104, t')
      \<and> mem t' (4104 + 5) = mem implicit_heap_200 (4104 + 5)"
proof -
  have r: "unat (100 :: size_t) \<le> 18446744073709551608" by simp
  note ru = roundup_ok [OF r]
  from fresh_two_allocs obtain s1 where a: "mymalloc fresh_heap 24 = ret (4104, s1)"
    "heap_ok s1 ([] @ (4096, 24, False) # [(4128, 984, True)])"
    by auto
  from fresh_hole obtain s4
    where b: "heap_ok s4 ([] @ (4096, 24, False) # [(4128, 24, True), (4160, 24, False), (4192, 920, True)])"
    by auto
  from myrealloc_cases [OF a(2) ru(1,2) refl] obtain s3
    where s3: "myrealloc s1 (4096 + HEADER_LENGTH) 100 = ret (4096 + HEADER_LENGTH, s3)"
    by (auto simp: roundup_100 HEADER_LENGTH_def)
  from myrealloc_cases [OF b ru(1,2) refl] obtain s5
    where s5: "myrealloc s4 (4096 + HEADER_LENGTH) 100 = ret (4192 + HEADER_LENGTH, s5)"
    by (auto simp: roundup_100 HEADER_LENGTH_def)
  from implicit_realloc_200_100 obtain t'
    where t': "implicit_myrealloc implicit_heap_200 (4096 + HEADER_LENGTH) 100
      = ret (4096 + HEADER_LENGTH, t')"
    by (auto simp: HEADER_LENGTH_def)
  have n: "(4096 + HEADER_LENGTH :: addr) \<noteq> NULL" by (simp add: const_defs)
  have m: "(4096, 200, False) \<in> set [(4096, 200, False), (4304, 808, True) :: block]" by simp
  from myrealloc_preserves_payload [OF r, of s1 "[]" 4096 24 "[(4128, 984, True)]" "4096 + HEADER_LENGTH" s3
      implicit_heap_200 "[(4096, 200, False), (4304, 808, True)]" 4096 200 "4096 + HEADER_LENGTH" t']
    a(2) s3 iheap_ok_200 m t' n
  have q1: "\<forall>i. i < 24 \<and> i < 100 \<longrightarrow> mem s3 (4104 + i) = mem s1 (4104 + i)"
    and q3: "\<forall>i. i < 200 \<and> i < 100 \<longrightarrow> mem t' (4104 + i) = mem implicit_heap_200 (4104 + i)"
    by (auto simp: HEADER_LENGTH_def)
  from q1 [rule_format, of 5] q3 [rule_format, of 5]
  have p1: "mem s3 (4104 + 5) = mem s1 (4104 + 5)"
    and p3: "mem t' (4104 + 5) = mem implicit_heap_200 (4104 + 5)"
    by simp_all
  from myrealloc_preserves_payload [OF r, of s4 "[]" 4096 24
      "[(4128, 24, True), (4160, 24, False), (4192, 920, True)]" "4192 + HEADER_LENGTH" s5
      implicit_heap_200 "[(4096, 200, False), (4304, 808, True)]" 4096 200 "4096 + HEADER_LENGTH" t']
    b s5
  have q2: "\<forall>i. i < 24 \<longrightarrow> mem s5 (4200 + i) = mem s4 (4104 + i)"
    and q4: "\<forall>i. 24 \<le> i \<and> i < 104 \<longrightarrow> mem s5 (4200 + i) = mem s4 (4200 + i)"
    by (auto simp: HEADER_LENGTH_def roundup_100)
  from q2 [rule_format, of 23] q4 [rule_format, of 24] q4 [rule_format, of 55]
    q4 [rule_format, of 103]
  have p2: "mem s5 (4200 + 23) = mem s4 (4104 + 23)"
    "mem s5 (4200 + 24) = mem s4 (4200 + 24)"
    "mem s5 (4200 + 55) = mem s4 (4200 + 55)"
    "mem s5 (4200 + 103) = mem s4 (4200 + 103)"
    by simp_all
  from a b s3 s5 t' p1 p2 p3 iheap_ok_200 show ?thesis
    by (auto simp: HEADER_LENGTH_def)
qed

end
